(* ===== verification/Prelude.thy ===== *)
theory Prelude
  imports Main "HOL-Library.AList" "HOL-Library.Signed_Division" "HOL-Library.List_Lexorder"
    "HOL-Library.Char_ord" "HOL-Library.Monad_Syntax"
begin

text \<open>
  What every component of the development shares.

  \<^item> Go's \<open>int64\<close> arithmetic: \<open>wrap64\<close> is the two's complement value of an unbounded
    result, \<open>in64\<close> the range in which it is the identity.
  \<^item> Go maps, \<open>xsync.Map\<close>s and SQL tables with a primary key: association lists with
    distinct keys. A \<open>Range\<close> or a \<open>SELECT\<close> visits them in list order, and since the
    theorems quantify over every list with distinct keys they hold for every order.
  \<^item> Three locales for the way components are used: \<open>state_machine\<close> (an invariant kept by
    every operation holds after every run), \<open>metered_machine\<close> (a quantity every operation
    changes by a known amount), and \<open>refinement\<close> (a run of the code implements the run of
    its specification).
\<close>

section \<open>64-bit integers\<close>

definition wrap64 :: "int \<Rightarrow> int" where
  "wrap64 x = (x + 9223372036854775808) mod 18446744073709551616 - 9223372036854775808"

definition in64 :: "int \<Rightarrow> bool" where
  "in64 x \<longleftrightarrow> - 9223372036854775808 \<le> x \<and> x < 9223372036854775808"

named_theorems wrap_simps \<open>normal forms of wrapped sums\<close>

lemma in64_wrap64 [simp, intro]: "in64 (wrap64 x)"
  by (simp add: in64_def wrap64_def)

lemma wrap64_id [simp]: "in64 x \<Longrightarrow> wrap64 x = x"
  by (simp add: in64_def wrap64_def)

lemma wrap64_id_iff: "wrap64 x = x \<longleftrightarrow> in64 x"
  by (metis in64_wrap64 wrap64_id)

lemma wrap64_0 [simp]: "wrap64 0 = 0"
  by (simp add: wrap64_def)

lemma wrap64_wrap64 [simp]: "wrap64 (wrap64 x) = wrap64 x"
  by simp

lemma wrap64_cong: "a mod 18446744073709551616 = b mod 18446744073709551616 \<Longrightarrow> wrap64 a = wrap64 b"
  unfolding wrap64_def by (simp add: mod_add_cong)

lemma wrap64_mod: "wrap64 x mod 18446744073709551616 = x mod 18446744073709551616"
  unfolding wrap64_def by (simp add: mod_diff_left_eq)

lemma wrap64_add_left [wrap_simps]: "wrap64 (wrap64 a + b) = wrap64 (a + b)"
  by (rule wrap64_cong, rule mod_add_cong) (simp_all add: wrap64_mod)

lemma wrap64_add_right [wrap_simps]: "wrap64 (a + wrap64 b) = wrap64 (a + b)"
  by (rule wrap64_cong, rule mod_add_cong) (simp_all add: wrap64_mod)

lemma wrap64_diff_left [wrap_simps]: "wrap64 (wrap64 a - b) = wrap64 (a - b)"
  by (rule wrap64_cong, rule mod_diff_cong) (simp_all add: wrap64_mod)

lemma wrap64_diff_right [wrap_simps]: "wrap64 (a - wrap64 b) = wrap64 (a - b)"
  by (rule wrap64_cong, rule mod_diff_cong) (simp_all add: wrap64_mod)

lemma wrap64_step: "wrap64 (a + wrap64 (x + d) - x) = wrap64 (a + d)"
proof -
  have "wrap64 (a + wrap64 (x + d) - x) = wrap64 (a + (x + d) - x)"
    by (rule wrap64_cong) (intro mod_diff_cong mod_add_cong refl wrap64_mod)
  then show ?thesis
    by simp
qed

lemma wrap64_uminus [wrap_simps]: "wrap64 (- wrap64 a) = wrap64 (- a)"
  using wrap64_diff_right [of 0 a] by simp

text \<open>Go's \<open>/\<close> truncates toward zero, as \<open>sdiv\<close> does.\<close>

lemma sdiv_nonneg: "0 \<le> a \<Longrightarrow> 0 < b \<Longrightarrow> (a::int) sdiv b = a div b"
  by (cases "a = 0") (simp_all add: signed_divide_int_def sgn_if)

section \<open>Strings\<close>

text \<open>
  \<open>strings.TrimSpace\<close>, \<open>strings.ToLower\<close> and \<open>strings.TrimSuffix\<close> on byte strings. The white space
  and the letters are those of ASCII; bytes of multi-byte code points are left alone.
\<close>

definition asciiSpace :: "char \<Rightarrow> bool" where
  "asciiSpace ch \<longleftrightarrow> (let n = (of_char ch :: nat) in n = 9 \<or> n = 10 \<or> n = 11 \<or> n = 12 \<or> n = 13 \<or> n = 32)"

definition TrimLeft :: "string \<Rightarrow> string" where
  "TrimLeft s = dropWhile asciiSpace s"

definition TrimSpace :: "string \<Rightarrow> string" where
  "TrimSpace s = rev (TrimLeft (rev (TrimLeft s)))"

definition lowerChar :: "char \<Rightarrow> char" where
  "lowerChar ch = (let n = (of_char ch :: nat) in if 65 \<le> n \<and> n \<le> 90 then char_of (n + 32) else ch)"

definition ToLower :: "string \<Rightarrow> string" where
  "ToLower s = map lowerChar s"

definition TrimSuffix :: "string \<Rightarrow> string \<Rightarrow> string" where
  "TrimSuffix s suffix =
     (if length suffix \<le> length s \<and> drop (length s - length suffix) s = suffix
      then take (length s - length suffix) s else s)"

lemma dropWhile_idem [simp]: "dropWhile P (dropWhile P xs) = dropWhile P xs"
  by (induction xs) auto

lemma lowerChar_lowerChar [simp]: "lowerChar (lowerChar ch) = lowerChar ch"
  by (simp add: lowerChar_def Let_def)

lemma ToLower_ToLower [simp]: "ToLower (ToLower s) = ToLower s"
  by (simp add: ToLower_def)

section \<open>Maps as association lists\<close>

type_synonym ('k, 'v) gomap = "('k \<times> 'v) list"

abbreviation gm_wf :: "('k, 'v) gomap \<Rightarrow> bool" where
  "gm_wf m \<equiv> distinct (map fst m)"

abbreviation gm_keys :: "('k, 'v) gomap \<Rightarrow> 'k set" where
  "gm_keys m \<equiv> fst ` set m"

definition gm_get :: "('k, 'v) gomap \<Rightarrow> 'k \<Rightarrow> 'v \<Rightarrow> 'v" where
  "gm_get m k d = (case map_of m k of None \<Rightarrow> d | Some v \<Rightarrow> v)"

text \<open>\<open>gm_sum f m\<close> adds \<open>f k v\<close> over the entries of a map.\<close>

definition gm_sum :: "('k \<Rightarrow> 'v \<Rightarrow> int) \<Rightarrow> ('k, 'v) gomap \<Rightarrow> int" where
  "gm_sum f m = (\<Sum>p\<leftarrow>m. f (fst p) (snd p))"

named_theorems gomap_simps \<open>lookup, size and sums after an update or a delete\<close>

declare map_of_eq_Some_iff [simp del] Some_eq_map_of_iff [simp del]

lemma map_of_gm_update [gomap_simps]: "map_of (AList.update k v m) = (map_of m)(k \<mapsto> v)"
  by (rule AList.update_conv')

lemma map_of_gm_delete [gomap_simps]: "map_of (AList.delete k m) = (map_of m)(k := None)"
  by (rule AList.delete_conv')

lemma gm_wf_update [simp, intro]: "gm_wf m \<Longrightarrow> gm_wf (AList.update k v m)"
  by (rule AList.distinct_update)

lemma gm_wf_delete [simp, intro]: "gm_wf m \<Longrightarrow> gm_wf (AList.delete k m)"
  by (rule AList.distinct_delete)

lemma gm_wf_filter [simp, intro]: "gm_wf m \<Longrightarrow> gm_wf (filter P m)"
  by (rule distinct_map_filter)

lemma gm_get_update [gomap_simps]: "gm_get (AList.update k v m) k' d = (if k' = k then v else gm_get m k' d)"
  by (simp add: gm_get_def map_of_gm_update)

lemma gm_get_delete [gomap_simps]: "gm_get (AList.delete k m) k' d = (if k' = k then d else gm_get m k' d)"
  by (simp add: gm_get_def map_of_gm_delete)

lemma gm_get_Nil [simp]: "gm_get [] k d = d"
  by (simp add: gm_get_def)

lemma gm_get_None: "map_of m k = None \<Longrightarrow> gm_get m k d = d"
  by (simp add: gm_get_def)

lemma gm_get_Some: "map_of m k = Some v \<Longrightarrow> gm_get m k d = v"
  by (simp add: gm_get_def)

lemma set_gm_update_subset: "set (AList.update k v m) \<subseteq> insert (k, v) (set m)"
  by (induction m) auto

lemma gm_mem_iff: "gm_wf m \<Longrightarrow> (k, v) \<in> set m \<longleftrightarrow> map_of m k = Some v"
  by (simp add: map_of_eq_Some_iff)

lemma map_of_gm_filter:
  "gm_wf m \<Longrightarrow> map_of (filter (\<lambda>(k, v). P k v) m) k =
     (case map_of m k of None \<Rightarrow> None | Some v \<Rightarrow> if P k v then Some v else None)"
proof (induction m)
  case (Cons p m)
  then show ?case
    by (cases p) (auto simp: map_of_eq_None_iff split: option.splits)
qed simp

lemma find_SomeD: "find P xs = Some x \<Longrightarrow> x \<in> set xs \<and> P x"
  by (induction xs) (auto split: if_splits)

lemma distinct_all_equal:
  "distinct xs \<Longrightarrow> (\<And>x y. x \<in> set xs \<Longrightarrow> y \<in> set xs \<Longrightarrow> x = y) \<Longrightarrow> length xs \<le> 1"
proof (rule ccontr)
  assume "distinct xs" and eq: "\<And>x y. x \<in> set xs \<Longrightarrow> y \<in> set xs \<Longrightarrow> x = y" and "\<not> length xs \<le> 1"
  then obtain a b ys where "xs = a # b # ys"
    by (metis One_nat_def length_Cons le_simps(3) list.exhaust list.size(3) not_less_eq_eq zero_le)
  then show False
    using eq [of a b] \<open>distinct xs\<close> by simp
qed

lemma gm_keysI: "(k, v) \<in> set m \<Longrightarrow> k \<in> gm_keys m"
  by force

lemma gm_sum_Nil [simp]: "gm_sum f [] = 0"
  by (simp add: gm_sum_def)

lemma gm_sum_Cons [simp]: "gm_sum f (p # m) = f (fst p) (snd p) + gm_sum f m"
  by (simp add: gm_sum_def)

lemma gm_sum_append [simp]: "gm_sum f (xs @ ys) = gm_sum f xs + gm_sum f ys"
  by (simp add: gm_sum_def)

lemma gm_delete_absent: "map_of m k = None \<Longrightarrow> AList.delete k m = m"
  by (induction m) (auto simp: AList.delete_eq split: if_splits)

lemma gm_update_absent: "map_of m k = None \<Longrightarrow> AList.update k v m = m @ [(k, v)]"
  by (induction m) (auto split: if_splits)

lemma gm_sum_update:
  "gm_wf m \<Longrightarrow>
   gm_sum f (AList.update k v m) =
     gm_sum f m + f k v - (case map_of m k of None \<Rightarrow> 0 | Some w \<Rightarrow> f k w)"
  by (induction m) (auto simp: map_of_eq_None_iff split: option.splits dest!: map_of_SomeD)

lemma gm_sum_delete:
  "gm_wf m \<Longrightarrow>
   gm_sum f (AList.delete k m) = gm_sum f m - (case map_of m k of None \<Rightarrow> 0 | Some w \<Rightarrow> f k w)"
proof (induction m)
  case Nil
  then show ?case by simp
next
  case (Cons p m)
  show ?case
  proof (cases "fst p = k")
    case True
    then have "map_of m k = None"
      using Cons.prems by (auto simp: map_of_eq_None_iff)
    then have "AList.delete k m = m"
      by (rule gm_delete_absent)
    then show ?thesis
      using True by (cases p) (simp add: AList.delete_eq)
  next
    case False
    then show ?thesis
      using Cons by (auto simp: AList.delete_eq)
  qed
qed

lemmas gm_sum_simps = gm_sum_update gm_sum_delete

lemma length_gm_update: "length (AList.update k v m) = (if k \<in> gm_keys m then length m else Suc (length m))"
  by (induction m) auto

lemma length_gm_delete:
  "gm_wf m \<Longrightarrow> length (AList.delete k m) = (if k \<in> gm_keys m then length m - 1 else length m)"
proof (induction m)
  case Nil
  then show ?case by simp
next
  case (Cons p m)
  show ?case
  proof (cases "fst p = k")
    case True
    then have "map_of m k = None"
      using Cons.prems by (auto simp: map_of_eq_None_iff)
    then have "AList.delete k m = m"
      by (rule gm_delete_absent)
    then show ?thesis
      using True by (cases p) (simp add: AList.delete_eq)
  next
    case False
    then show ?thesis
      using Cons by (cases m) (auto simp: AList.delete_eq)
  qed
qed

lemma gm_keys_update [simp]: "gm_keys (AList.update k v m) = insert k (gm_keys m)"
  by (simp add: AList.dom_update)

lemma gm_keys_delete [simp]: "gm_keys (AList.delete k m) = gm_keys m - {k}"
  by (auto simp: AList.delete_eq)

lemma gm_sum_set: "gm_wf m \<Longrightarrow> gm_sum f m = (\<Sum>k\<in>gm_keys m. f k (the (map_of m k)))"
proof (induction m)
  case (Cons p m)
  have "fst p \<notin> gm_keys m"
    using Cons.prems by simp
  then have "(\<Sum>k\<in>gm_keys m. f k (the (map_of (p # m) k))) = (\<Sum>k\<in>gm_keys m. f k (the (map_of m k)))"
    by (intro sum.cong refl arg_cong [of _ _ "f _"] arg_cong [of _ _ the]) (auto dest: gm_keysI)
  then show ?case
    using Cons by simp
qed simp

lemma gm_sum_nonneg: "(\<And>k v. (k, v) \<in> set m \<Longrightarrow> 0 \<le> f k v) \<Longrightarrow> 0 \<le> gm_sum f m"
  by (induction m) (auto simp: add_nonneg_nonneg)

lemma gm_sum_cong:
  "(\<And>k v. (k, v) \<in> set m \<Longrightarrow> f k v = g k v) \<Longrightarrow> gm_sum f m = gm_sum g m"
  by (induction m) auto

lemma gm_sum_add: "gm_sum (\<lambda>k v. f k v + g k v) m = gm_sum f m + gm_sum g m"
  by (induction m) auto

lemma gm_sum_zero: "(\<And>k v. (k, v) \<in> set m \<Longrightarrow> f k v = 0) \<Longrightarrow> gm_sum f m = 0"
  by (induction m) auto

lemma gm_sum_le:
  "(\<And>k v. (k, v) \<in> set m \<Longrightarrow> f k v \<le> g k v) \<Longrightarrow> gm_sum f m \<le> gm_sum g m"
  by (induction m) (auto intro: add_mono)

section \<open>Machines driven by operations\<close>

text \<open>
  A component is a state and a function that performs one operation on it; a run is a
  \<^term>\<open>fold\<close> over the operations in the order in which they take effect, so a theorem over all
  operation lists covers every interleaving of the callers.
\<close>

locale state_machine =
  fixes step :: "'op \<Rightarrow> 's \<Rightarrow> 's" and inv :: "'s \<Rightarrow> bool"
  assumes inv_step: "inv s \<Longrightarrow> inv (step op s)"
begin

lemma inv_run: "inv s \<Longrightarrow> inv (fold step ops s)"
  by (induction ops arbitrary: s) (auto intro: inv_step)

end

text \<open>Operations whose arguments the environment guarantees something about.\<close>

locale guarded_machine =
  fixes step :: "'op \<Rightarrow> 's \<Rightarrow> 's" and inv :: "'s \<Rightarrow> bool" and ok :: "'op \<Rightarrow> bool"
  assumes inv_ok_step: "ok op \<Longrightarrow> inv s \<Longrightarrow> inv (step op s)"
begin

lemma inv_ok_run: "list_all ok ops \<Longrightarrow> inv s \<Longrightarrow> inv (fold step ops s)"
  by (induction ops arbitrary: s) (auto intro: inv_ok_step)

end

text \<open>Operations that the environment issues only in some states: every operation of the run is enabled when its turn comes.\<close>

primrec enabled_run :: "('op \<Rightarrow> 's \<Rightarrow> 's) \<Rightarrow> ('op \<Rightarrow> 's \<Rightarrow> bool) \<Rightarrow> 'op list \<Rightarrow> 's \<Rightarrow> bool" where
  "enabled_run step enabled [] s \<longleftrightarrow> True"
| "enabled_run step enabled (op # ops) s \<longleftrightarrow> enabled op s \<and> enabled_run step enabled ops (step op s)"

locale enabled_machine =
  fixes step :: "'op \<Rightarrow> 's \<Rightarrow> 's" and inv :: "'s \<Rightarrow> bool" and enabled :: "'op \<Rightarrow> 's \<Rightarrow> bool"
  assumes inv_enabled_step: "enabled op s \<Longrightarrow> inv s \<Longrightarrow> inv (step op s)"
begin

lemma inv_enabled_run: "enabled_run step enabled ops s \<Longrightarrow> inv s \<Longrightarrow> inv (fold step ops s)"
  by (induction ops arbitrary: s) (auto intro: inv_enabled_step)

end

sublocale guarded_machine \<subseteq> always: enabled_machine step inv "\<lambda>op _. ok op"
  by unfold_locales (rule inv_ok_step)

sublocale state_machine \<subseteq> unguarded: guarded_machine step inv "\<lambda>_. True"
  by unfold_locales (rule inv_step)

locale metered_machine = state_machine step inv
  for step :: "'op \<Rightarrow> 's \<Rightarrow> 's" and inv :: "'s \<Rightarrow> bool" +
  fixes level :: "'s \<Rightarrow> int" and gain :: "'op \<Rightarrow> 's \<Rightarrow> int"
  assumes level_step: "inv s \<Longrightarrow> wrap64 (level (step op s)) = wrap64 (level s + gain op s)"
begin

primrec gains :: "'op list \<Rightarrow> 's \<Rightarrow> int" where
  "gains [] s = 0"
| "gains (op # ops) s = gain op s + gains ops (step op s)"

lemma level_run: "inv s \<Longrightarrow> wrap64 (level (fold step ops s)) = wrap64 (level s + gains ops s)"
proof (induction ops arbitrary: s)
  case Nil
  then show ?case by simp
next
  case (Cons op ops)
  have "wrap64 (level (fold step (op # ops) s)) = wrap64 (level (step op s) + gains ops (step op s))"
    using Cons by (simp add: inv_step)
  also have "\<dots> = wrap64 (wrap64 (level (step op s)) + gains ops (step op s))"
    by (simp add: wrap_simps)
  also have "\<dots> = wrap64 (level s + gain op s + gains ops (step op s))"
    using Cons.prems by (simp add: level_step wrap_simps)
  finally show ?case
    by (simp add: add.assoc)
qed

end

locale refinement = state_machine cstep inv
  for cstep :: "'op \<Rightarrow> 's \<Rightarrow> 's" and inv :: "'s \<Rightarrow> bool" +
  fixes abs :: "'s \<Rightarrow> 'a" and astep :: "'op \<Rightarrow> 'a \<Rightarrow> 'a"
  assumes simulates: "inv s \<Longrightarrow> abs (cstep op s) = astep op (abs s)"
begin

lemma run_refines: "inv s \<Longrightarrow> abs (fold cstep ops s) = fold astep ops (abs s)"
  by (induction ops arbitrary: s) (auto simp: simulates inv_step)

end

end
