(* ===== verification/Tenant_Model.thy ===== *)
theory Tenant_Model
  imports Prelude
begin

text \<open>
  The rows of the tenant tables (\<open>internal/model/user.go\<close>) that the components of the
  development read and write, with the source's field names behind a prefix for the struct,
  and the error values of \<open>internal/state\<close>. A nullable string column is the empty string, as
  in the Go structs. \<open>[]byte\<close> values are HOL strings (lists of bytes).
\<close>

datatype error = ErrNotFound | ErrConflict | ErrInsufficientBalance | ErrOther string

text \<open>
  A call on a store: the error or the value it answers, and the state it leaves. A call that
  answers an error inside a transaction leaves the state it found.
\<close>

type_synonym ('a, 's) call = "(error + 'a) \<times> 's"

abbreviation SubscriptionStatusActive :: string where
  "SubscriptionStatusActive \<equiv> ''active''"

abbreviation SubscriptionStatusExpired :: string where
  "SubscriptionStatusExpired \<equiv> ''expired''"

abbreviation SubscriptionStatusSuspended :: string where
  "SubscriptionStatusSuspended \<equiv> ''suspended''"

abbreviation KeyStatusActive :: string where
  "KeyStatusActive \<equiv> ''active''"

abbreviation UserStatusActive :: string where
  "UserStatusActive \<equiv> ''active''"

abbreviation KeyScopeProxy :: string where
  "KeyScopeProxy \<equiv> ''proxy''"

record Plan =
  p_ID :: string
  p_Name :: string
  p_Platforms :: "string list"
  p_IPTiers :: "string list"
  p_TrafficBytes :: int
  p_Period :: string
  p_MaxConcurrent :: int
  p_MaxRPS :: int
  p_MaxBandwidthBps :: int
  p_MaxKeys :: int
  p_DurationDays :: int
  p_PriceMicro :: int
  p_Status :: string

record UserSubscription =
  s_ID :: string
  s_UserID :: string
  s_PlanID :: string
  s_PlanSnapshotJSON :: string
  s_StartsAtNs :: int
  s_ExpiresAtNs :: int
  s_PeriodStartNs :: int
  s_PeriodUsedBytes :: int
  s_AutoRenew :: bool
  s_PeriodIndex :: int
  s_Status :: string

record AccessKey =
  ak_ID :: string
  ak_UserID :: string
  ak_Name :: string
  ak_SecretHash :: string
  ak_Platforms :: "string list"
  ak_IPAllowlist :: "string list"
  ak_Scope :: string
  ak_Status :: string
  ak_ExpiresAtNs :: int
  ak_LastUsedNs :: int
  ak_CreatedAtNs :: int

record UsageRow =
  ur_KeyID :: string
  ur_UserID :: string
  ur_PlatformID :: string
  ur_TSNs :: int
  ur_IngressBytes :: int
  ur_EgressBytes :: int
  ur_Requests :: int
  ur_Errors :: int

text \<open>The four counted quantities of a usage row.\<close>

datatype dfield = FIngress | FEgress | FRequests | FErrors

fun ufield :: "dfield \<Rightarrow> UsageRow \<Rightarrow> int" where
  "ufield FIngress row = ur_IngressBytes row"
| "ufield FEgress row = ur_EgressBytes row"
| "ufield FRequests row = ur_Requests row"
| "ufield FErrors row = ur_Errors row"

record BalanceEntry =
  be_ID :: string
  be_UserID :: string
  be_DeltaMicro :: int
  be_BalanceAfterMicro :: int
  be_Reason :: string
  be_RefID :: string
  be_RequestID :: string
  be_Note :: string
  be_Actor :: string
  be_CreatedAtNs :: int

record RedeemCode =
  rc_ID :: string
  rc_CodeHash :: string
  rc_CodeHint :: string
  rc_AmountMicro :: int
  rc_MaxUses :: int
  rc_UsedCount :: int
  rc_ExpiresAtNs :: int
  rc_Note :: string
  rc_Status :: string
  rc_CreatedBy :: string
  rc_CreatedAtNs :: int
  rc_UpdatedAtNs :: int

record DepositIntent =
  di_ID :: string
  di_UserID :: string
  di_AmountMicro :: int
  di_Status :: string
  di_TxID :: string
  di_CreatedAtNs :: int
  di_ExpiresAtNs :: int
  di_HoldUntilNs :: int
  di_PaidAtNs :: int

text \<open>An active subscription used where a statement is evaluated on a concrete row.\<close>

definition exampleSubscription :: "string \<Rightarrow> string \<Rightarrow> int \<Rightarrow> UserSubscription" where
  "exampleSubscription i user used = \<lparr>s_ID = i, s_UserID = user, s_PlanID = ''p1'',
     s_PlanSnapshotJSON = ''{}'', s_StartsAtNs = 1, s_ExpiresAtNs = 0, s_PeriodStartNs = 1,
     s_PeriodUsedBytes = used, s_AutoRenew = False, s_PeriodIndex = 0, s_Status = ''active''\<rparr>"

end
