(* ===== verification/Counters.thy ===== *)
theory Counters
  imports Tenant_Model
begin

text \<open>
  The in-memory usage counters of \<open>internal/usage/counters.go\<close> and the seeding of
  \<open>internal/usage/flush.go\<close>.

  The four \<open>xsync.Map\<close>s are association lists. A \<open>*atomic.Int64\<close> stored in one of them is its
  value; the pointer \<open>keyCounter.bytes\<close> into \<open>keyBytes\<close> is the key it points to (\<open>keyBytes\<close> never
  drops or replaces an entry, so the two denote the same cell). \<open>addToBuckets\<close> and \<open>drainOne\<close> are
  each the body of one \<open>Compute\<close>, which \<open>xsync\<close> runs under the bucket lock, so each is one step;
  a list of operations is an interleaving of the callers' steps. The nil receiver checks have no
  counterpart.
\<close>

section \<open>Data\<close>

record Delta =
  IngressBytes :: int
  EgressBytes :: int
  Requests :: int
  Errors :: int

definition zeroDelta :: Delta where
  "zeroDelta = \<lparr>IngressBytes = 0, EgressBytes = 0, Requests = 0, Errors = 0\<rparr>"

definition Total :: "Delta \<Rightarrow> int" where
  "Total d = wrap64 (IngressBytes d + EgressBytes d)"

record CounterKey =
  ck_KeyID :: string
  ck_UserID :: string
  ck_PlatformID :: string

record keyCounter =
  kc_ingress :: int
  kc_egress :: int
  kc_requests :: int
  kc_errors :: int
  kc_bytes :: "string option"

record Counters =
  c_entries :: "(CounterKey, keyCounter) gomap"
  c_users :: "(string, int) gomap"
  c_persisted :: "(string, int) gomap"
  c_keyBytes :: "(string, int) gomap"

definition NewCounters :: Counters where
  "NewCounters = \<lparr>c_entries = [], c_users = [], c_persisted = [], c_keyBytes = []\<rparr>"

section \<open>Operations\<close>

text \<open>\<open>LoadOrCompute\<close> with a fresh \<open>atomic.Int64\<close>, and \<open>Add\<close> on the value it returns.\<close>

definition LoadOrCompute :: "(string, int) gomap \<Rightarrow> string \<Rightarrow> (string, int) gomap" where
  "LoadOrCompute m k = (case map_of m k of None \<Rightarrow> AList.update k 0 m | Some _ \<Rightarrow> m)"

definition atomicAdd :: "(string, int) gomap \<Rightarrow> string \<Rightarrow> int \<Rightarrow> (string, int) gomap" where
  "atomicAdd m k d = AList.update k (wrap64 (gm_get m k 0 + d)) m"

definition keyTotalFor :: "Counters \<Rightarrow> string \<Rightarrow> string option \<times> Counters" where
  "keyTotalFor c keyID =
     (if keyID = '''' then (None, c)
      else (Some keyID, c\<lparr>c_keyBytes := LoadOrCompute (c_keyBytes c) keyID\<rparr>))"

definition addDelta :: "keyCounter \<Rightarrow> Delta \<Rightarrow> keyCounter" where
  "addDelta counter d = counter\<lparr>
     kc_ingress := wrap64 (kc_ingress counter + IngressBytes d),
     kc_egress := wrap64 (kc_egress counter + EgressBytes d),
     kc_requests := wrap64 (kc_requests counter + Requests d),
     kc_errors := wrap64 (kc_errors counter + Errors d)\<rparr>"

definition addToBuckets :: "CounterKey \<Rightarrow> Delta \<Rightarrow> Counters \<Rightarrow> Counters" where
  "addToBuckets key d c =
     (let (counter, c1) =
        (case map_of (c_entries c) key of
           Some counter \<Rightarrow> (counter, c)
         | None \<Rightarrow>
             (let (b, c1) = keyTotalFor c (ck_KeyID key)
              in (\<lparr>kc_ingress = 0, kc_egress = 0, kc_requests = 0, kc_errors = 0, kc_bytes = b\<rparr>, c1)));
          c2 = c1\<lparr>c_entries := AList.update key (addDelta counter d) (c_entries c1)\<rparr>
      in case kc_bytes counter of
           Some b \<Rightarrow> if Total d \<noteq> 0 then c2\<lparr>c_keyBytes := atomicAdd (c_keyBytes c2) b (Total d)\<rparr> else c2
         | None \<Rightarrow> c2)"

definition Add :: "CounterKey \<Rightarrow> Delta \<Rightarrow> Counters \<Rightarrow> Counters" where
  "Add key d c =
     (if d = zeroDelta then c
      else let c1 = addToBuckets key d c
           in if Total d \<noteq> 0 \<and> ck_UserID key \<noteq> ''''
              then c1\<lparr>c_users := atomicAdd (c_users c1) (ck_UserID key) (Total d)\<rparr>
              else c1)"

fun Requeue :: "(CounterKey, Delta) gomap \<Rightarrow> Counters \<Rightarrow> Counters" where
  "Requeue [] c = c"
| "Requeue ((key, d) # drained) c =
     (if d = zeroDelta then Requeue drained c else Requeue drained (addToBuckets key d c))"

definition KeyTotal :: "Counters \<Rightarrow> string \<Rightarrow> int" where
  "KeyTotal c keyID = (if keyID = '''' then 0 else gm_get (c_keyBytes c) keyID 0)"

definition counterDelta :: "keyCounter \<Rightarrow> Delta" where
  "counterDelta counter = \<lparr>IngressBytes = kc_ingress counter, EgressBytes = kc_egress counter,
     Requests = kc_requests counter, Errors = kc_errors counter\<rparr>"

definition KeyBytes :: "Counters \<Rightarrow> CounterKey \<Rightarrow> Delta" where
  "KeyBytes c key =
     (case map_of (c_entries c) key of None \<Rightarrow> zeroDelta | Some counter \<Rightarrow> counterDelta counter)"

definition UserBytes :: "Counters \<Rightarrow> string \<Rightarrow> int" where
  "UserBytes c userID = (if userID = '''' then 0 else gm_get (c_users c) userID 0)"

definition UserBytesPresent :: "Counters \<Rightarrow> string \<Rightarrow> int \<times> bool" where
  "UserBytesPresent c userID =
     (if userID = '''' then (0, False)
      else case map_of (c_users c) userID of None \<Rightarrow> (0, False) | Some t \<Rightarrow> (t, True))"

text \<open>\<open>persistedFor\<close> creates the mark; its value is what \<open>gm_get\<close> reads.\<close>

definition persistedFor :: "Counters \<Rightarrow> string \<Rightarrow> Counters" where
  "persistedFor c userID = c\<lparr>c_persisted := LoadOrCompute (c_persisted c) userID\<rparr>"

definition MarkPersisted :: "string \<Rightarrow> int \<Rightarrow> Counters \<Rightarrow> Counters" where
  "MarkPersisted userID bytes c =
     (if bytes = 0 then c
      else if userID = '''' then c
      else let c1 = persistedFor c userID
           in c1\<lparr>c_persisted := atomicAdd (c_persisted c1) userID bytes\<rparr>)"

definition PersistedBytes :: "Counters \<Rightarrow> string \<Rightarrow> int \<times> bool" where
  "PersistedBytes c userID =
     (if userID = '''' then (0, False)
      else case map_of (c_persisted c) userID of None \<Rightarrow> (0, False) | Some t \<Rightarrow> (t, True))"

definition drainOne :: "CounterKey \<Rightarrow> Counters \<Rightarrow> Delta \<times> Counters" where
  "drainOne key c =
     (case map_of (c_entries c) key of
        None \<Rightarrow> (zeroDelta, c)
      | Some counter \<Rightarrow>
          (let d = counterDelta counter;
               c1 = (case kc_bytes counter of
                       None \<Rightarrow> c
                     | Some b \<Rightarrow> c\<lparr>c_keyBytes := atomicAdd (c_keyBytes c) b (- Total d)\<rparr>)
           in (d, c1\<lparr>c_entries := AList.delete key (c_entries c1)\<rparr>)))"

fun drainLoop :: "CounterKey list \<Rightarrow> (CounterKey, Delta) gomap \<Rightarrow> Counters \<Rightarrow> (CounterKey, Delta) gomap \<times> Counters" where
  "drainLoop [] drained c = (drained, c)"
| "drainLoop (key # keys) drained c =
     (let (d, c1) = drainOne key c
      in drainLoop keys (if d \<noteq> zeroDelta then AList.update key d drained else drained) c1)"

definition Drain :: "CounterKey list \<Rightarrow> Counters \<Rightarrow> (CounterKey, Delta) gomap \<times> Counters" where
  "Drain keys c = drainLoop keys [] c"

definition Keys :: "Counters \<Rightarrow> CounterKey list" where
  "Keys c = map fst (c_entries c)"

definition Size :: "Counters \<Rightarrow> nat" where
  "Size c = length (c_entries c)"

definition storeIfPresent :: "(string, int) gomap \<Rightarrow> string \<Rightarrow> int \<Rightarrow> (string, int) gomap" where
  "storeIfPresent m k v = (case map_of m k of None \<Rightarrow> m | Some _ \<Rightarrow> AList.update k v m)"

definition ResetUser :: "string \<Rightarrow> Counters \<Rightarrow> Counters" where
  "ResetUser userID c =
     (if userID = '''' then c
      else c\<lparr>c_users := storeIfPresent (c_users c) userID 0,
             c_persisted := storeIfPresent (c_persisted c) userID 0\<rparr>)"

definition LoadUser :: "string \<Rightarrow> int \<Rightarrow> Counters \<Rightarrow> Counters" where
  "LoadUser userID bytes c =
     (if userID = '''' then c
      else c\<lparr>c_users := AList.update userID bytes (c_users c),
             c_persisted := AList.update userID bytes (c_persisted c)\<rparr>)"

text \<open>Which rows a seed considers (the \<open>continue\<close>s at the top of the loop).\<close>

definition seedable :: "int \<Rightarrow> UserSubscription \<Rightarrow> bool" where
  "seedable nowNs s \<longleftrightarrow>
     \<not> (s_UserID s = '''' \<or> s_PeriodUsedBytes s \<le> 0) \<and>
     s_Status s = SubscriptionStatusActive \<and>
     \<not> (s_ExpiresAtNs s > 0 \<and> nowNs > 0 \<and> s_ExpiresAtNs s < nowNs)"

definition seedOne :: "UserSubscription \<Rightarrow> nat \<times> Counters \<Rightarrow> nat \<times> Counters" where
  "seedOne s nc =
     (let (seeded, c) = nc;
          c1 = persistedFor c (s_UserID s);
          restore = wrap64 (s_PeriodUsedBytes s - gm_get (c_persisted c1) (s_UserID s) 0);
          (seeded2, c2) =
            (if restore > 0
             then (seeded + 1, c1\<lparr>c_users := atomicAdd (c_users c1) (s_UserID s) restore\<rparr>)
             else (seeded, c1))
      in (seeded2, c2\<lparr>c_persisted := AList.update (s_UserID s) (s_PeriodUsedBytes s) (c_persisted c2)\<rparr>))"

fun seedLoop :: "int \<Rightarrow> UserSubscription list \<Rightarrow> nat \<times> Counters \<Rightarrow> nat \<times> Counters" where
  "seedLoop nowNs [] nc = nc"
| "seedLoop nowNs (s # subs) nc =
     (if seedable nowNs s then seedLoop nowNs subs (seedOne s nc) else seedLoop nowNs subs nc)"

definition SeedFromSubscriptions :: "UserSubscription list \<Rightarrow> int \<Rightarrow> Counters \<Rightarrow> nat \<times> Counters" where
  "SeedFromSubscriptions subs nowNs c = seedLoop nowNs subs (0, c)"

section \<open>Runs\<close>

datatype counters_op =
    OpAdd CounterKey Delta
  | OpDrain "CounterKey list"
  | OpRequeue "(CounterKey, Delta) gomap"
  | OpMarkPersisted string int
  | OpResetUser string
  | OpLoadUser string int
  | OpSeed "UserSubscription list" int

fun counters_step :: "counters_op \<Rightarrow> Counters \<Rightarrow> Counters" where
  "counters_step (OpAdd key d) c = Add key d c"
| "counters_step (OpDrain keys) c = snd (Drain keys c)"
| "counters_step (OpRequeue drained) c = Requeue drained c"
| "counters_step (OpMarkPersisted userID bytes) c = MarkPersisted userID bytes c"
| "counters_step (OpResetUser userID) c = ResetUser userID c"
| "counters_step (OpLoadUser userID bytes) c = LoadUser userID bytes c"
| "counters_step (OpSeed subs nowNs) c = snd (SeedFromSubscriptions subs nowNs c)"

section \<open>The buckets as a function of the key\<close>

definition dadd :: "Delta \<Rightarrow> Delta \<Rightarrow> Delta" where
  "dadd a b = \<lparr>IngressBytes = wrap64 (IngressBytes a + IngressBytes b),
               EgressBytes = wrap64 (EgressBytes a + EgressBytes b),
               Requests = wrap64 (Requests a + Requests b),
               Errors = wrap64 (Errors a + Errors b)\<rparr>"

definition delta64 :: "Delta \<Rightarrow> bool" where
  "delta64 d \<longleftrightarrow> in64 (IngressBytes d) \<and> in64 (EgressBytes d) \<and> in64 (Requests d) \<and> in64 (Errors d)"

definition freshCounter :: "CounterKey \<Rightarrow> keyCounter" where
  "freshCounter key = \<lparr>kc_ingress = 0, kc_egress = 0, kc_requests = 0, kc_errors = 0,
     kc_bytes = (if ck_KeyID key = '''' then None else Some (ck_KeyID key))\<rparr>"

lemma delta64_zero [simp]: "delta64 zeroDelta"
  by (simp add: delta64_def zeroDelta_def in64_def)

lemma delta64_dadd [simp]: "delta64 (dadd a b)"
  by (simp add: delta64_def dadd_def)

lemma dadd_zero [simp]: "delta64 a \<Longrightarrow> dadd a zeroDelta = a"
  by (simp add: dadd_def delta64_def zeroDelta_def)

lemma zero_dadd [simp]: "delta64 a \<Longrightarrow> dadd zeroDelta a = a"
  by (simp add: dadd_def delta64_def zeroDelta_def)

lemma counterDelta_addDelta [simp]: "counterDelta (addDelta counter d) = dadd (counterDelta counter) d"
  by (simp add: counterDelta_def addDelta_def dadd_def)

lemma counterDelta_fresh [simp]: "counterDelta (freshCounter key) = zeroDelta"
  by (simp add: counterDelta_def freshCounter_def zeroDelta_def)

lemma kc_bytes_addDelta [simp]: "kc_bytes (addDelta counter d) = kc_bytes counter"
  by (simp add: addDelta_def)

lemma kc_bytes_fresh: "kc_bytes (freshCounter key) = (if ck_KeyID key = '''' then None else Some (ck_KeyID key))"
  by (simp add: freshCounter_def)

lemma addToBuckets_entries [simp]:
  "c_entries (addToBuckets key d c) =
     AList.update key (addDelta (gm_get (c_entries c) key (freshCounter key)) d) (c_entries c)"
  by (simp add: addToBuckets_def keyTotalFor_def Let_def gm_get_def freshCounter_def split: option.splits)

lemma addToBuckets_users [simp]: "c_users (addToBuckets key d c) = c_users c"
  by (simp add: addToBuckets_def keyTotalFor_def Let_def split: option.splits)

lemma addToBuckets_persisted [simp]: "c_persisted (addToBuckets key d c) = c_persisted c"
  by (simp add: addToBuckets_def keyTotalFor_def Let_def split: option.splits)

lemma Add_entries:
  "c_entries (Add key d c) = (if d = zeroDelta then c_entries c else c_entries (addToBuckets key d c))"
  by (simp add: Add_def Let_def)

lemma Add_keyBytes:
  "c_keyBytes (Add key d c) = (if d = zeroDelta then c_keyBytes c else c_keyBytes (addToBuckets key d c))"
  by (simp add: Add_def Let_def)

lemma KeyBytes_addToBuckets:
  "KeyBytes (addToBuckets key d c) = (KeyBytes c)(key := dadd (KeyBytes c key) d)"
  by (rule ext) (simp add: KeyBytes_def gm_get_def gomap_simps split: option.splits)

lemma drainOne_fst [simp]: "fst (drainOne key c) = KeyBytes c key"
  by (simp add: drainOne_def KeyBytes_def Let_def split: option.splits)

lemma drainOne_entries [simp]: "c_entries (snd (drainOne key c)) = AList.delete key (c_entries c)"
  by (simp add: drainOne_def Let_def gm_delete_absent split: option.splits)

lemma drainOne_users [simp]: "c_users (snd (drainOne key c)) = c_users c"
  by (simp add: drainOne_def Let_def split: option.splits)

lemma drainOne_persisted [simp]: "c_persisted (snd (drainOne key c)) = c_persisted c"
  by (simp add: drainOne_def Let_def split: option.splits)

lemma KeyBytes_drainOne: "KeyBytes (snd (drainOne key c)) = (KeyBytes c)(key := zeroDelta)"
  by (rule ext) (simp add: KeyBytes_def gomap_simps)

text \<open>Operations that only write the user aggregates leave the buckets alone.\<close>

lemma seedOne_buckets [simp]:
  "c_entries (snd (seedOne s nc)) = c_entries (snd nc)"
  "c_keyBytes (snd (seedOne s nc)) = c_keyBytes (snd nc)"
  by (auto simp: seedOne_def persistedFor_def Let_def split: prod.splits)

lemma seedLoop_buckets [simp]:
  "c_entries (snd (seedLoop nowNs subs nc)) = c_entries (snd nc)"
  "c_keyBytes (snd (seedLoop nowNs subs nc)) = c_keyBytes (snd nc)"
  by (induction nowNs subs nc rule: seedLoop.induct) auto

lemma MarkPersisted_buckets [simp]:
  "c_entries (MarkPersisted u b c) = c_entries c"
  "c_keyBytes (MarkPersisted u b c) = c_keyBytes c"
  "c_users (MarkPersisted u b c) = c_users c"
  by (simp_all add: MarkPersisted_def persistedFor_def Let_def)

lemma ResetUser_buckets [simp]:
  "c_entries (ResetUser u c) = c_entries c" "c_keyBytes (ResetUser u c) = c_keyBytes c"
  by (simp_all add: ResetUser_def)

lemma LoadUser_buckets [simp]:
  "c_entries (LoadUser u b c) = c_entries c" "c_keyBytes (LoadUser u b c) = c_keyBytes c"
  by (simp_all add: LoadUser_def)

lemma KeyBytes_cong: "c_entries c = c_entries c' \<Longrightarrow> KeyBytes c = KeyBytes c'"
  by (rule ext) (simp add: KeyBytes_def)

section \<open>The invariant\<close>

text \<open>
  Every counter points at the total of its own key, all stored values are in range, and the total
  of a key is the (wrapped) sum of the byte counts of its buckets.
\<close>

definition bucket_sum :: "string \<Rightarrow> (CounterKey, keyCounter) gomap \<Rightarrow> int" where
  "bucket_sum keyID es =
     gm_sum (\<lambda>k kc. if ck_KeyID k = keyID then kc_ingress kc + kc_egress kc else 0) es"

definition counter_ok :: "CounterKey \<Rightarrow> keyCounter \<Rightarrow> bool" where
  "counter_ok k kc \<longleftrightarrow> kc_bytes kc = kc_bytes (freshCounter k) \<and> delta64 (counterDelta kc)"

definition counters_inv :: "Counters \<Rightarrow> bool" where
  "counters_inv c \<longleftrightarrow>
     gm_wf (c_entries c) \<and> gm_wf (c_users c) \<and> gm_wf (c_persisted c) \<and> gm_wf (c_keyBytes c) \<and>
     (\<forall>k kc. map_of (c_entries c) k = Some kc \<longrightarrow> counter_ok k kc) \<and>
     (\<forall>id. id \<noteq> '''' \<longrightarrow> gm_get (c_keyBytes c) id 0 = wrap64 (bucket_sum id (c_entries c)))"

lemma counters_invI:
  assumes "gm_wf (c_entries c)" "gm_wf (c_users c)" "gm_wf (c_persisted c)" "gm_wf (c_keyBytes c)"
    and "\<And>k kc. map_of (c_entries c) k = Some kc \<Longrightarrow> counter_ok k kc"
    and "\<And>id. id \<noteq> '''' \<Longrightarrow> gm_get (c_keyBytes c) id 0 = wrap64 (bucket_sum id (c_entries c))"
  shows "counters_inv c"
  using assms by (simp add: counters_inv_def)

lemma counters_invD:
  assumes "counters_inv c"
  shows "gm_wf (c_entries c)" "gm_wf (c_users c)" "gm_wf (c_persisted c)" "gm_wf (c_keyBytes c)"
    and "\<And>k kc. map_of (c_entries c) k = Some kc \<Longrightarrow> counter_ok k kc"
    and "\<And>id. id \<noteq> '''' \<Longrightarrow> gm_get (c_keyBytes c) id 0 = wrap64 (bucket_sum id (c_entries c))"
  using assms by (simp_all add: counters_inv_def)

lemma counters_inv_New: "counters_inv NewCounters"
  by (simp add: counters_inv_def NewCounters_def bucket_sum_def)

lemma counter_ok_fresh [simp]: "counter_ok k (freshCounter k)"
  by (simp add: counter_ok_def)

lemma counter_ok_get: "counters_inv c \<Longrightarrow> counter_ok k (gm_get (c_entries c) k (freshCounter k))"
  by (auto simp: gm_get_def split: option.splits dest: counters_invD(5))

lemma counter_ok_addDelta [simp]: "counter_ok k kc \<Longrightarrow> counter_ok k (addDelta kc d)"
  by (simp add: counter_ok_def)

lemma delta64_KeyBytes: "counters_inv c \<Longrightarrow> delta64 (KeyBytes c k)"
  by (auto simp: KeyBytes_def counter_ok_def split: option.splits dest: counters_invD(5))

lemma gm_get_LoadOrCompute [simp]: "gm_get (LoadOrCompute m k) k' 0 = gm_get m k' 0"
  by (auto simp: LoadOrCompute_def gm_get_def gomap_simps split: option.splits)

lemma gm_wf_LoadOrCompute [simp, intro]: "gm_wf m \<Longrightarrow> gm_wf (LoadOrCompute m k)"
  by (auto simp: LoadOrCompute_def split: option.splits)

lemma gm_get_atomicAdd [simp]:
  "gm_get (atomicAdd m k d) k' 0 = (if k' = k then wrap64 (gm_get m k 0 + d) else gm_get m k' 0)"
  by (simp add: atomicAdd_def gomap_simps)

lemma gm_wf_atomicAdd [simp, intro]: "gm_wf m \<Longrightarrow> gm_wf (atomicAdd m k d)"
  by (simp add: atomicAdd_def)

lemma gm_wf_storeIfPresent [simp, intro]: "gm_wf m \<Longrightarrow> gm_wf (storeIfPresent m k v)"
  by (auto simp: storeIfPresent_def split: option.splits)

lemma addToBuckets_keyBytes:
  assumes "counters_inv c" "i \<noteq> ''''"
  shows "gm_get (c_keyBytes (addToBuckets key d c)) i 0 =
    (if i = ck_KeyID key then wrap64 (gm_get (c_keyBytes c) i 0 + Total d) else gm_get (c_keyBytes c) i 0)"
proof -
  have ref: "kc_bytes (gm_get (c_entries c) key (freshCounter key)) = kc_bytes (freshCounter key)"
    using counter_ok_get [OF assms(1), of key] by (simp add: counter_ok_def)
  have "wrap64 (gm_get (c_keyBytes c) i 0) = gm_get (c_keyBytes c) i 0"
    using counters_invD(6) [OF assms] by simp
  then show ?thesis
    using ref assms(2)
    by (auto simp: addToBuckets_def keyTotalFor_def Let_def kc_bytes_fresh gm_get_def [of "c_entries c"]
        split: option.splits)
qed

lemma bucket_sum_update:
  "gm_wf es \<Longrightarrow> bucket_sum i (AList.update k kc es) =
     (if ck_KeyID k = i
      then bucket_sum i es + (kc_ingress kc + kc_egress kc)
        - (case map_of es k of None \<Rightarrow> 0 | Some w \<Rightarrow> kc_ingress w + kc_egress w)
      else bucket_sum i es)"
  by (simp add: bucket_sum_def gm_sum_update split: option.splits)

lemma bucket_sum_delete:
  "gm_wf es \<Longrightarrow> bucket_sum i (AList.delete k es) =
     (if ck_KeyID k = i
      then bucket_sum i es - (case map_of es k of None \<Rightarrow> 0 | Some w \<Rightarrow> kc_ingress w + kc_egress w)
      else bucket_sum i es)"
  by (simp add: bucket_sum_def gm_sum_delete split: option.splits)

lemma gm_wf_keyBytes_addToBuckets [simp, intro]:
  "gm_wf (c_keyBytes c) \<Longrightarrow> gm_wf (c_keyBytes (addToBuckets key d c))"
  by (auto simp: addToBuckets_def keyTotalFor_def Let_def split: option.splits)

lemma bucket_sum_addToBuckets:
  assumes "gm_wf (c_entries c)"
  shows "wrap64 (bucket_sum i (c_entries (addToBuckets key d c))) =
    (if ck_KeyID key = i then wrap64 (bucket_sum i (c_entries c) + Total d)
     else wrap64 (bucket_sum i (c_entries c)))"
proof (cases "ck_KeyID key = i")
  case True
  define kc where "kc = gm_get (c_entries c) key (freshCounter key)"
  have old: "(case map_of (c_entries c) key of None \<Rightarrow> 0 | Some w \<Rightarrow> kc_ingress w + kc_egress w)
      = kc_ingress kc + kc_egress kc"
    by (simp add: kc_def gm_get_def freshCounter_def split: option.splits)
  have "wrap64 (bucket_sum i (c_entries (addToBuckets key d c))) =
      wrap64 (bucket_sum i (c_entries c) +
        (wrap64 (kc_ingress kc + IngressBytes d) + wrap64 (kc_egress kc + EgressBytes d))
        - (kc_ingress kc + kc_egress kc))"
    using True by (simp add: bucket_sum_update [OF assms] old kc_def [symmetric] addDelta_def)
  also have "\<dots> = wrap64 (bucket_sum i (c_entries c) +
        ((kc_ingress kc + IngressBytes d) + (kc_egress kc + EgressBytes d))
        - (kc_ingress kc + kc_egress kc))"
    by (rule wrap64_cong) (intro mod_add_cong mod_diff_cong refl wrap64_mod)
  also have "\<dots> = wrap64 (bucket_sum i (c_entries c) + (IngressBytes d + EgressBytes d))"
    by (simp add: algebra_simps)
  also have "\<dots> = wrap64 (bucket_sum i (c_entries c) + Total d)"
    by (simp add: Total_def wrap_simps)
  finally show ?thesis
    using True by simp
next
  case False
  then show ?thesis
    by (simp add: bucket_sum_update [OF assms])
qed

lemma inv_addToBuckets: "counters_inv c \<Longrightarrow> counters_inv (addToBuckets key d c)"
proof (rule counters_invI)
  assume inv: "counters_inv c"
  note D = counters_invD [OF inv]
  show "counter_ok k kc" if "map_of (c_entries (addToBuckets key d c)) k = Some kc" for k kc
    using that D(5) counter_ok_get [OF inv, of key] by (auto simp: gomap_simps split: if_splits)
  show "gm_get (c_keyBytes (addToBuckets key d c)) i 0 = wrap64 (bucket_sum i (c_entries (addToBuckets key d c)))"
    if "i \<noteq> ''''" for i
    using addToBuckets_keyBytes [OF inv that, of key d] D(6) [OF that]
      bucket_sum_addToBuckets [OF D(1), of i key d]
    by (simp add: wrap_simps)
qed (auto dest: counters_invD)

lemma inv_Add: "counters_inv c \<Longrightarrow> counters_inv (Add key d c)"
  using inv_addToBuckets [of c key d]
  by (auto simp: Add_def Let_def counters_inv_def)

lemma inv_Requeue: "counters_inv c \<Longrightarrow> counters_inv (Requeue drained c)"
  by (induction drained c rule: Requeue.induct) (auto simp: inv_addToBuckets)

lemma drainOne_keyBytes:
  assumes "counters_inv c" "i \<noteq> ''''"
  shows "gm_get (c_keyBytes (snd (drainOne key c))) i 0 =
    (if i = ck_KeyID key then wrap64 (gm_get (c_keyBytes c) i 0 - Total (KeyBytes c key))
     else gm_get (c_keyBytes c) i 0)"
proof -
  have "wrap64 (gm_get (c_keyBytes c) i 0) = gm_get (c_keyBytes c) i 0"
    using counters_invD(6) [OF assms] by simp
  then show ?thesis
    using assms(2) counters_invD(5) [OF assms(1), of key]
    by (auto simp: drainOne_def KeyBytes_def Let_def Total_def zeroDelta_def counter_ok_def kc_bytes_fresh
        split: option.splits)
qed

lemma inv_drainOne: "counters_inv c \<Longrightarrow> counters_inv (snd (drainOne key c))"
proof (rule counters_invI)
  assume inv: "counters_inv c"
  note D = counters_invD [OF inv]
  show "counter_ok k kc" if "map_of (c_entries (snd (drainOne key c))) k = Some kc" for k kc
    using that D(5) by (auto simp: gomap_simps split: if_splits)
  show "gm_wf (c_keyBytes (snd (drainOne key c)))"
    using D(4) by (auto simp: drainOne_def Let_def split: option.splits)
  show "gm_get (c_keyBytes (snd (drainOne key c))) i 0 = wrap64 (bucket_sum i (c_entries (snd (drainOne key c))))"
    if "i \<noteq> ''''" for i
    using drainOne_keyBytes [OF inv that, of key] D(6) [OF that]
    by (auto simp: bucket_sum_delete [OF D(1)] KeyBytes_def counterDelta_def zeroDelta_def Total_def wrap_simps
        split: option.splits)
qed (auto dest: counters_invD)

lemma drainLoop_Cons [simp]:
  "drainLoop (key # keys) drained c =
     drainLoop keys (if KeyBytes c key \<noteq> zeroDelta then AList.update key (KeyBytes c key) drained else drained)
       (snd (drainOne key c))"
  by (simp add: split_def)

lemmas drainLoop_simps = drainLoop.simps(1) drainLoop_Cons

declare drainLoop.simps(2) [simp del]

lemma drainLoop_inv: "counters_inv c \<Longrightarrow> counters_inv (snd (drainLoop keys drained c))"
  by (induction keys arbitrary: drained c) (simp_all add: inv_drainOne)

lemma inv_seedOne: "counters_inv (snd nc) \<Longrightarrow> counters_inv (snd (seedOne s nc))"
  by (cases nc) (auto simp: seedOne_def persistedFor_def Let_def counters_inv_def)

lemma inv_seedLoop: "counters_inv (snd nc) \<Longrightarrow> counters_inv (snd (seedLoop nowNs subs nc))"
  by (induction nowNs subs nc rule: seedLoop.induct) (auto simp: inv_seedOne)

lemma counters_inv_step: "counters_inv c \<Longrightarrow> counters_inv (counters_step op c)"
proof (cases op)
  case (OpMarkPersisted u b)
  then show "counters_inv c \<Longrightarrow> ?thesis"
    by (auto simp: counters_inv_def MarkPersisted_def persistedFor_def Let_def)
next
  case (OpResetUser u)
  then show "counters_inv c \<Longrightarrow> ?thesis"
    by (auto simp: counters_inv_def ResetUser_def)
next
  case (OpLoadUser u b)
  then show "counters_inv c \<Longrightarrow> ?thesis"
    by (auto simp: counters_inv_def LoadUser_def)
qed (auto simp: inv_Add inv_Requeue Drain_def drainLoop_inv SeedFromSubscriptions_def inv_seedLoop)

interpretation counters_machine: state_machine counters_step counters_inv
  by unfold_locales (rule counters_inv_step)

section \<open>Refinement to a ledger of pending traffic\<close>

text \<open>
  The specification of the counters: a function from buckets to the traffic that has been counted
  and not yet drained.
\<close>

fun pending_step :: "counters_op \<Rightarrow> (CounterKey \<Rightarrow> Delta) \<Rightarrow> (CounterKey \<Rightarrow> Delta)" where
  "pending_step (OpAdd key d) f = f(key := dadd (f key) d)"
| "pending_step (OpDrain keys) f = (\<lambda>k. if k \<in> set keys then zeroDelta else f k)"
| "pending_step (OpRequeue drained) f = fold (\<lambda>(key, d) g. g(key := dadd (g key) d)) drained f"
| "pending_step _ f = f"

lemma KeyBytes_Add: "counters_inv c \<Longrightarrow> KeyBytes (Add key d c) = (KeyBytes c)(key := dadd (KeyBytes c key) d)"
proof (cases "d = zeroDelta")
  case False
  then have "KeyBytes (Add key d c) = KeyBytes (addToBuckets key d c)"
    by (intro KeyBytes_cong) (simp add: Add_entries)
  then show ?thesis
    by (simp add: KeyBytes_addToBuckets)
qed (auto simp: Add_def delta64_KeyBytes)

lemma KeyBytes_Requeue:
  "counters_inv c \<Longrightarrow>
   KeyBytes (Requeue drained c) = fold (\<lambda>(key, d) g. g(key := dadd (g key) d)) drained (KeyBytes c)"
  by (induction drained c rule: Requeue.induct)
    (auto simp: KeyBytes_addToBuckets inv_addToBuckets delta64_KeyBytes)

lemma KeyBytes_drainLoop:
  "KeyBytes (snd (drainLoop keys drained c)) = (\<lambda>k. if k \<in> set keys then zeroDelta else KeyBytes c k)"
  by (induction keys arbitrary: drained c) (auto simp: KeyBytes_drainOne fun_eq_iff)

lemma map_of_drainLoop:
  "map_of (fst (drainLoop keys drained c)) k =
     (if k \<in> set keys \<and> KeyBytes c k \<noteq> zeroDelta then Some (KeyBytes c k) else map_of drained k)"
  by (induction keys arbitrary: drained c) (auto simp: KeyBytes_drainOne gomap_simps)

lemma gm_wf_drainLoop: "gm_wf drained \<Longrightarrow> gm_wf (fst (drainLoop keys drained c))"
  by (induction keys arbitrary: drained c) auto

lemma map_of_Drain:
  "map_of (fst (Drain keys c)) k =
     (if k \<in> set keys \<and> KeyBytes c k \<noteq> zeroDelta then Some (KeyBytes c k) else None)"
  by (simp add: Drain_def map_of_drainLoop)

lemma gm_wf_Drain [simp]: "gm_wf (fst (Drain keys c))"
  by (simp add: Drain_def gm_wf_drainLoop)

lemma KeyBytes_Drain:
  "KeyBytes (snd (Drain keys c)) = (\<lambda>k. if k \<in> set keys then zeroDelta else KeyBytes c k)"
  by (simp add: Drain_def KeyBytes_drainLoop)

lemma drainLoop_users [simp]:
  "c_users (snd (drainLoop keys drained c)) = c_users c"
  "c_persisted (snd (drainLoop keys drained c)) = c_persisted c"
  by (induction keys arbitrary: drained c) auto

lemma Requeue_users [simp]:
  "c_users (Requeue drained c) = c_users c" "c_persisted (Requeue drained c) = c_persisted c"
  by (induction drained c rule: Requeue.induct) auto

interpretation counters_ledger: refinement counters_step counters_inv KeyBytes pending_step
proof
  show "KeyBytes (counters_step op c) = pending_step op (KeyBytes c)" if "counters_inv c" for op c
  proof (cases op)
    case (OpSeed subs nowNs)
    then show ?thesis
      by (auto simp: SeedFromSubscriptions_def intro: KeyBytes_cong)
  qed (auto simp: that KeyBytes_Add KeyBytes_Drain KeyBytes_Requeue intro: KeyBytes_cong)
qed

section \<open>Conservation of traffic\<close>

fun field :: "dfield \<Rightarrow> Delta \<Rightarrow> int" where
  "field FIngress d = IngressBytes d"
| "field FEgress d = EgressBytes d"
| "field FRequests d = Requests d"
| "field FErrors d = Errors d"

lemma field_zero [simp]: "field f zeroDelta = 0"
  by (cases f) (simp_all add: zeroDelta_def)

lemma field_dadd [simp]: "field f (dadd a b) = wrap64 (field f a + field f b)"
  by (cases f) (simp_all add: dadd_def)

lemma field_in64: "delta64 d \<Longrightarrow> in64 (field f d)"
  by (cases f) (simp_all add: delta64_def)

text \<open>What one operation puts into, and takes out of, one field of one bucket.\<close>

fun traffic_in :: "dfield \<Rightarrow> CounterKey \<Rightarrow> counters_op \<Rightarrow> int" where
  "traffic_in f k (OpAdd key d) = (if key = k then field f d else 0)"
| "traffic_in f k (OpRequeue drained) = (\<Sum>(key, d)\<leftarrow>drained. if key = k then field f d else 0)"
| "traffic_in f k _ = 0"

fun traffic_out :: "dfield \<Rightarrow> CounterKey \<Rightarrow> counters_op \<Rightarrow> Counters \<Rightarrow> int" where
  "traffic_out f k (OpDrain keys) c = field f (gm_get (fst (Drain keys c)) k zeroDelta)"
| "traffic_out f k _ c = 0"

fun traffic_balance :: "dfield \<Rightarrow> CounterKey \<Rightarrow> counters_op list \<Rightarrow> Counters \<Rightarrow> int" where
  "traffic_balance f k [] c = 0"
| "traffic_balance f k (op # ops) c =
     (traffic_in f k op - traffic_out f k op c) + traffic_balance f k ops (counters_step op c)"

lemma fold_dadd_field:
  "wrap64 (field f (fold (\<lambda>(key, d) g. g(key := dadd (g key) d)) drained g k)) =
     wrap64 (field f (g k) + (\<Sum>(key, d)\<leftarrow>drained. if key = k then field f d else 0))"
proof (induction drained arbitrary: g)
  case (Cons p drained)
  obtain key d where p: "p = (key, d)"
    by force
  show ?case
    using Cons.IH [of "g(key := dadd (g key) d)"] by (simp add: p wrap_simps algebra_simps)
qed simp

lemma traffic_step:
  assumes "counters_inv c"
  shows "wrap64 (field f (KeyBytes (counters_step op c) k)) =
    wrap64 (field f (KeyBytes c k) + (traffic_in f k op - traffic_out f k op c))"
  using fold_dadd_field [of f _ "KeyBytes c" k]
  by (cases op)
    (auto simp: counters_ledger.simulates [OF assms] gm_get_def map_of_Drain
      simp del: counters_step.simps split: option.splits)

interpretation counters_meter: metered_machine counters_step counters_inv
    "\<lambda>c. field f (KeyBytes c k)" "\<lambda>op c. traffic_in f k op - traffic_out f k op c" for f k
  by unfold_locales (rule traffic_step)

lemma gains_traffic_balance: "counters_meter.gains f k ops c = traffic_balance f k ops c"
  by (induction ops arbitrary: c) simp_all

section \<open>A drain that is put back\<close>

lemma fold_dadd_distinct:
  "gm_wf drained \<Longrightarrow>
   fold (\<lambda>(key, d) g. g(key := dadd (g key) d)) drained g k =
     (case map_of drained k of None \<Rightarrow> g k | Some d \<Rightarrow> dadd (g k) d)"
proof (induction drained arbitrary: g)
  case (Cons p drained)
  obtain key d where p: "p = (key, d)"
    by force
  have "map_of drained key = None"
    using Cons.prems p by (simp add: map_of_eq_None_iff)
  then show ?case
    using Cons.IH [of "g(key := dadd (g key) d)"] Cons.prems p by (auto split: option.splits)
qed simp

lemma KeyBytes_absent: "k \<notin> gm_keys (c_entries c) \<Longrightarrow> KeyBytes c k = zeroDelta"
  using map_of_eq_None_iff [of "c_entries c" k] by (simp add: KeyBytes_def)

lemma entries_sum_KeyBytes:
  assumes "gm_wf (c_entries c)" "finite S" "gm_keys (c_entries c) \<subseteq> S" "\<And>k. g k zeroDelta = 0"
  shows "gm_sum (\<lambda>k kc. g k (counterDelta kc)) (c_entries c) = (\<Sum>k\<in>S. g k (KeyBytes c k))"
proof -
  have "gm_sum (\<lambda>k kc. g k (counterDelta kc)) (c_entries c) = (\<Sum>k\<in>gm_keys (c_entries c). g k (KeyBytes c k))"
    unfolding gm_sum_set [OF assms(1)]
    by (rule sum.cong) (auto simp: KeyBytes_def dest!: map_of_is_SomeI [OF assms(1)])
  also have "\<dots> = (\<Sum>k\<in>S. g k (KeyBytes c k))"
    using assms(2-4) KeyBytes_absent [of _ c] by (intro sum.mono_neutral_left) auto
  finally show ?thesis .
qed

text \<open>Two counter sets with the same buckets have the same sums over their entries.\<close>

lemma entries_sum_cong:
  assumes "gm_wf (c_entries c)" "gm_wf (c_entries c')" "KeyBytes c = KeyBytes c'" "\<And>k. g k zeroDelta = 0"
  shows "gm_sum (\<lambda>k kc. g k (counterDelta kc)) (c_entries c) = gm_sum (\<lambda>k kc. g k (counterDelta kc)) (c_entries c')"
proof -
  let ?S = "gm_keys (c_entries c) \<union> gm_keys (c_entries c')"
  show ?thesis
    using entries_sum_KeyBytes [of c ?S g] entries_sum_KeyBytes [of c' ?S g] assms(1,2,4)
    unfolding assms(3) by simp
qed

lemma bucket_sum_delta:
  "bucket_sum i es = gm_sum (\<lambda>k kc. (\<lambda>k d. if ck_KeyID k = i then IngressBytes d + EgressBytes d else 0)
     k (counterDelta kc)) es"
  unfolding bucket_sum_def by (rule gm_sum_cong) (simp add: counterDelta_def)

lemma bucket_sum_cong:
  assumes "gm_wf (c_entries c)" "gm_wf (c_entries c')" "KeyBytes c = KeyBytes c'"
  shows "bucket_sum i (c_entries c) = bucket_sum i (c_entries c')"
  unfolding bucket_sum_delta
  using entries_sum_cong [OF assms, of "\<lambda>k d. if ck_KeyID k = i then IngressBytes d + EgressBytes d else 0"]
  by (simp add: zeroDelta_def)

lemma KeyTotal_cong:
  "counters_inv c \<Longrightarrow> counters_inv c' \<Longrightarrow> KeyBytes c = KeyBytes c' \<Longrightarrow> KeyTotal c i = KeyTotal c' i"
  by (simp add: KeyTotal_def counters_invD bucket_sum_cong [of c c'])

lemma Drain_Requeue_pending:
  assumes "counters_inv c"
  shows "KeyBytes (Requeue (fst (Drain keys c)) (snd (Drain keys c))) = KeyBytes c"
proof (rule ext)
  fix k
  have inv: "counters_inv (snd (Drain keys c))"
    using assms by (simp add: Drain_def drainLoop_inv)
  show "KeyBytes (Requeue (fst (Drain keys c)) (snd (Drain keys c))) k = KeyBytes c k"
    by (simp add: KeyBytes_Requeue [OF inv] fold_dadd_distinct map_of_Drain KeyBytes_Drain
        delta64_KeyBytes [OF assms] split: option.splits)
qed

text \<open>A drain of every bucket empties the entries and hands out exactly what they held.\<close>

lemma entries_drainLoop:
  "c_entries (snd (drainLoop keys drained c)) = filter (\<lambda>e. fst e \<notin> set keys) (c_entries c)"
proof (induction keys arbitrary: drained c)
  case (Cons key keys)
  then show ?case
    by (auto simp: AList.delete_eq split_def intro: filter_cong)
qed simp

lemma Drain_all_empty: "c_entries (snd (Drain (Keys c) c)) = []"
  by (auto simp: Drain_def Keys_def entries_drainLoop filter_empty_conv)

lemma Drain_all_sum:
  assumes "gm_wf (c_entries c)" "\<And>k. g k zeroDelta = 0"
  shows "gm_sum g (fst (Drain (Keys c) c)) = gm_sum (\<lambda>k kc. g k (counterDelta kc)) (c_entries c)"
proof -
  let ?d = "fst (Drain (Keys c) c)" and ?K = "gm_keys (c_entries c)"
  have keys: "gm_keys ?d \<subseteq> ?K"
  proof
    fix k
    assume "k \<in> gm_keys ?d"
    then have "map_of ?d k \<noteq> None"
      by (auto simp: map_of_eq_None_iff)
    then show "k \<in> ?K"
      by (auto simp: map_of_Drain Keys_def split: if_splits)
  qed
  have "gm_sum g ?d = (\<Sum>k\<in>gm_keys ?d. g k (KeyBytes c k))"
    unfolding gm_sum_set [OF gm_wf_Drain]
    by (rule sum.cong) (auto simp: map_of_Drain dest!: map_of_is_SomeI [OF gm_wf_Drain] split: if_splits)
  also have "\<dots> = (\<Sum>k\<in>?K. g k (KeyBytes c k))"
  proof (rule sum.mono_neutral_left)
    show "\<forall>k\<in>?K - gm_keys ?d. g k (KeyBytes c k) = 0"
    proof
      fix k
      assume "k \<in> ?K - gm_keys ?d"
      then have "map_of ?d k = None" "k \<in> set (Keys c)"
        by (auto simp: map_of_eq_None_iff Keys_def)
      then show "g k (KeyBytes c k) = 0"
        using assms(2) [of k] by (auto simp: map_of_Drain split: if_splits)
    qed
  qed (use keys in auto)
  also have "\<dots> = gm_sum (\<lambda>k kc. g k (counterDelta kc)) (c_entries c)"
    using entries_sum_KeyBytes [of c ?K g] assms by simp
  finally show ?thesis .
qed

section \<open>Seeding the aggregates\<close>

lemma seedOne_persisted:
  "map_of (c_persisted (snd (seedOne s nc))) v =
     (if v = s_UserID s then Some (s_PeriodUsedBytes s) else map_of (c_persisted (snd nc)) v)"
  by (cases nc) (auto simp: seedOne_def persistedFor_def Let_def gomap_simps LoadOrCompute_def split: option.splits)

lemma seedOne_users:
  "map_of (c_users (snd (seedOne s nc))) v =
     (if v = s_UserID s \<and> wrap64 (s_PeriodUsedBytes s - gm_get (c_persisted (snd nc)) v 0) > 0
      then Some (wrap64 (gm_get (c_users (snd nc)) v 0
             + wrap64 (s_PeriodUsedBytes s - gm_get (c_persisted (snd nc)) v 0)))
      else map_of (c_users (snd nc)) v)"
  by (cases nc) (auto simp: seedOne_def persistedFor_def Let_def gomap_simps atomicAdd_def)

lemma seedLoop_other:
  "(\<And>s. s \<in> set subs \<Longrightarrow> seedable nowNs s \<Longrightarrow> s_UserID s \<noteq> v) \<Longrightarrow>
   map_of (c_users (snd (seedLoop nowNs subs nc))) v = map_of (c_users (snd nc)) v \<and>
   map_of (c_persisted (snd (seedLoop nowNs subs nc))) v = map_of (c_persisted (snd nc)) v"
proof (induction nowNs subs nc rule: seedLoop.induct)
  case (2 nowNs s subs nc)
  then have "seedable nowNs s \<Longrightarrow> v \<noteq> s_UserID s"
    by auto
  then show ?case
    using 2 by (simp add: seedOne_persisted seedOne_users)
qed simp

lemma seedLoop_append: "seedLoop nowNs (xs @ ys) nc = seedLoop nowNs ys (seedLoop nowNs xs nc)"
  by (induction nowNs xs nc rule: seedLoop.induct) auto

lemma seedLoop_user:
  assumes dist: "distinct (map s_UserID (filter (seedable nowNs) subs))"
    and s: "s \<in> set subs" "seedable nowNs s"
  shows "map_of (c_persisted (snd (seedLoop nowNs subs nc))) (s_UserID s) = Some (s_PeriodUsedBytes s)"
    and "map_of (c_users (snd (seedLoop nowNs subs nc))) (s_UserID s) =
      (let restore = wrap64 (s_PeriodUsedBytes s - gm_get (c_persisted (snd nc)) (s_UserID s) 0)
       in if restore > 0 then Some (wrap64 (gm_get (c_users (snd nc)) (s_UserID s) 0 + restore))
          else map_of (c_users (snd nc)) (s_UserID s))"
proof -
  obtain xs ys where subs: "subs = xs @ s # ys"
    using s(1) by (meson split_list)
  have notin: "s_UserID s \<notin> s_UserID ` ({t \<in> set xs. seedable nowNs t} \<union> {t \<in> set ys. seedable nowNs t})"
    using dist s(2) by (simp add: subs image_Un)
  have other: "s_UserID t \<noteq> s_UserID s" if "t \<in> set xs \<union> set ys" "seedable nowNs t" for t
    using notin rev_image_eqI [of t _ "s_UserID s" s_UserID] that by fastforce
  have xs: "s_UserID t \<noteq> s_UserID s" if "t \<in> set xs" "seedable nowNs t" for t
    using other that by simp
  have ys: "s_UserID t \<noteq> s_UserID s" if "t \<in> set ys" "seedable nowNs t" for t
    using other that by simp
  note simps = subs seedLoop_append s(2) seedLoop_other [OF ys] seedOne_persisted seedOne_users
    seedLoop_other [OF xs] gm_get_def Let_def
  show "map_of (c_persisted (snd (seedLoop nowNs subs nc))) (s_UserID s) = Some (s_PeriodUsedBytes s)"
    by (simp add: simps)
  show "map_of (c_users (snd (seedLoop nowNs subs nc))) (s_UserID s) =
      (let restore = wrap64 (s_PeriodUsedBytes s - gm_get (c_persisted (snd nc)) (s_UserID s) 0)
       in if restore > 0 then Some (wrap64 (gm_get (c_users (snd nc)) (s_UserID s) 0 + restore))
          else map_of (c_users (snd nc)) (s_UserID s))"
    by (simp add: simps)
qed

lemma seedOne_noop:
  "map_of (c_persisted (snd nc)) (s_UserID s) = Some (s_PeriodUsedBytes s) \<Longrightarrow> seedOne s nc = nc"
  by (cases nc)
    (simp add: seedOne_def persistedFor_def LoadOrCompute_def gm_get_def Let_def AList.update_triv)

lemma seedLoop_noop:
  "(\<And>s. s \<in> set subs \<Longrightarrow> seedable nowNs s \<Longrightarrow>
      map_of (c_persisted (snd nc)) (s_UserID s) = Some (s_PeriodUsedBytes s)) \<Longrightarrow>
   seedLoop nowNs subs nc = nc"
  by (induction nowNs subs nc rule: seedLoop.induct) (auto simp: seedOne_noop)

section \<open>Properties of the counters\<close>

text \<open>
  After any interleaving of counting, draining, requeueing, marking, resetting, loading and
  seeding, the running total of a key that the quota checks read is the 64-bit sum of the bytes in
  that key's buckets: the two views of the same traffic never disagree.
\<close>

theorem KeyTotal_is_bucket_sum:
  "KeyTotal (fold counters_step ops NewCounters) keyID =
     (if keyID = '''' then 0
      else wrap64 (bucket_sum keyID (c_entries (fold counters_step ops NewCounters))))"
  using counters_invD(6) [OF counters_machine.inv_run [OF counters_inv_New]]
  by (simp add: KeyTotal_def)

text \<open>
  Nothing is lost or counted twice: in every field of every bucket, what is pending after any
  run is what the run added and requeued minus what its drains handed out, modulo 2^64.
\<close>

theorem traffic_conserved:
  "field f (KeyBytes (fold counters_step ops NewCounters) k) =
     wrap64 (traffic_balance f k ops NewCounters)"
proof -
  let ?c = "fold counters_step ops NewCounters"
  have "wrap64 (field f (KeyBytes ?c k)) = wrap64 (traffic_balance f k ops NewCounters)"
    using counters_meter.level_run [OF counters_inv_New, where f = f and k = k and ops = ops]
    by (simp add: gains_traffic_balance) (simp add: KeyBytes_def NewCounters_def)
  moreover have "in64 (field f (KeyBytes ?c k))"
    by (intro field_in64 delta64_KeyBytes counters_machine.inv_run counters_inv_New)
  ultimately show ?thesis
    by simp
qed

text \<open>
  A drain whose write failed and was requeued leaves every bucket, every key total and every
  user aggregate as it found them.
\<close>

theorem failed_flush_restores:
  "let c = fold counters_step ops NewCounters; (drained, c1) = Drain keys c; c2 = Requeue drained c1
   in KeyBytes c2 = KeyBytes c \<and> KeyTotal c2 keyID = KeyTotal c keyID \<and>
      UserBytes c2 userID = UserBytes c userID \<and> PersistedBytes c2 userID = PersistedBytes c userID"
proof -
  define c where "c = fold counters_step ops NewCounters"
  have inv: "counters_inv c"
    unfolding c_def by (intro counters_machine.inv_run counters_inv_New)
  have inv2: "counters_inv (Requeue (fst (Drain keys c)) (snd (Drain keys c)))"
    using inv by (simp add: Drain_def drainLoop_inv inv_Requeue)
  have pend: "KeyBytes (Requeue (fst (Drain keys c)) (snd (Drain keys c))) = KeyBytes c"
    using inv by (rule Drain_Requeue_pending)
  show ?thesis
    using pend KeyTotal_cong [OF inv2 inv pend]
    by (simp add: c_def [symmetric] Let_def split_def UserBytes_def PersistedBytes_def Drain_def)
qed

text \<open>
  Seeding restores a restarted process: with at most one active row per user, a user whose row
  is considered gets exactly the persisted period usage as aggregate and as water mark.
\<close>

theorem seed_after_restart:
  assumes "distinct (map s_UserID (filter (seedable nowNs) subs))"
    and "s \<in> set subs" "seedable nowNs s" "in64 (s_PeriodUsedBytes s)"
  shows "UserBytesPresent (snd (SeedFromSubscriptions subs nowNs NewCounters)) (s_UserID s)
      = (s_PeriodUsedBytes s, True) \<and>
    PersistedBytes (snd (SeedFromSubscriptions subs nowNs NewCounters)) (s_UserID s)
      = (s_PeriodUsedBytes s, True)"
  using seedLoop_user [OF assms(1-3), of "(0, NewCounters)"] assms(3,4)
  by (simp add: SeedFromSubscriptions_def UserBytesPresent_def PersistedBytes_def NewCounters_def
      seedable_def Let_def)

theorem seed_after_restart_witness:
  "UserBytesPresent (snd (SeedFromSubscriptions [exampleSubscription ''s1'' ''u1'' 700] 5 NewCounters)) ''u1''
    = (700, True)"
  using seed_after_restart [of 5 "[exampleSubscription ''s1'' ''u1'' 700]" "exampleSubscription ''s1'' ''u1'' 700"]
  by (simp add: exampleSubscription_def seedable_def in64_def)

text \<open>
  A repeated seed of the same rows restores nothing and changes nothing, whatever state the
  counters were in.
\<close>

theorem seed_idempotent:
  assumes "distinct (map s_UserID (filter (seedable nowNs) subs))"
  shows "SeedFromSubscriptions subs nowNs (snd (SeedFromSubscriptions subs nowNs c)) =
    (0, snd (SeedFromSubscriptions subs nowNs c))"
  unfolding SeedFromSubscriptions_def
  by (rule seedLoop_noop) (simp add: seedLoop_user(1) [OF assms])

theorem seed_idempotent_witness:
  "SeedFromSubscriptions [exampleSubscription ''s1'' ''u1'' 700] 5
     (snd (SeedFromSubscriptions [exampleSubscription ''s1'' ''u1'' 700] 5 NewCounters)) =
   (0, snd (SeedFromSubscriptions [exampleSubscription ''s1'' ''u1'' 700] 5 NewCounters))"
  by (rule seed_idempotent) (simp add: exampleSubscription_def seedable_def)

end
