(* ===== verification/State_Repo.thy ===== *)
theory State_Repo
  imports Tenant_Model
begin

text \<open>
  The SQLite tables behind \<open>internal/state\<close> and the subscription, user and usage operations of
  \<open>internal/state/repo_user.go\<close>.

  A table is an association list from its primary key to its row. Every operation runs under the
  repository's mutex and is one statement or one transaction, so it is one function from tables to
  tables; an operation that answers an error leaves the tables as they were. The constraints of the
  schema (\<open>internal/state/migrations/state\<close>) decide the errors: the CHECK on the status, the
  partial unique index \<open>ux_user_subscriptions_active\<close> (000020), and the foreign keys to \<open>users\<close> and
  \<open>plans\<close> (000017), tested in SQLite's order. Failures of the database engine itself are not
  produced here; \<open>Flush\<close> injects them at the store interface. INTEGER columns are unbounded
  (SQLite leaves the integers when a sum overflows 64 bits).
\<close>

section \<open>Tables\<close>

type_synonym usage_key = "string \<times> string \<times> int"

record StateRepo =
  r_users :: "(string, string) gomap"
  r_plans :: "(string, Plan) gomap"
  r_subs :: "(string, UserSubscription) gomap"
  r_hourly :: "(usage_key, UsageRow) gomap"
  r_daily :: "(usage_key, UsageRow) gomap"
  r_balance :: "(string, int) gomap"
  r_ledger :: "BalanceEntry list"
  r_codes :: "(string, RedeemCode) gomap"
  r_deposits :: "(string, DepositIntent) gomap"
  r_cursor :: "(string, int) gomap"

definition emptyRepo :: StateRepo where
  "emptyRepo = \<lparr>r_users = [], r_plans = [], r_subs = [], r_hourly = [], r_daily = [],
     r_balance = [], r_ledger = [], r_codes = [], r_deposits = [], r_cursor = []\<rparr>"

abbreviation active_sub :: "UserSubscription \<Rightarrow> bool" where
  "active_sub s \<equiv> s_Status s = SubscriptionStatusActive"

section \<open>The constraints on a subscription row\<close>

definition status_check :: "UserSubscription \<Rightarrow> bool" where
  "status_check s \<longleftrightarrow> s_Status s = SubscriptionStatusActive \<or> s_Status s = SubscriptionStatusExpired
     \<or> s_Status s = SubscriptionStatusSuspended"

definition active_taken :: "UserSubscription \<Rightarrow> StateRepo \<Rightarrow> bool" where
  "active_taken s r \<longleftrightarrow> active_sub s \<and>
     list_ex (\<lambda>(i, t). i \<noteq> s_ID s \<and> s_UserID t = s_UserID s \<and> active_sub t) (r_subs r)"

definition foreign_keys_ok :: "UserSubscription \<Rightarrow> StateRepo \<Rightarrow> bool" where
  "foreign_keys_ok s r \<longleftrightarrow> map_of (r_users r) (s_UserID s) \<noteq> None \<and>
     (s_PlanID s = '''' \<or> map_of (r_plans r) (s_PlanID s) \<noteq> None)"

definition writeSubscription :: "UserSubscription \<Rightarrow> StateRepo \<Rightarrow> (unit, StateRepo) call" where
  "writeSubscription s r =
     (if \<not> status_check s then (Inl (ErrOther ''CHECK constraint''), r)
      else if active_taken s r then (Inl ErrConflict, r)
      else if \<not> foreign_keys_ok s r then (Inl (ErrOther ''FOREIGN KEY constraint''), r)
      else (Inr (), r\<lparr>r_subs := AList.update (s_ID s) s (r_subs r)\<rparr>))"

definition normalizeSubscription :: "UserSubscription \<Rightarrow> UserSubscription" where
  "normalizeSubscription s =
     (let snapshot = TrimSpace (s_PlanSnapshotJSON s)
      in s\<lparr>s_PlanSnapshotJSON := (if snapshot = '''' then ''{}'' else snapshot),
           s_Status := (if s_Status s = '''' then SubscriptionStatusActive else s_Status s)\<rparr>)"

section \<open>Subscription operations\<close>

definition UpsertUserSubscription :: "UserSubscription \<Rightarrow> StateRepo \<Rightarrow> (unit, StateRepo) call" where
  "UpsertUserSubscription s r = writeSubscription (normalizeSubscription s) r"

definition subscriptionRowExists :: "string \<Rightarrow> StateRepo \<Rightarrow> bool" where
  "subscriptionRowExists i r \<longleftrightarrow> map_of (r_subs r) i \<noteq> None"

text \<open>The UPDATE keeps the two usage columns of the stored row.\<close>

definition UpdateUserSubscriptionTerms :: "UserSubscription \<Rightarrow> StateRepo \<Rightarrow> (unit, StateRepo) call" where
  "UpdateUserSubscriptionTerms s r =
     (let n = normalizeSubscription s
      in case map_of (r_subs r) (s_ID s) of
           None \<Rightarrow> (Inl ErrNotFound, r)
         | Some old \<Rightarrow> writeSubscription
             (n\<lparr>s_PeriodStartNs := s_PeriodStartNs old, s_PeriodUsedBytes := s_PeriodUsedBytes old\<rparr>) r)"

definition GetUserSubscription :: "string \<Rightarrow> StateRepo \<Rightarrow> error + UserSubscription" where
  "GetUserSubscription i r = (case map_of (r_subs r) i of None \<Rightarrow> Inl ErrNotFound | Some s \<Rightarrow> Inr s)"

definition activeRow :: "string \<Rightarrow> StateRepo \<Rightarrow> UserSubscription option" where
  "activeRow userID r = find (\<lambda>s. s_UserID s = userID \<and> active_sub s) (map snd (r_subs r))"

definition GetActiveUserSubscription :: "string \<Rightarrow> StateRepo \<Rightarrow> error + UserSubscription" where
  "GetActiveUserSubscription userID r =
     (case activeRow userID r of None \<Rightarrow> Inl ErrNotFound | Some s \<Rightarrow> Inr s)"

definition ListUserSubscriptions :: "StateRepo \<Rightarrow> UserSubscription list" where
  "ListUserSubscriptions r = sort_key s_UserID (map snd (r_subs r))"

definition AddSubscriptionUsedBytes :: "string \<Rightarrow> int \<Rightarrow> StateRepo \<Rightarrow> (unit, StateRepo) call" where
  "AddSubscriptionUsedBytes i delta r =
     (case map_of (r_subs r) i of
        None \<Rightarrow> (Inl ErrNotFound, r)
      | Some s \<Rightarrow> (Inr (), r\<lparr>r_subs := AList.update i
          (s\<lparr>s_PeriodUsedBytes := max 0 (s_PeriodUsedBytes s + delta)\<rparr>) (r_subs r)\<rparr>))"

definition ResetSubscriptionPeriod :: "string \<Rightarrow> int \<Rightarrow> int \<Rightarrow> StateRepo \<Rightarrow> (unit, StateRepo) call" where
  "ResetSubscriptionPeriod i fromPeriodStartNs toPeriodStartNs r =
     (case map_of (r_subs r) i of
        Some s \<Rightarrow>
          if s_PeriodStartNs s = fromPeriodStartNs
          then (Inr (), r\<lparr>r_subs := AList.update i
            (s\<lparr>s_PeriodStartNs := toPeriodStartNs, s_PeriodUsedBytes := 0\<rparr>) (r_subs r)\<rparr>)
          else (Inr (), r)
      | None \<Rightarrow> (Inl ErrNotFound, r))"

definition RevokeUserSubscription :: "string \<Rightarrow> StateRepo \<Rightarrow> (unit, StateRepo) call" where
  "RevokeUserSubscription i r =
     (case map_of (r_subs r) i of
        Some s \<Rightarrow> (Inr (), r\<lparr>r_subs := AList.update i
          (s\<lparr>s_Status := SubscriptionStatusSuspended\<rparr>) (r_subs r)\<rparr>)
      | None \<Rightarrow> (Inl ErrNotFound, r))"

definition stale_sub :: "int \<Rightarrow> UserSubscription \<Rightarrow> bool" where
  "stale_sub nowNs s \<longleftrightarrow> active_sub s \<and> s_ExpiresAtNs s > 0 \<and> s_ExpiresAtNs s \<le> nowNs"

definition ExpireStaleSubscriptions :: "int \<Rightarrow> StateRepo \<Rightarrow> (nat, StateRepo) call" where
  "ExpireStaleSubscriptions nowNs r =
     (Inr (length (filter (\<lambda>(i, s). stale_sub nowNs s) (r_subs r))),
      r\<lparr>r_subs := map (\<lambda>(i, s). (i, if stale_sub nowNs s
         then s\<lparr>s_Status := SubscriptionStatusExpired\<rparr> else s)) (r_subs r)\<rparr>)"

text \<open>
  Deleting a user cascades to the subscriptions and the balance row (their columns reference
  \<open>users\<close>); the ledger has no foreign key and keeps its rows. Deleting a plan clears the plan id.
\<close>

definition DeleteUser :: "string \<Rightarrow> StateRepo \<Rightarrow> (unit, StateRepo) call" where
  "DeleteUser i r =
     (case map_of (r_users r) i of
        None \<Rightarrow> (Inl ErrNotFound, r)
      | Some _ \<Rightarrow> (Inr (), r\<lparr>r_users := AList.delete i (r_users r),
          r_subs := filter (\<lambda>(_, s). s_UserID s \<noteq> i) (r_subs r),
          r_balance := AList.delete i (r_balance r)\<rparr>))"

definition DeletePlan :: "string \<Rightarrow> StateRepo \<Rightarrow> (unit, StateRepo) call" where
  "DeletePlan i r =
     (case map_of (r_plans r) i of
        None \<Rightarrow> (Inl ErrNotFound, r)
      | Some _ \<Rightarrow> (Inr (), r\<lparr>r_plans := AList.delete i (r_plans r),
          r_subs := map (\<lambda>(k, s). (k, if s_PlanID s = i then s\<lparr>s_PlanID := ''''\<rparr> else s)) (r_subs r)\<rparr>))"

section \<open>Usage tables\<close>

definition usageKey :: "UsageRow \<Rightarrow> usage_key" where
  "usageKey row = (ur_KeyID row, ur_PlatformID row, ur_TSNs row)"

text \<open>The \<open>ON CONFLICT DO UPDATE\<close> of both usage tables: the counters are summed.\<close>

definition addUsage :: "UsageRow \<Rightarrow> UsageRow \<Rightarrow> UsageRow" where
  "addUsage old new = old\<lparr>
     ur_IngressBytes := ur_IngressBytes old + ur_IngressBytes new,
     ur_EgressBytes := ur_EgressBytes old + ur_EgressBytes new,
     ur_Requests := ur_Requests old + ur_Requests new,
     ur_Errors := ur_Errors old + ur_Errors new\<rparr>"

definition upsertUsageRow :: "UsageRow \<Rightarrow> (usage_key, UsageRow) gomap \<Rightarrow> (usage_key, UsageRow) gomap" where
  "upsertUsageRow row m =
     (case map_of m (usageKey row) of
        None \<Rightarrow> AList.update (usageKey row) row m
      | Some old \<Rightarrow> AList.update (usageKey row) (addUsage old row) m)"

definition upsertUsage :: "UsageRow list \<Rightarrow> (usage_key, UsageRow) gomap \<Rightarrow> (usage_key, UsageRow) gomap" where
  "upsertUsage rows m = fold upsertUsageRow rows m"

definition UpsertUsageHourly :: "UsageRow list \<Rightarrow> StateRepo \<Rightarrow> (unit, StateRepo) call" where
  "UpsertUsageHourly rows r = (Inr (), r\<lparr>r_hourly := upsertUsage rows (r_hourly r)\<rparr>)"

definition dayNs :: int where
  "dayNs = 86400000000000"

definition dayOf :: "int \<Rightarrow> int" where
  "dayOf ts = (ts sdiv dayNs) * dayNs"

text \<open>
  The SELECT of the summary: rows grouped by key, user, platform and day, each group summed. The
  groups are the association list; a row is added to its group or opens it.
\<close>

definition groupRow :: "UsageRow \<Rightarrow> (string \<times> string \<times> string \<times> int, UsageRow) gomap \<Rightarrow>
    (string \<times> string \<times> string \<times> int, UsageRow) gomap" where
  "groupRow row groups =
     (let day = row\<lparr>ur_TSNs := dayOf (ur_TSNs row)\<rparr>;
          g = (ur_KeyID row, ur_UserID row, ur_PlatformID row, dayOf (ur_TSNs row))
      in case map_of groups g of
           None \<Rightarrow> AList.update g day groups
         | Some old \<Rightarrow> AList.update g (addUsage old day) groups)"

definition groupByDay :: "UsageRow list \<Rightarrow> UsageRow list" where
  "groupByDay rows = map snd (fold groupRow rows [])"

definition SummarizeUsageHourlyBefore :: "int \<Rightarrow> StateRepo \<Rightarrow> (nat, StateRepo) call" where
  "SummarizeUsageHourlyBefore cutoffNs r =
     (let old = filter (\<lambda>((_, _, ts), _). ts < cutoffNs) (r_hourly r)
      in (Inr (length old),
          r\<lparr>r_daily := upsertUsage (groupByDay (map snd old)) (r_daily r),
            r_hourly := filter (\<lambda>((_, _, ts), _). \<not> ts < cutoffNs) (r_hourly r)\<rparr>))"

text \<open>
  One batch of the retention delete removes the oldest \<open>batch\<close> rows before the cutoff; the loop
  goes on while the batches are full. A batch size of zero would never end, so the loop is a
  partial function.
\<close>

definition deleteBatch :: "nat \<Rightarrow> int \<Rightarrow> (usage_key, UsageRow) gomap \<Rightarrow> nat \<times> (usage_key, UsageRow) gomap" where
  "deleteBatch batch cutoff m =
     (let victims = take batch (sort_key (\<lambda>((_, _, ts), _). ts) (filter (\<lambda>((_, _, ts), _). ts < cutoff) m))
      in (length victims, filter (\<lambda>e. e \<notin> set victims) m))"

partial_function (option) deleteBeforeBatched ::
  "nat \<Rightarrow> int \<Rightarrow> nat \<Rightarrow> (usage_key, UsageRow) gomap \<Rightarrow> (nat \<times> (usage_key, UsageRow) gomap) option" where
  "deleteBeforeBatched batch cutoff removed_so_far m =
     (let (removed, m') = deleteBatch batch cutoff m
      in if removed < batch then Some (removed_so_far + removed, m')
         else deleteBeforeBatched batch cutoff (removed_so_far + removed) m')"

definition stateDeleteBatch :: nat where
  "stateDeleteBatch = 5000"

definition DeleteUsageDailyBefore :: "int \<Rightarrow> StateRepo \<Rightarrow> (nat \<times> StateRepo) option" where
  "DeleteUsageDailyBefore cutoffNs r =
     (case deleteBeforeBatched stateDeleteBatch cutoffNs 0 (r_daily r) of
        None \<Rightarrow> None
      | Some (n, m) \<Rightarrow> Some (n, r\<lparr>r_daily := m\<rparr>))"

section \<open>Traffic on record\<close>

definition rows_total :: "dfield \<Rightarrow> (usage_key \<Rightarrow> bool) \<Rightarrow> (usage_key, UsageRow) gomap \<Rightarrow> int" where
  "rows_total f P m = gm_sum (\<lambda>k row. if P k then ufield f row else 0) m"

text \<open>What both tables together hold for one key and platform on one day.\<close>

definition usage_on :: "dfield \<Rightarrow> string \<Rightarrow> string \<Rightarrow> int \<Rightarrow> StateRepo \<Rightarrow> int" where
  "usage_on f keyID platformID day r =
     rows_total f (\<lambda>(k, p, ts). k = keyID \<and> p = platformID \<and> dayOf ts = day) (r_hourly r) +
     rows_total f (\<lambda>(k, p, ts). k = keyID \<and> p = platformID \<and> ts = day) (r_daily r)"

text \<open>The traffic of one key on one platform over all days.\<close>

definition recorded :: "dfield \<Rightarrow> string \<Rightarrow> string \<Rightarrow> StateRepo \<Rightarrow> int" where
  "recorded f keyID platformID r =
     rows_total f (\<lambda>(k, p, _). k = keyID \<and> p = platformID) (r_hourly r) +
     rows_total f (\<lambda>(k, p, _). k = keyID \<and> p = platformID) (r_daily r)"

definition usage_table_ok :: "(usage_key, UsageRow) gomap \<Rightarrow> bool" where
  "usage_table_ok m \<longleftrightarrow> gm_wf m \<and> list_all (\<lambda>(k, row). k = usageKey row) m"

lemma usage_table_okD:
  "usage_table_ok m \<Longrightarrow> gm_wf m"
  "usage_table_ok m \<Longrightarrow> (k, row) \<in> set m \<Longrightarrow> k = usageKey row"
  "usage_table_ok m \<Longrightarrow> map_of m k = Some row \<Longrightarrow> k = usageKey row"
  by (auto simp: usage_table_ok_def list_all_iff dest!: map_of_SomeD)

lemma ufield_addUsage [simp]: "ufield f (addUsage old new) = ufield f old + ufield f new"
  by (cases f) (simp_all add: addUsage_def)

lemma usageKey_addUsage [simp]: "usageKey (addUsage old new) = usageKey old"
  by (simp add: usageKey_def addUsage_def)

lemma ufield_ts [simp]: "ufield f (row\<lparr>ur_TSNs := t\<rparr>) = ufield f row"
  by (cases f) simp_all

lemma usage_table_ok_update:
  "usage_table_ok m \<Longrightarrow> k = usageKey row \<Longrightarrow> usage_table_ok (AList.update k row m)"
  using set_gm_update_subset [of k row m]
  by (auto simp: usage_table_ok_def list_all_iff)

lemma usage_table_ok_upsert: "usage_table_ok m \<Longrightarrow> usage_table_ok (upsertUsage rows m)"
proof (induction rows arbitrary: m)
  case (Cons row rows)
  then have "usage_table_ok (upsertUsageRow row m)"
    by (auto simp: upsertUsageRow_def intro!: usage_table_ok_update split: option.splits dest: usage_table_okD(3))
  then show ?case
    using Cons.IH by (simp add: upsertUsage_def)
qed (simp add: upsertUsage_def)

lemma rows_total_upsertRow:
  "gm_wf m \<Longrightarrow> rows_total f P (upsertUsageRow row m) =
     rows_total f P m + (if P (usageKey row) then ufield f row else 0)"
  by (simp add: rows_total_def upsertUsageRow_def gm_sum_update split: option.splits)

lemma rows_total_upsert:
  "gm_wf m \<Longrightarrow> rows_total f P (upsertUsage rows m) =
     rows_total f P m + (\<Sum>row\<leftarrow>rows. if P (usageKey row) then ufield f row else 0)"
proof (induction rows arbitrary: m)
  case (Cons row rows)
  have "gm_wf (upsertUsageRow row m)"
    using Cons.prems by (auto simp: upsertUsageRow_def split: option.splits)
  then show ?case
    using Cons by (simp add: upsertUsage_def rows_total_upsertRow)
qed (simp add: upsertUsage_def)

text \<open>Grouping by day keeps every sum that only looks at key, platform and day.\<close>

definition groups_ok :: "(string \<times> string \<times> string \<times> int, UsageRow) gomap \<Rightarrow> bool" where
  "groups_ok gs \<longleftrightarrow> gm_wf gs \<and>
     (\<forall>g v. map_of gs g = Some v \<longrightarrow> g = (ur_KeyID v, ur_UserID v, ur_PlatformID v, ur_TSNs v))"

definition dayKey :: "UsageRow \<Rightarrow> usage_key" where
  "dayKey row = (ur_KeyID row, ur_PlatformID row, dayOf (ur_TSNs row))"

lemma groups_ok_groupRow: "groups_ok gs \<Longrightarrow> groups_ok (groupRow row gs)"
  by (auto simp: groups_ok_def groupRow_def Let_def gomap_simps addUsage_def split: option.splits if_splits)

lemma gm_sum_groupRow:
  assumes "groups_ok gs"
  shows "gm_sum (\<lambda>_ v. if P (usageKey v) then ufield f v else 0) (groupRow row gs) =
    gm_sum (\<lambda>_ v. if P (usageKey v) then ufield f v else 0) gs + (if P (dayKey row) then ufield f row else 0)"
proof -
  let ?g = "(ur_KeyID row, ur_UserID row, ur_PlatformID row, dayOf (ur_TSNs row))"
  have wf: "gm_wf gs"
    using assms by (simp add: groups_ok_def)
  show ?thesis
  proof (cases "map_of gs ?g")
    case None
    have "usageKey (row\<lparr>ur_TSNs := dayOf (ur_TSNs row)\<rparr>) = dayKey row"
      by (simp add: usageKey_def dayKey_def)
    then show ?thesis
      using None wf by (simp add: groupRow_def Let_def gm_sum_update)
  next
    case (Some old)
    then have "?g = (ur_KeyID old, ur_UserID old, ur_PlatformID old, ur_TSNs old)"
      using assms unfolding groups_ok_def by blast
    then have "usageKey old = dayKey row"
      by (simp add: usageKey_def dayKey_def)
    then show ?thesis
      using Some wf by (simp add: groupRow_def Let_def gm_sum_update)
  qed
qed

lemma sum_groups:
  "groups_ok gs \<Longrightarrow>
   gm_sum (\<lambda>_ v. if P (usageKey v) then ufield f v else 0) (fold groupRow rows gs) =
     gm_sum (\<lambda>_ v. if P (usageKey v) then ufield f v else 0) gs +
     (\<Sum>row\<leftarrow>rows. if P (dayKey row) then ufield f row else 0)"
  by (induction rows arbitrary: gs) (simp_all add: groups_ok_groupRow gm_sum_groupRow)

lemma sum_groupByDay:
  "(\<Sum>row\<leftarrow>groupByDay rows. if P (usageKey row) then ufield f row else 0) =
     (\<Sum>row\<leftarrow>rows. if P (dayKey row) then ufield f row else 0)"
  using sum_groups [of "[]" P f rows] by (simp add: groups_ok_def groupByDay_def gm_sum_def comp_def)

lemma rows_total_filter:
  "rows_total f P m = rows_total f P (filter A m) + rows_total f P (filter (\<lambda>e. \<not> A e) m)"
  unfolding rows_total_def by (induction m) auto

lemma rows_total_rows:
  "usage_table_ok m \<Longrightarrow> rows_total f P m = (\<Sum>row\<leftarrow>map snd m. if P (usageKey row) then ufield f row else 0)"
  unfolding rows_total_def gm_sum_def map_map comp_def
  by (intro arg_cong [of _ _ sum_list] map_cong refl) (auto dest: usage_table_okD(2))

lemma usage_table_ok_filter [simp, intro]: "usage_table_ok m \<Longrightarrow> usage_table_ok (filter A m)"
  by (auto simp: usage_table_ok_def list_all_iff)

lemma summarize_total:
  assumes "usage_table_ok (r_hourly r)" "usage_table_ok (r_daily r)"
    and PQ: "\<And>row. P (usageKey row) = Q (dayKey row)"
    and r': "SummarizeUsageHourlyBefore cutoff r = (res, r')"
  shows "rows_total f P (r_hourly r') + rows_total f Q (r_daily r') =
    rows_total f P (r_hourly r) + rows_total f Q (r_daily r)"
proof -
  let ?A = "\<lambda>((_, _, ts), _). (ts :: int) < cutoff"
  have cut: "(\<lambda>e. \<not> ?A e) = (\<lambda>((_, _, ts), _). \<not> ts < cutoff)"
    by (auto simp: fun_eq_iff)
  show ?thesis
    using r' rows_total_filter [of f P "r_hourly r" ?A] rows_total_rows [of "filter ?A (r_hourly r)" f P]
      rows_total_upsert [OF usage_table_okD(1) [OF assms(2)], of f Q "groupByDay (map snd (filter ?A (r_hourly r)))"]
      assms(1)
    by (auto simp: SummarizeUsageHourlyBefore_def Let_def sum_groupByDay PQ cut)
qed

section \<open>The batched delete ends, and deletes exactly the old rows\<close>

definition before :: "int \<Rightarrow> usage_key \<times> UsageRow \<Rightarrow> bool" where
  "before cutoff = (\<lambda>((_, _, ts), _). ts < cutoff)"

lemma deleteBatch_before:
  "deleteBatch batch cutoff m =
     (let victims = take batch (sort_key (\<lambda>((_, _, ts), _). ts) (filter (before cutoff) m))
      in (length victims, filter (\<lambda>e. e \<notin> set victims) m))"
  by (simp add: deleteBatch_def before_def)

lemma deleteBatch_spec:
  assumes "distinct m" "deleteBatch batch cutoff m = (removed, m')"
  shows "removed = min batch (length (filter (before cutoff) m))"
    and "filter (\<lambda>e. \<not> before cutoff e) m' = filter (\<lambda>e. \<not> before cutoff e) m"
    and "length (filter (before cutoff) m') = length (filter (before cutoff) m) - removed"
    and "distinct m'"
proof -
  define V where "V = filter (before cutoff) m"
  define victims where "victims = take batch (sort_key (\<lambda>((_, _, ts), _). ts) V)"
  have m': "m' = filter (\<lambda>e. e \<notin> set victims) m" and removed: "removed = length victims"
    using assms(2) by (auto simp: deleteBatch_before Let_def V_def victims_def)
  have "distinct V"
    using assms(1) by (simp add: V_def)
  then have "distinct (sort_key (\<lambda>((_, _, ts), _). ts) V)"
    by simp
  then have dv: "distinct victims"
    by (simp add: victims_def)
  have sub: "set victims \<subseteq> set V"
    using set_take_subset [of batch "sort_key (\<lambda>((_, _, ts), _). ts) V"] by (simp add: victims_def)
  show "removed = min batch (length (filter (before cutoff) m))"
    by (simp add: removed victims_def V_def)
  show "filter (\<lambda>e. \<not> before cutoff e) m' = filter (\<lambda>e. \<not> before cutoff e) m"
    using sub by (auto simp: m' V_def intro!: filter_cong)
  have "length (filter (before cutoff) m') = length (filter (\<lambda>e. e \<notin> set victims) V)"
    by (simp add: m' V_def conj_commute)
  also have "\<dots> = card (set V - set victims)"
    using \<open>distinct V\<close> by (simp add: distinct_card [symmetric] set_diff_eq)
  also have "\<dots> = length V - removed"
    using sub dv \<open>distinct V\<close> by (simp add: card_Diff_subset distinct_card removed)
  finally show "length (filter (before cutoff) m') = length (filter (before cutoff) m) - removed"
    by (simp add: V_def)
  show "distinct m'"
    using assms(1) by (simp add: m')
qed

lemma deleteBeforeBatched_returns:
  assumes "0 < batch" "distinct m"
  shows "deleteBeforeBatched batch cutoff n m =
    Some (n + length (filter (before cutoff) m), filter (\<lambda>e. \<not> before cutoff e) m)"
  using assms(2)
proof (induction "length (filter (before cutoff) m)" arbitrary: m n rule: less_induct)
  case less
  obtain removed m' where batch: "deleteBatch batch cutoff m = (removed, m')"
    by force
  note spec = deleteBatch_spec [OF less.prems batch]
  show ?case
  proof (cases "removed < batch")
    case True
    then have all: "removed = length (filter (before cutoff) m)"
      using spec(1) by simp
    then have "filter (before cutoff) m' = []"
      using spec(3) by simp
    then have "filter (\<lambda>e. \<not> before cutoff e) m' = m'"
      by (simp add: filter_empty_conv)
    then show ?thesis
      using True spec(2) all batch by (simp add: deleteBeforeBatched.simps [of _ _ _ m])
  next
    case False
    then have "length (filter (before cutoff) m') < length (filter (before cutoff) m)"
      and le: "removed \<le> length (filter (before cutoff) m)"
      using spec(1,3) assms(1) by auto
    from less.hyps [OF this(1) spec(4)] show ?thesis
      using False spec(2,3) batch le by (simp add: deleteBeforeBatched.simps [of _ _ _ m])
  qed
qed

section \<open>The subscription table\<close>

definition one_active :: "(string, UserSubscription) gomap \<Rightarrow> bool" where
  "one_active m \<longleftrightarrow> (\<forall>i j s t. map_of m i = Some s \<longrightarrow> map_of m j = Some t \<longrightarrow>
     active_sub s \<longrightarrow> active_sub t \<longrightarrow> s_UserID s = s_UserID t \<longrightarrow> i = j)"

definition subs_inv :: "StateRepo \<Rightarrow> bool" where
  "subs_inv r \<longleftrightarrow> gm_wf (r_users r) \<and> gm_wf (r_plans r) \<and> gm_wf (r_subs r) \<and> one_active (r_subs r) \<and>
     (\<forall>i s. map_of (r_subs r) i = Some s \<longrightarrow>
        s_ID s = i \<and> status_check s \<and> foreign_keys_ok s r)"

datatype subs_op =
    OpUpsert UserSubscription
  | OpTerms UserSubscription
  | OpAddUsed string int
  | OpResetPeriod string int int
  | OpRevoke string
  | OpExpire int
  | OpDeleteUser string
  | OpDeletePlan string

fun subs_step :: "subs_op \<Rightarrow> StateRepo \<Rightarrow> StateRepo" where
  "subs_step (OpUpsert s) r = snd (UpsertUserSubscription s r)"
| "subs_step (OpTerms s) r = snd (UpdateUserSubscriptionTerms s r)"
| "subs_step (OpAddUsed i d) r = snd (AddSubscriptionUsedBytes i d r)"
| "subs_step (OpResetPeriod i a b) r = snd (ResetSubscriptionPeriod i a b r)"
| "subs_step (OpRevoke i) r = snd (RevokeUserSubscription i r)"
| "subs_step (OpExpire nowNs) r = snd (ExpireStaleSubscriptions nowNs r)"
| "subs_step (OpDeleteUser i) r = snd (DeleteUser i r)"
| "subs_step (OpDeletePlan i) r = snd (DeletePlan i r)"

lemma subs_invD:
  assumes "subs_inv r"
  shows "gm_wf (r_users r)" "gm_wf (r_plans r)" "gm_wf (r_subs r)" "one_active (r_subs r)"
    and "\<And>i s. map_of (r_subs r) i = Some s \<Longrightarrow> s_ID s = i"
    and "\<And>i s. map_of (r_subs r) i = Some s \<Longrightarrow> status_check s"
    and "\<And>i s. map_of (r_subs r) i = Some s \<Longrightarrow> foreign_keys_ok s r"
  using assms by (simp_all add: subs_inv_def)

lemma one_activeI:
  "(\<And>i j s t. map_of m i = Some s \<Longrightarrow> map_of m j = Some t \<Longrightarrow> active_sub s \<Longrightarrow> active_sub t \<Longrightarrow>
      s_UserID s = s_UserID t \<Longrightarrow> i = j) \<Longrightarrow> one_active m"
  by (auto simp: one_active_def)

lemma one_activeD:
  "one_active m \<Longrightarrow> map_of m i = Some s \<Longrightarrow> map_of m j = Some t \<Longrightarrow> active_sub s \<Longrightarrow> active_sub t \<Longrightarrow>
   s_UserID s = s_UserID t \<Longrightarrow> i = j"
  by (simp add: one_active_def)

lemma active_taken_iff:
  assumes "gm_wf (r_subs r)"
  shows "active_taken s r \<longleftrightarrow> active_sub s \<and>
    (\<exists>i t. map_of (r_subs r) i = Some t \<and> i \<noteq> s_ID s \<and> s_UserID t = s_UserID s \<and> active_sub t)"
  unfolding active_taken_def list_ex_iff map_of_eq_Some_iff [OF assms] by auto

lemma foreign_keys_ok_subs [simp]: "foreign_keys_ok s (r\<lparr>r_subs := m\<rparr>) = foreign_keys_ok s r"
  by (simp add: foreign_keys_ok_def)

lemma foreign_keys_ok_terms [simp]:
  "foreign_keys_ok (s\<lparr>s_Status := x\<rparr>) r = foreign_keys_ok s r"
  "foreign_keys_ok (s\<lparr>s_PeriodStartNs := n\<rparr>) r = foreign_keys_ok s r"
  "foreign_keys_ok (s\<lparr>s_PeriodUsedBytes := n\<rparr>) r = foreign_keys_ok s r"
  by (simp_all add: foreign_keys_ok_def)

text \<open>Rewriting a row in place keeps the invariant when it keeps the owner and activates nothing.\<close>

lemma subs_inv_update:
  assumes "subs_inv r" "map_of (r_subs r) i = Some s"
    and "s_ID s' = i" "status_check s'" "foreign_keys_ok s' r"
    and "active_sub s' \<Longrightarrow> active_sub s \<and> s_UserID s' = s_UserID s"
  shows "subs_inv (r\<lparr>r_subs := AList.update i s' (r_subs r)\<rparr>)"
proof -
  note D = subs_invD [OF assms(1)]
  have "one_active (AList.update i s' (r_subs r))"
  proof (rule one_activeI)
    fix a b sa sb
    assume *: "map_of (AList.update i s' (r_subs r)) a = Some sa"
      "map_of (AList.update i s' (r_subs r)) b = Some sb" "active_sub sa" "active_sub sb"
      "s_UserID sa = s_UserID sb"
    have "\<exists>ta. map_of (r_subs r) a = Some ta \<and> active_sub ta \<and> s_UserID ta = s_UserID sa"
      using *(1,3) assms(2,6) by (auto simp: gomap_simps split: if_splits)
    moreover have "\<exists>tb. map_of (r_subs r) b = Some tb \<and> active_sub tb \<and> s_UserID tb = s_UserID sb"
      using *(2,4) assms(2,6) by (auto simp: gomap_simps split: if_splits)
    ultimately show "a = b"
      using one_activeD [OF D(4), of a _ b] *(5) by auto
  qed
  then show ?thesis
    using D assms(3-5) by (auto simp: subs_inv_def gomap_simps)
qed

lemma subs_inv_map:
  assumes "subs_inv r" "\<And>s. s_ID (f s) = s_ID s" "\<And>s. status_check s \<Longrightarrow> status_check (f s)"
    and "\<And>s. active_sub (f s) \<Longrightarrow> active_sub s" "\<And>s. s_UserID (f s) = s_UserID s"
    and "\<And>s. foreign_keys_ok s r \<Longrightarrow> foreign_keys_ok (f s) r'"
    and r': "gm_wf (r_users r')" "gm_wf (r_plans r')" "r_subs r' = map (\<lambda>(i, s). (i, f s)) (r_subs r)"
  shows "subs_inv r'"
proof -
  note D = subs_invD [OF assms(1)]
  have "one_active (r_subs r')"
    by (rule one_activeI) (auto simp: r'(3) map_of_map assms(5) dest!: assms(4) dest: one_activeD [OF D(4)])
  moreover have "gm_wf (r_subs r')"
    using D(3) by (simp add: r' comp_def split_def)
  ultimately show ?thesis
    using D(5-7) assms(2,3,6) r' by (auto simp: subs_inv_def map_of_map)
qed

lemma subs_inv_write:
  assumes "subs_inv r"
  shows "subs_inv (snd (writeSubscription s r))"
proof (cases "\<not> status_check s \<or> active_taken s r \<or> \<not> foreign_keys_ok s r")
  case True
  then show ?thesis
    using assms by (auto simp: writeSubscription_def)
next
  case False
  note D = subs_invD [OF assms]
  have free: "i = s_ID s" if "map_of (r_subs r) i = Some t" "s_UserID t = s_UserID s" "active_sub t"
    "active_sub s" for i t
    using False that by (auto simp: active_taken_iff [OF D(3)])
  have "one_active (AList.update (s_ID s) s (r_subs r))"
    by (rule one_activeI)
      (auto simp: gomap_simps split: if_splits dest: free one_activeD [OF D(4)])
  then show ?thesis
    using D False by (auto simp: writeSubscription_def subs_inv_def gomap_simps)
qed

lemma foreign_keys_ok_deleted:
  "foreign_keys_ok s (r\<lparr>r_users := AList.delete i (r_users r), r_subs := m, r_balance := b\<rparr>) \<longleftrightarrow>
     foreign_keys_ok s r \<and> s_UserID s \<noteq> i"
  by (auto simp: foreign_keys_ok_def gomap_simps)

lemma subs_inv_DeleteUser:
  assumes "subs_inv r"
  shows "subs_inv (snd (DeleteUser i r))"
proof (cases "map_of (r_users r) i")
  case None
  then show ?thesis
    using assms by (simp add: DeleteUser_def)
next
  case (Some st)
  note D = subs_invD [OF assms]
  have look: "map_of (filter (\<lambda>(_, s). s_UserID s \<noteq> i) (r_subs r)) k =
      (case map_of (r_subs r) k of None \<Rightarrow> None | Some s \<Rightarrow> if s_UserID s \<noteq> i then Some s else None)" for k
    by (rule map_of_gm_filter [OF D(3)])
  have "one_active (filter (\<lambda>(_, s). s_UserID s \<noteq> i) (r_subs r))"
    using D(4) unfolding one_active_def look by (auto split: option.splits if_splits)
  then show ?thesis
    using Some D by (auto simp: DeleteUser_def subs_inv_def look foreign_keys_ok_deleted split: option.splits if_splits)
qed

lemma subs_inv_DeletePlan:
  assumes "subs_inv r"
  shows "subs_inv (snd (DeletePlan i r))"
proof (cases "map_of (r_plans r) i")
  case None
  then show ?thesis
    using assms by (simp add: DeletePlan_def)
next
  case (Some p)
  then show ?thesis
    using subs_invD [OF assms]
    by (intro subs_inv_map [OF assms, where f = "\<lambda>s. if s_PlanID s = i then s\<lparr>s_PlanID := ''''\<rparr> else s"])
      (auto simp: DeletePlan_def gomap_simps foreign_keys_ok_def status_check_def split: if_splits)
qed

lemma status_check_terms [simp]:
  "status_check (s\<lparr>s_PeriodStartNs := n\<rparr>) = status_check s"
  "status_check (s\<lparr>s_PeriodUsedBytes := n\<rparr>) = status_check s"
  "status_check (s\<lparr>s_Status := SubscriptionStatusSuspended\<rparr>)"
  "status_check (s\<lparr>s_Status := SubscriptionStatusExpired\<rparr>)"
  by (simp_all add: status_check_def)

lemma subs_inv_rewrite:
  assumes "subs_inv r" "map_of (r_subs r) i = Some s"
    and "s_ID s' = s_ID s" "status_check s \<Longrightarrow> status_check s'" "foreign_keys_ok s' r = foreign_keys_ok s r"
    and "active_sub s' \<Longrightarrow> active_sub s" "s_UserID s' = s_UserID s"
  shows "subs_inv (r\<lparr>r_subs := AList.update i s' (r_subs r)\<rparr>)"
  using assms subs_invD(5-7) [OF assms(1,2)] by (intro subs_inv_update) auto

lemma subs_inv_row_writers:
  assumes "subs_inv r"
  shows "subs_inv (snd (AddSubscriptionUsedBytes i d r))"
    and "subs_inv (snd (ResetSubscriptionPeriod i a b r))"
    and "subs_inv (snd (RevokeUserSubscription i r))"
  unfolding AddSubscriptionUsedBytes_def ResetSubscriptionPeriod_def RevokeUserSubscription_def
  by (auto simp: assms split: option.split intro: subs_inv_rewrite [OF assms])

lemma subs_inv_Expire: "subs_inv r \<Longrightarrow> subs_inv (snd (ExpireStaleSubscriptions nowNs r))"
  by (rule subs_inv_map [where f = "\<lambda>s. if stale_sub nowNs s then s\<lparr>s_Status := SubscriptionStatusExpired\<rparr> else s"])
    (auto simp: ExpireStaleSubscriptions_def subs_invD split: if_splits)

lemma subs_inv_step: "subs_inv r \<Longrightarrow> subs_inv (subs_step op r)"
  by (cases op)
    (simp_all add: subs_inv_row_writers subs_inv_Expire subs_inv_write subs_inv_DeleteUser subs_inv_DeletePlan
      UpsertUserSubscription_def UpdateUserSubscriptionTerms_def Let_def split: option.split)

interpretation subs_machine: state_machine subs_step subs_inv
  by unfold_locales (rule subs_inv_step)

lemma subs_inv_empty:
  "gm_wf (r_users r) \<Longrightarrow> gm_wf (r_plans r) \<Longrightarrow> r_subs r = [] \<Longrightarrow> subs_inv r"
  by (simp add: subs_inv_def one_active_def)

text \<open>Under the invariant, the row an active lookup finds is the only one.\<close>

lemma activeRow_Some_iff:
  assumes "subs_inv r"
  shows "activeRow u r = Some s \<longleftrightarrow> map_of (r_subs r) (s_ID s) = Some s \<and> s_UserID s = u \<and> active_sub s"
proof
  assume "activeRow u r = Some s"
  then have "s \<in> snd ` set (r_subs r)" and s: "s_UserID s = u" "active_sub s"
    by (auto simp: activeRow_def dest: find_SomeD)
  then obtain i where i: "map_of (r_subs r) i = Some s"
    using subs_invD(3) [OF assms] by (auto simp: map_of_eq_Some_iff)
  then show "map_of (r_subs r) (s_ID s) = Some s \<and> s_UserID s = u \<and> active_sub s"
    using s subs_invD(5) [OF assms i] by simp
next
  assume *: "map_of (r_subs r) (s_ID s) = Some s \<and> s_UserID s = u \<and> active_sub s"
  then have "s \<in> set (map snd (r_subs r))"
    by (force dest: map_of_SomeD)
  then obtain t where t: "activeRow u r = Some t"
    using * by (cases "activeRow u r") (auto simp: activeRow_def find_None_iff)
  then have "t \<in> snd ` set (r_subs r)" and tu: "s_UserID t = u" "active_sub t"
    by (auto simp: activeRow_def dest: find_SomeD)
  then obtain i where i: "map_of (r_subs r) i = Some t"
    using subs_invD(3) [OF assms] by (auto simp: map_of_eq_Some_iff)
  have "i = s_ID s"
    using one_activeD [OF subs_invD(4) [OF assms] i, of "s_ID s" s] * tu by simp
  then show "activeRow u r = Some s"
    using i * t by simp
qed

section \<open>Properties of the repository\<close>



text \<open>
  Folding old hourly rows into the daily table changes no total: what the two tables together
  hold for a key, a platform and a day is the same before and after the summary, whatever the
  cutoff, so a usage report neither doubles nor loses traffic.
\<close>

theorem summary_keeps_usage:
  assumes "usage_table_ok (r_hourly r)" "usage_table_ok (r_daily r)"
  shows "usage_on f keyID platformID day (snd (SummarizeUsageHourlyBefore cutoffNs r)) =
    usage_on f keyID platformID day r"
  unfolding usage_on_def
  by (rule summarize_total [OF assms _ prod.collapse [symmetric]]) (simp add: usageKey_def dayKey_def)

definition exampleRow :: "int \<Rightarrow> int \<Rightarrow> UsageRow" where
  "exampleRow ts n = \<lparr>ur_KeyID = ''k'', ur_UserID = ''u1'', ur_PlatformID = ''p'', ur_TSNs = ts,
     ur_IngressBytes = n, ur_EgressBytes = 0, ur_Requests = 1, ur_Errors = 0\<rparr>"

theorem summary_keeps_usage_witness:
  "usage_on FIngress ''k'' ''p'' 0 (snd (SummarizeUsageHourlyBefore 7200000000000
     (emptyRepo\<lparr>r_hourly := upsertUsage [exampleRow 0 5, exampleRow 3600000000000 6] []\<rparr>))) = 11"
proof -
  let ?r = "emptyRepo\<lparr>r_hourly := upsertUsage [exampleRow 0 5, exampleRow 3600000000000 6] []\<rparr>"
  have "usage_on FIngress ''k'' ''p'' 0 (snd (SummarizeUsageHourlyBefore 7200000000000 ?r)) =
      usage_on FIngress ''k'' ''p'' 0 ?r"
    by (rule summary_keeps_usage)
      (auto simp: emptyRepo_def usage_table_ok_def intro!: usage_table_ok_upsert [unfolded usage_table_ok_def])
  then show ?thesis
    by (simp add: usage_on_def rows_total_def upsertUsage_def upsertUsageRow_def emptyRepo_def exampleRow_def
        usageKey_def dayOf_def dayNs_def signed_divide_int_def)
qed

text \<open>
  C38. The batched retention delete ends, reports the number of rows before the cutoff and removes
  exactly those, in however many batches.
\<close>

theorem DeleteUsageDailyBefore_exact:
  assumes "usage_table_ok (r_daily r)"
  shows "DeleteUsageDailyBefore cutoffNs r =
    Some (length (filter (\<lambda>((_, _, ts), _). ts < cutoffNs) (r_daily r)),
          r\<lparr>r_daily := filter (\<lambda>((_, _, ts), _). ts \<ge> cutoffNs) (r_daily r)\<rparr>)"
proof -
  have "distinct (r_daily r)"
    using usage_table_okD(1) [OF assms] by (simp add: distinct_map)
  moreover have "(\<lambda>e. \<not> before cutoffNs e) = (\<lambda>((_, _, ts), _). ts \<ge> cutoffNs)"
    by (auto simp: before_def fun_eq_iff)
  ultimately show ?thesis
    using deleteBeforeBatched_returns [of stateDeleteBatch "r_daily r" cutoffNs 0]
    by (simp add: DeleteUsageDailyBefore_def stateDeleteBatch_def before_def)
qed

theorem DeleteUsageDailyBefore_exact_witness:
  "\<exists>r'. DeleteUsageDailyBefore 5 (emptyRepo\<lparr>r_daily := upsertUsage [exampleRow 0 5, exampleRow 9 6] []\<rparr>)
     = Some (1, r')"
proof -
  have "usage_table_ok (upsertUsage [exampleRow 0 5, exampleRow 9 6] [])"
    by (rule usage_table_ok_upsert) (simp add: usage_table_ok_def)
  then show ?thesis
    by (subst DeleteUsageDailyBefore_exact)
      (simp_all add: emptyRepo_def upsertUsage_def upsertUsageRow_def exampleRow_def usageKey_def)
qed

end
