(* ===== verification/Flush.thy ===== *)
theory Flush
  imports Counters State_Repo
begin

text \<open>
  The usage flusher of \<open>internal/usage/flush.go\<close>: draining the counters into the usage tables and
  charging the drained bytes to the subscriptions.

  \<open>FlushOnce\<close> is written against the store interface of the source (\<open>FlushStore\<close> and the optional
  \<open>PeriodGuardedFlushStore\<close>, a record of functions here). The locale \<open>flush_store\<close> states what the
  flusher relies on, and the conservation of traffic is proved in it once. It is interpreted on the
  SQLite repository behind a script that, before every call, lets other writers run and decides
  whether the database answers or fails, so the theorem covers database failures and every
  interleaving of the pass with other writers of the repository.
\<close>

section \<open>The store interface\<close>

record 'st FlushStore =
  fs_UpsertUsageHourly :: "UsageRow list \<Rightarrow> 'st \<Rightarrow> (unit, 'st) call"
  fs_GetActiveUserSubscription :: "string \<Rightarrow> 'st \<Rightarrow> (UserSubscription option, 'st) call"
  fs_AddSubscriptionUsedBytes :: "string \<Rightarrow> int \<Rightarrow> 'st \<Rightarrow> (unit, 'st) call"
  fs_AddSubscriptionUsedBytesInPeriod :: "(string \<Rightarrow> int \<Rightarrow> int \<Rightarrow> 'st \<Rightarrow> (bool, 'st) call) option"

record FlushResult =
  fr_Rows :: int
  fr_Bytes :: int
  fr_Subscriptions :: int
  fr_RolledBytes :: int
  fr_UnclaimedBytes :: int

definition emptyResult :: FlushResult where
  "emptyResult = \<lparr>fr_Rows = 0, fr_Bytes = 0, fr_Subscriptions = 0, fr_RolledBytes = 0, fr_UnclaimedBytes = 0\<rparr>"

record subscriptionWindow =
  w_id :: string
  w_periodStartNs :: int

section \<open>One pass\<close>

definition hourNs :: int where
  "hourNs = 3600000000000"

definition usageRow :: "int \<Rightarrow> CounterKey \<Rightarrow> Delta \<Rightarrow> UsageRow" where
  "usageRow hourTS key d = \<lparr>ur_KeyID = ck_KeyID key, ur_UserID = ck_UserID key,
     ur_PlatformID = ck_PlatformID key, ur_TSNs = hourTS, ur_IngressBytes = IngressBytes d,
     ur_EgressBytes = EgressBytes d, ur_Requests = Requests d, ur_Errors = Errors d\<rparr>"

definition hourOf :: "int \<Rightarrow> int \<Rightarrow> int" where
  "hourOf clock nowNs = ((if nowNs \<le> 0 then clock else nowNs) sdiv hourNs) * hourNs"

definition flushRows :: "int \<Rightarrow> (CounterKey, Delta) gomap \<Rightarrow> UsageRow list" where
  "flushRows hourTS drained = map (\<lambda>(key, d). usageRow hourTS key d) drained"

definition perUserTotals :: "(CounterKey, Delta) gomap \<Rightarrow> (string, int) gomap" where
  "perUserTotals drained =
     fold (\<lambda>(key, d) m. if ck_UserID key \<noteq> '''' then atomicAdd m (ck_UserID key) (Total d) else m) drained []"

fun snapshotWindows :: "'st FlushStore \<Rightarrow> (string, int) gomap \<Rightarrow>
    (string, subscriptionWindow) gomap \<times> FlushResult \<times> 'st \<Rightarrow>
    (string, subscriptionWindow) gomap \<times> FlushResult \<times> 'st" where
  "snapshotWindows store [] acc = acc"
| "snapshotWindows store ((userID, bytes) # perUser) (windows, result, st) =
     (let (answer, st1) = fs_GetActiveUserSubscription store userID st
      in case answer of
           Inl _ \<Rightarrow> snapshotWindows store perUser
             (windows, result\<lparr>fr_UnclaimedBytes := wrap64 (fr_UnclaimedBytes result + bytes)\<rparr>, st1)
         | Inr None \<Rightarrow> snapshotWindows store perUser
             (windows, result\<lparr>fr_UnclaimedBytes := wrap64 (fr_UnclaimedBytes result + bytes)\<rparr>, st1)
         | Inr (Some s) \<Rightarrow> snapshotWindows store perUser
             (AList.update userID \<lparr>w_id = s_ID s, w_periodStartNs = s_PeriodStartNs s\<rparr> windows, result, st1))"

definition chargeSubscription ::
    "'st FlushStore \<Rightarrow> string \<Rightarrow> subscriptionWindow \<Rightarrow> int \<Rightarrow> 'st \<Rightarrow> (bool, 'st) call" where
  "chargeSubscription store userID window bytes st =
     (case fs_AddSubscriptionUsedBytesInPeriod store of
        Some guarded \<Rightarrow> guarded (w_id window) (w_periodStartNs window) bytes st
      | None \<Rightarrow>
          (let (answer, st1) = fs_GetActiveUserSubscription store userID st
           in case answer of
                Inl e \<Rightarrow> (Inl e, st1)
              | Inr None \<Rightarrow> (Inr False, st1)
              | Inr (Some current) \<Rightarrow>
                  if s_ID current \<noteq> w_id window \<or> s_PeriodStartNs current \<noteq> w_periodStartNs window
                  then (Inr False, st1)
                  else (let (added, st2) = fs_AddSubscriptionUsedBytes store (w_id window) bytes st1
                        in case added of Inl e \<Rightarrow> (Inl e, st2) | Inr _ \<Rightarrow> (Inr True, st2))))"

fun chargeAll :: "'st FlushStore \<Rightarrow> (string, subscriptionWindow) gomap \<Rightarrow> (string, int) gomap \<Rightarrow>
    FlushResult \<times> Counters \<times> 'st \<Rightarrow> FlushResult \<times> Counters \<times> 'st" where
  "chargeAll store windows [] acc = acc"
| "chargeAll store windows ((userID, bytes) # perUser) (result, c, st) =
     (case map_of windows userID of
        None \<Rightarrow> chargeAll store windows perUser (result, c, st)
      | Some window \<Rightarrow>
          (let (charged, st1) = chargeSubscription store userID window bytes st
           in case charged of
                Inl _ \<Rightarrow> chargeAll store windows perUser
                  (result\<lparr>fr_UnclaimedBytes := wrap64 (fr_UnclaimedBytes result + bytes)\<rparr>, c, st1)
              | Inr False \<Rightarrow> chargeAll store windows perUser
                  (result\<lparr>fr_RolledBytes := wrap64 (fr_RolledBytes result + bytes)\<rparr>, c, st1)
              | Inr True \<Rightarrow> chargeAll store windows perUser
                  (result\<lparr>fr_Subscriptions := fr_Subscriptions result + 1\<rparr>, MarkPersisted userID bytes c, st1)))"

definition sumRows :: "UsageRow list \<Rightarrow> int" where
  "sumRows rows = fold (\<lambda>row n. wrap64 (n + wrap64 (ur_IngressBytes row + ur_EgressBytes row))) rows 0"

definition FlushOnce :: "'st FlushStore \<Rightarrow> int \<Rightarrow> int \<Rightarrow> Counters \<Rightarrow> 'st \<Rightarrow>
    (FlushResult \<times> error option) \<times> Counters \<times> 'st" where
  "FlushOnce store clock nowNs c st =
     (if Keys c = [] then ((emptyResult, None), c, st)
      else let (drained, c1) = Drain (Keys c) c
           in if drained = [] then ((emptyResult, None), c1, st)
              else let rows = flushRows (hourOf clock nowNs) drained;
                       perUser = perUserTotals drained;
                       (written, st1) = fs_UpsertUsageHourly store rows st
                   in case written of
                        Inl e \<Rightarrow> ((emptyResult, Some e), Requeue drained c1, st1)
                      | Inr _ \<Rightarrow>
                          (let result = emptyResult\<lparr>fr_Rows := int (length rows), fr_Bytes := sumRows rows\<rparr>;
                               (windows, result1, st2) = snapshotWindows store perUser ([], result, st1);
                               (result2, c2, st3) = chargeAll store windows perUser (result1, c1, st2)
                           in ((result2, None), c2, st3)))"

lemma FlushOnce_cases [consumes 2, case_names idle failed written]:
  assumes "FlushOnce store clock nowNs c st = (res, c', st')" "Drain (Keys c) c = (drained, c1)"
    and "\<lbrakk>drained = []; c' = c1; st' = st; res = (emptyResult, None)\<rbrakk> \<Longrightarrow> P"
    and "\<And>e. \<lbrakk>fs_UpsertUsageHourly store (flushRows (hourOf clock nowNs) drained) st = (Inl e, st');
          c' = Requeue drained c1; res = (emptyResult, Some e)\<rbrakk> \<Longrightarrow> P"
    and "\<And>st1 result ws result1 st2 result2.
          \<lbrakk>fs_UpsertUsageHourly store (flushRows (hourOf clock nowNs) drained) st = (Inr (), st1);
           result = emptyResult\<lparr>fr_Rows := int (length (flushRows (hourOf clock nowNs) drained)),
             fr_Bytes := sumRows (flushRows (hourOf clock nowNs) drained)\<rparr>;
           snapshotWindows store (perUserTotals drained) ([], result, st1) = (ws, result1, st2);
           chargeAll store ws (perUserTotals drained) (result1, c1, st2) = (result2, c', st');
           res = (result2, None)\<rbrakk> \<Longrightarrow> P"
  shows P
proof (cases "Keys c = []")
  case True
  then show P
    using assms(1-3) by (simp add: FlushOnce_def Drain_def)
next
  case False
  then show P
    using assms by (auto simp: FlushOnce_def Let_def split: if_splits sum.splits prod.splits)
qed

section \<open>What the flusher relies on\<close>

text \<open>
  \<open>rec f keyID platformID st\<close> is the traffic on record, \<open>ok\<close> the store's invariant. The batch write
  records the rows it is given or, when it fails, nothing; no other call touches the record.
\<close>

locale flush_store =
  fixes store :: "'st FlushStore"
    and ok :: "'st \<Rightarrow> bool"
    and rec :: "dfield \<Rightarrow> string \<Rightarrow> string \<Rightarrow> 'st \<Rightarrow> int"
  assumes upsert_records:
      "ok st \<Longrightarrow> fs_UpsertUsageHourly store rows st = (Inr (), st') \<Longrightarrow>
       ok st' \<and> rec f k p st' = rec f k p st +
         (\<Sum>row\<leftarrow>rows. if ur_KeyID row = k \<and> ur_PlatformID row = p then ufield f row else 0)"
    and upsert_fails:
      "ok st \<Longrightarrow> fs_UpsertUsageHourly store rows st = (Inl e, st') \<Longrightarrow> ok st' \<and> rec f k p st' = rec f k p st"
    and get_keeps:
      "ok st \<Longrightarrow> fs_GetActiveUserSubscription store u st = (a, st') \<Longrightarrow> ok st' \<and> rec f k p st' = rec f k p st"
    and add_keeps:
      "ok st \<Longrightarrow> fs_AddSubscriptionUsedBytes store i n st = (b, st') \<Longrightarrow> ok st' \<and> rec f k p st' = rec f k p st"
    and guarded_keeps:
      "ok st \<Longrightarrow> fs_AddSubscriptionUsedBytesInPeriod store = Some g \<Longrightarrow> g i start n st = (d, st') \<Longrightarrow>
       ok st' \<and> rec f k p st' = rec f k p st"

text \<open>The traffic of one key on one platform that is counted and not yet drained.\<close>

definition pending :: "dfield \<Rightarrow> string \<Rightarrow> string \<Rightarrow> Counters \<Rightarrow> int" where
  "pending f keyID platformID c =
     gm_sum (\<lambda>k kc. if ck_KeyID k = keyID \<and> ck_PlatformID k = platformID then field f (counterDelta kc) else 0)
       (c_entries c)"

lemma ufield_usageRow [simp]: "ufield f (usageRow ts key d) = field f d"
  by (cases f) (simp_all add: usageRow_def)

lemma usageRow_key [simp]:
  "ur_KeyID (usageRow ts key d) = ck_KeyID key" "ur_PlatformID (usageRow ts key d) = ck_PlatformID key"
  by (simp_all add: usageRow_def)

lemma pending_delta:
  "pending f i p c = gm_sum (\<lambda>k kc. (\<lambda>k d. if ck_KeyID k = i \<and> ck_PlatformID k = p then field f d else 0)
     k (counterDelta kc)) (c_entries c)"
  by (simp add: pending_def)

lemma pending_cong:
  assumes "counters_inv c" "counters_inv c'" "KeyBytes c = KeyBytes c'"
  shows "pending f i p c = pending f i p c'"
  unfolding pending_delta
  using entries_sum_cong [of c c' "\<lambda>k d. if ck_KeyID k = i \<and> ck_PlatformID k = p then field f d else 0"]
    assms counters_invD(1) by simp

lemma rows_of_drained:
  "(\<Sum>row\<leftarrow>flushRows ts drained. if ur_KeyID row = i \<and> ur_PlatformID row = p then ufield f row else 0) =
   gm_sum (\<lambda>k d. if ck_KeyID k = i \<and> ck_PlatformID k = p then field f d else 0) drained"
  unfolding flushRows_def by (induction drained) auto

lemma chargeAll_frame:
  "chargeAll store ws perUser (result, c, st) = (result', c', st') \<Longrightarrow>
   c_entries c' = c_entries c \<and> c_users c' = c_users c \<and> (counters_inv c \<longrightarrow> counters_inv c')"
proof (induction perUser arbitrary: result c st)
  case (Cons ub perUser)
  obtain u b where ub: "ub = (u, b)"
    by force
  have mark: "counters_inv c \<Longrightarrow> counters_inv (MarkPersisted u b c)"
    using counters_inv_step [of c "OpMarkPersisted u b"] by simp
  show ?case
  proof (cases "map_of ws u")
    case None
    then show ?thesis
      using Cons ub by simp
  next
    case (Some w)
    obtain charged st1 where "chargeSubscription store u w b st = (charged, st1)"
      by force
    then show ?thesis
      using Cons.IH [of _ _ st1] Cons.prems mark Some ub
      by (auto split: sum.splits bool.splits)
  qed
qed simp

context flush_store
begin

definition same :: "'st \<Rightarrow> 'st \<Rightarrow> bool" where
  "same st st' \<longleftrightarrow> ok st' \<and> (\<forall>f k p. rec f k p st' = rec f k p st)"

lemma same_trans: "same st1 st2 \<Longrightarrow> same st2 st3 \<Longrightarrow> same st1 st3"
  by (simp add: same_def)

lemma snapshot_same:
  "ok st \<Longrightarrow> snapshotWindows store perUser (ws, result, st) = (ws', result', st') \<Longrightarrow> same st st'"
proof (induction perUser arbitrary: ws result st)
  case (Cons ub perUser)
  obtain u b where ub: "ub = (u, b)"
    by force
  obtain a st1 where get: "fs_GetActiveUserSubscription store u st = (a, st1)"
    by force
  have "same st st1"
    using get_keeps [OF Cons.prems(1) get] by (simp add: same_def)
  moreover have "same st1 st'"
    using Cons.IH [of st1] Cons.prems(2) \<open>same st st1\<close> ub get
    by (auto simp: same_def split: sum.splits option.splits)
  ultimately show ?case
    by (rule same_trans)
qed (simp add: same_def)

lemma charge_same:
  "ok st \<Longrightarrow> chargeSubscription store u w b st = (charged, st') \<Longrightarrow> same st st'"
proof (cases "fs_AddSubscriptionUsedBytesInPeriod store")
  case (Some g)
  then show "ok st \<Longrightarrow> chargeSubscription store u w b st = (charged, st') \<Longrightarrow> same st st'"
    using guarded_keeps by (simp add: chargeSubscription_def same_def)
next
  case None
  assume ok: "ok st" and charge: "chargeSubscription store u w b st = (charged, st')"
  obtain a st1 where get: "fs_GetActiveUserSubscription store u st = (a, st1)"
    by force
  obtain d st2 where add: "fs_AddSubscriptionUsedBytes store (w_id w) b st1 = (d, st2)"
    by force
  have "same st st1" "same st st2"
    using get_keeps [OF ok get] add_keeps [OF _ add] by (auto simp: same_def)
  then show "same st st'"
    using charge None get add
    by (auto simp: chargeSubscription_def split: sum.splits option.splits if_splits)
qed

lemma chargeAll_same:
  "ok st \<Longrightarrow> chargeAll store ws perUser (result, c, st) = (result', c', st') \<Longrightarrow> same st st'"
proof (induction perUser arbitrary: result c st)
  case (Cons ub perUser)
  obtain u b where ub: "ub = (u, b)"
    by force
  show ?case
  proof (cases "map_of ws u")
    case None
    then show ?thesis
      using Cons ub by simp
  next
    case (Some w)
    obtain charged st1 where charge: "chargeSubscription store u w b st = (charged, st1)"
      by force
    have same1: "same st st1"
      using charge_same [OF Cons.prems(1) charge] .
    then show ?thesis
      using Cons.IH [of st1] Cons.prems(2) Some charge ub
      by (auto simp: same_def split: sum.splits bool.splits)
  qed
qed (simp add: same_def)

text \<open>
  One pass moves traffic from the counters to the record or leaves it where it is: whichever calls
  fail, the traffic on record plus the traffic pending is what it was.
\<close>

lemma FlushOnce_conserves:
  assumes ok: "ok st" and inv: "counters_inv c"
    and flush: "FlushOnce store clock nowNs c st = (res, c', st')"
  shows "ok st' \<and> counters_inv c' \<and> rec f k p st' + pending f k p c' = rec f k p st + pending f k p c"
proof -
  obtain drained c1 where drain: "Drain (Keys c) c = (drained, c1)"
    by force
  let ?g = "\<lambda>k' d. if ck_KeyID k' = k \<and> ck_PlatformID k' = p then field f d else 0"
  have inv1: "counters_inv c1"
    using inv counters_inv_step [of c "OpDrain (Keys c)"] drain by simp
  have none1: "pending f k p c1 = 0"
    using Drain_all_empty [of c] drain by (simp add: pending_def)
  have moved: "gm_sum ?g drained = pending f k p c"
    using Drain_all_sum [of c ?g] counters_invD(1) [OF inv] drain by (simp add: pending_delta)
  show ?thesis
    using flush drain
  proof (cases rule: FlushOnce_cases)
    case idle
    then show ?thesis
      using ok inv1 none1 moved by simp
  next
    case (failed e)
    have "pending f k p (Requeue drained c1) = pending f k p c"
      using Drain_Requeue_pending [OF inv, of "Keys c"] drain inv inv1
      by (intro pending_cong inv_Requeue) simp_all
    then show ?thesis
      using failed upsert_fails [OF ok failed(1)] inv1 by (simp add: inv_Requeue)
  next
    case (written st1 result ws result1 st2 result2)
    have rec1: "ok st1" "rec f k p st1 = rec f k p st + pending f k p c"
      using upsert_records [OF ok written(1)] moved by (simp_all add: rows_of_drained)
    have "same st1 st2"
      using snapshot_same [OF rec1(1) written(3)] .
    then have "same st2 st'" "c_entries c' = c_entries c1" "counters_inv c'"
      using chargeAll_same [OF _ written(4)] chargeAll_frame [OF written(4)] inv1 by (auto simp: same_def)
    then show ?thesis
      using rec1 none1 \<open>same st1 st2\<close> by (simp add: same_def pending_def)
  qed
qed

end

section \<open>The SQLite repository as the store\<close>

text \<open>
  Steps of other writers, and one call of the flusher on the repository: before it takes the
  repository's mutex other writers may run, and the engine may fail the statement. The script says
  what happens at each call; an empty script is a quiet, healthy database.
\<close>

datatype env_op = EnvSubs subs_op | EnvSummarize int

fun env_step :: "env_op \<Rightarrow> StateRepo \<Rightarrow> StateRepo" where
  "env_step (EnvSubs op) r = subs_step op r"
| "env_step (EnvSummarize cutoffNs) r = snd (SummarizeUsageHourlyBefore cutoffNs r)"

record db =
  db_repo :: StateRepo
  db_script :: "(env_op list \<times> bool) list"

definition db_call :: "(StateRepo \<Rightarrow> ('a, StateRepo) call) \<Rightarrow> db \<Rightarrow> ('a, db) call" where
  "db_call f d =
     (case db_script d of
        [] \<Rightarrow> (let (a, r) = f (db_repo d) in (a, \<lparr>db_repo = r, db_script = []\<rparr>))
      | (ops, fails) # script \<Rightarrow>
          (let r0 = fold env_step ops (db_repo d)
           in if fails then (Inl (ErrOther ''database''), \<lparr>db_repo = r0, db_script = script\<rparr>)
              else let (a, r) = f r0 in (a, \<lparr>db_repo = r, db_script = script\<rparr>)))"

definition repoStore :: "db FlushStore" where
  "repoStore = \<lparr>
     fs_UpsertUsageHourly = (\<lambda>rows. db_call (UpsertUsageHourly rows)),
     fs_GetActiveUserSubscription = (\<lambda>u. db_call (\<lambda>r.
       case GetActiveUserSubscription u r of Inl e \<Rightarrow> (Inl e, r) | Inr s \<Rightarrow> (Inr (Some s), r))),
     fs_AddSubscriptionUsedBytes = (\<lambda>i n. db_call (AddSubscriptionUsedBytes i n)),
     fs_AddSubscriptionUsedBytesInPeriod = None\<rparr>"

definition repo_ok :: "StateRepo \<Rightarrow> bool" where
  "repo_ok r \<longleftrightarrow> usage_table_ok (r_hourly r) \<and> usage_table_ok (r_daily r)"

lemma subs_step_usage [simp]: "r_hourly (subs_step op r) = r_hourly r" "r_daily (subs_step op r) = r_daily r"
  by (cases op; auto simp: UpsertUserSubscription_def UpdateUserSubscriptionTerms_def writeSubscription_def
      AddSubscriptionUsedBytes_def ResetSubscriptionPeriod_def RevokeUserSubscription_def
      ExpireStaleSubscriptions_def DeleteUser_def DeletePlan_def Let_def split: option.splits)+

lemma env_step_keeps:
  "repo_ok r \<Longrightarrow> repo_ok (env_step op r) \<and> recorded f k p (env_step op r) = recorded f k p r"
proof (cases op)
  case (EnvSummarize cutoff)
  assume ok: "repo_ok r"
  obtain n r' where s: "SummarizeUsageHourlyBefore cutoff r = (n, r')"
    by force
  have "recorded f k p r' = recorded f k p r"
    unfolding recorded_def using ok
    by (intro summarize_total [OF _ _ _ s]) (simp_all add: repo_ok_def usageKey_def dayKey_def)
  moreover have "repo_ok r'"
    using s ok by (auto simp: repo_ok_def SummarizeUsageHourlyBefore_def Let_def usage_table_ok_upsert)
  ultimately show ?thesis
    using s EnvSummarize by simp
qed (simp add: repo_ok_def recorded_def)

lemma env_run_keeps:
  "repo_ok r \<Longrightarrow> repo_ok (fold env_step ops r) \<and> recorded f k p (fold env_step ops r) = recorded f k p r"
  by (induction ops arbitrary: r) (simp_all add: env_step_keeps)

lemma db_call_cases:
  assumes "db_call g d = (a, d')"
  obtains (failed) ops e where "a = Inl e" "db_repo d' = fold env_step ops (db_repo d)"
  | (ran) ops where "g (fold env_step ops (db_repo d)) = (a, db_repo d')"
proof (cases "db_script d")
  case Nil
  then show ?thesis
    using assms ran [of "[]"] by (auto simp: db_call_def split: prod.splits)
next
  case (Cons x script)
  obtain ops fails where x: "x = (ops, fails)"
    by force
  show ?thesis
  proof (cases fails)
    case True
    then show ?thesis
      using assms Cons x failed [of _ ops] by (auto simp: db_call_def)
  next
    case False
    then show ?thesis
      using assms Cons x ran [of ops] by (auto simp: db_call_def split: prod.splits)
  qed
qed

text \<open>A call keeps what the function it runs keeps.\<close>

lemma db_call_keeps:
  assumes "repo_ok (db_repo d)" "db_call g d = (a, d')"
    and "\<And>r a r'. repo_ok r \<Longrightarrow> g r = (a, r') \<Longrightarrow> repo_ok r' \<and> recorded f k p r' = recorded f k p r"
  shows "repo_ok (db_repo d') \<and> recorded f k p (db_repo d') = recorded f k p (db_repo d)"
  using assms(2)
proof (cases rule: db_call_cases)
  case (failed ops e)
  then show ?thesis
    using env_run_keeps [OF assms(1)] by simp
next
  case (ran ops)
  then show ?thesis
    using env_run_keeps [OF assms(1), of ops] assms(3) by metis
qed

lemma UpsertUsageHourly_records:
  assumes "repo_ok r" "UpsertUsageHourly rows r = (a, r')"
  shows "repo_ok r' \<and> recorded f k p r' = recorded f k p r +
    (\<Sum>row\<leftarrow>rows. if ur_KeyID row = k \<and> ur_PlatformID row = p then ufield f row else 0)"
  using assms
  by (auto simp: UpsertUsageHourly_def repo_ok_def recorded_def usage_table_ok_upsert usageKey_def
      rows_total_upsert [OF usage_table_okD(1)])

lemma AddSubscriptionUsedBytes_usage:
  "AddSubscriptionUsedBytes i n r = (b, r') \<Longrightarrow> repo_ok r' = repo_ok r \<and> recorded f k p r' = recorded f k p r"
  by (auto simp: AddSubscriptionUsedBytes_def repo_ok_def recorded_def split: option.splits)

lemma upsert_call:
  assumes "repo_ok (db_repo d)" "db_call (UpsertUsageHourly rows) d = (a, d')"
  shows "repo_ok (db_repo d') \<and> recorded f k p (db_repo d') = recorded f k p (db_repo d) +
    (case a of Inl _ \<Rightarrow> 0 | Inr _ \<Rightarrow>
      (\<Sum>row\<leftarrow>rows. if ur_KeyID row = k \<and> ur_PlatformID row = p then ufield f row else 0))"
  using assms(2)
proof (cases rule: db_call_cases)
  case (failed ops e)
  then show ?thesis
    using env_run_keeps [OF assms(1)] by simp
next
  case (ran ops)
  moreover have "a = Inr ()"
    using ran by (auto simp: UpsertUsageHourly_def)
  ultimately show ?thesis
    using env_run_keeps [OF assms(1), of ops f k p] UpsertUsageHourly_records [OF _ ran, of f k p] by simp
qed

interpretation repo_flush: flush_store repoStore "\<lambda>d. repo_ok (db_repo d)" "\<lambda>f k p d. recorded f k p (db_repo d)"
proof
  fix st st' u a f k p
  assume "repo_ok (db_repo st)" "fs_GetActiveUserSubscription repoStore u st = (a, st')"
  then show "repo_ok (db_repo st') \<and> recorded f k p (db_repo st') = recorded f k p (db_repo st)"
    by (auto simp: repoStore_def elim!: db_call_keeps split: sum.splits)
next
  fix st st' i n b f k p
  assume "repo_ok (db_repo st)" "fs_AddSubscriptionUsedBytes repoStore i n st = (b, st')"
  then show "repo_ok (db_repo st') \<and> recorded f k p (db_repo st') = recorded f k p (db_repo st)"
    by (auto simp: repoStore_def elim!: db_call_keeps dest: AddSubscriptionUsedBytes_usage)
qed (auto simp: repoStore_def dest: upsert_call)

section \<open>The accounting as a whole\<close>

text \<open>
  The world the accounting runs in: the data plane counts traffic, the flusher runs a pass against a
  database with a given script, and other writers and maintenance jobs use the repository.
\<close>

datatype world_op =
    WAdd CounterKey Delta
  | WFlush int int "(env_op list \<times> bool) list"
  | WEnv env_op
  | WResetUser string
  | WSeed "UserSubscription list" int

fun world_step :: "world_op \<Rightarrow> Counters \<times> StateRepo \<Rightarrow> Counters \<times> StateRepo" where
  "world_step (WAdd key d) (c, r) = (Add key d c, r)"
| "world_step (WFlush clock nowNs script) (c, r) =
     (let (_, c', d) = FlushOnce repoStore clock nowNs c \<lparr>db_repo = r, db_script = script\<rparr> in (c', db_repo d))"
| "world_step (WEnv op) (c, r) = (c, env_step op r)"
| "world_step (WResetUser u) (c, r) = (ResetUser u c, r)"
| "world_step (WSeed subs nowNs) (c, r) = (snd (SeedFromSubscriptions subs nowNs c), r)"

definition world_inv :: "Counters \<times> StateRepo \<Rightarrow> bool" where
  "world_inv w \<longleftrightarrow> counters_inv (fst w) \<and> repo_ok (snd w)"

definition world_traffic :: "dfield \<Rightarrow> string \<Rightarrow> string \<Rightarrow> Counters \<times> StateRepo \<Rightarrow> int" where
  "world_traffic f k p w = recorded f k p (snd w) + pending f k p (fst w)"

fun counted :: "dfield \<Rightarrow> string \<Rightarrow> string \<Rightarrow> world_op \<Rightarrow> int" where
  "counted f k p (WAdd key d) = (if ck_KeyID key = k \<and> ck_PlatformID key = p then field f d else 0)"
| "counted f k p _ = 0"

lemma pending_Add:
  assumes "counters_inv c"
  shows "wrap64 (pending f k p (Add key d c)) =
    wrap64 (pending f k p c + (if ck_KeyID key = k \<and> ck_PlatformID key = p then field f d else 0))"
proof (cases "d = zeroDelta")
  case False
  let ?g = "\<lambda>k' kc. if ck_KeyID k' = k \<and> ck_PlatformID k' = p then field f (counterDelta kc) else 0"
  let ?kc = "gm_get (c_entries c) key (freshCounter key)"
  have old: "(case map_of (c_entries c) key of None \<Rightarrow> 0 | Some w \<Rightarrow> ?g key w) = ?g key ?kc"
    by (simp add: gm_get_def split: option.splits)
  have "pending f k p (Add key d c) = pending f k p c + ?g key (addDelta ?kc d) - ?g key ?kc"
    using False old gm_sum_update [OF counters_invD(1) [OF assms], of ?g key "addDelta ?kc d"]
    by (simp add: pending_def Add_entries)
  then show ?thesis
    by (simp add: wrap64_step)
qed (simp add: Add_def)

lemma pending_unchanged: "c_entries c' = c_entries c \<Longrightarrow> pending f k p c' = pending f k p c"
  by (simp add: pending_def)

lemma world_flush:
  assumes "world_inv (c, r)"
  shows "world_inv (world_step (WFlush clock nowNs script) (c, r)) \<and>
    world_traffic f k p (world_step (WFlush clock nowNs script) (c, r)) = world_traffic f k p (c, r)"
proof -
  obtain res c' d where flush:
    "FlushOnce repoStore clock nowNs c \<lparr>db_repo = r, db_script = script\<rparr> = (res, c', d)"
    by (metis prod_cases3)
  show ?thesis
    using repo_flush.FlushOnce_conserves [OF _ _ flush, of f k p] assms flush
    by (simp add: world_inv_def world_traffic_def)
qed

lemma world_add:
  assumes "world_inv (c, r)"
  shows "world_inv (world_step (WAdd key d) (c, r)) \<and>
    wrap64 (world_traffic f k p (world_step (WAdd key d) (c, r))) =
      wrap64 (world_traffic f k p (c, r) + counted f k p (WAdd key d))"
proof -
  have "wrap64 (recorded f k p r + pending f k p (Add key d c)) =
      wrap64 (recorded f k p r + wrap64 (pending f k p (Add key d c)))"
    by (simp add: wrap_simps)
  also have "\<dots> = wrap64 (recorded f k p r + (pending f k p c + counted f k p (WAdd key d)))"
    using assms by (simp only: pending_Add world_inv_def fst_conv counted.simps wrap64_add_right)
  finally show ?thesis
    using assms by (simp add: world_inv_def world_traffic_def inv_Add add.assoc)
qed

lemma world_other:
  assumes "world_inv (c, r)"
  shows "world_inv (c, env_step op r)" "world_traffic f k p (c, env_step op r) = world_traffic f k p (c, r)"
    and "world_inv (ResetUser u c, r)" "world_traffic f k p (ResetUser u c, r) = world_traffic f k p (c, r)"
    and "world_inv (snd (SeedFromSubscriptions subs nowNs c), r)"
      "world_traffic f k p (snd (SeedFromSubscriptions subs nowNs c), r) = world_traffic f k p (c, r)"
  using assms env_step_keeps [of r op f k p] counters_inv_step [of c "OpResetUser u"]
    counters_inv_step [of c "OpSeed subs nowNs"]
  by (simp_all add: world_inv_def world_traffic_def pending_def SeedFromSubscriptions_def)

lemma world_level:
  assumes "world_inv w"
  shows "world_inv (world_step op w) \<and>
    wrap64 (world_traffic f k p (world_step op w)) = wrap64 (world_traffic f k p w + counted f k p op)"
proof -
  obtain c r where w: "w = (c, r)"
    by force
  show ?thesis
  proof (cases op)
    case (WAdd key d)
    then show ?thesis
      using world_add assms w by blast
  next
    case (WFlush clock nowNs script)
    then show ?thesis
      using world_flush [of c r clock nowNs script f k p] assms w by (simp only: counted.simps)  simp
  qed (use world_other [of c r] assms w in simp_all)
qed

interpretation world_meter: metered_machine world_step world_inv
    "world_traffic f k p" "\<lambda>op _. counted f k p op" for f k p
  by unfold_locales (simp_all add: world_level)

lemma world_gains: "world_meter.gains f k p ops w = sum_list (map (counted f k p) ops)"
  by (induction ops arbitrary: w) simp_all

text \<open>
  C1. No byte is lost and none is recorded twice: after any sequence of counted traffic, flush passes
  whose store calls may fail and may be interleaved with other writers and with the usage summary,
  rollovers and seeds, the traffic on record plus the traffic still pending is the traffic that was
  counted, for every key, platform and counted quantity (modulo 2^64).
\<close>

theorem world_traffic_conserved:
  assumes "r_hourly r = []" "r_daily r = []"
  shows "wrap64 (world_traffic f keyID platformID (fold world_step ops (NewCounters, r))) =
    wrap64 (sum_list (map (counted f keyID platformID) ops))"
proof -
  have "world_inv (NewCounters, r)" "world_traffic f keyID platformID (NewCounters, r) = 0"
    using assms counters_inv_New by (simp_all add: world_inv_def repo_ok_def usage_table_ok_def world_traffic_def
        recorded_def rows_total_def pending_def NewCounters_def)
  then show ?thesis
    using world_meter.level_run [of "(NewCounters, r)" f keyID platformID ops] by (simp add: world_gains)
qed

definition exampleKey :: CounterKey where
  "exampleKey = \<lparr>ck_KeyID = ''k'', ck_UserID = ''u1'', ck_PlatformID = ''p''\<rparr>"

definition exampleDelta :: "int \<Rightarrow> Delta" where
  "exampleDelta n = \<lparr>IngressBytes = n, EgressBytes = 0, Requests = 1, Errors = 0\<rparr>"

theorem world_traffic_conserved_witness:
  "wrap64 (world_traffic FIngress ''k'' ''p'' (fold world_step
     [WAdd exampleKey (exampleDelta 100), WFlush 5 0 [([], True)], WAdd exampleKey (exampleDelta 7),
      WFlush 6 0 [([], False), ([EnvSummarize 9], True)]] (NewCounters, emptyRepo))) = 107"
  by (subst world_traffic_conserved)
    (simp_all add: emptyRepo_def exampleKey_def exampleDelta_def in64_def)

end
