(* ===== verification/Quota_Ledger.thy ===== *)
theory Quota_Ledger
  imports Flush
begin

text \<open>
  The three places a user's traffic is counted in: the aggregate the quota reads
  (\<open>Counters.users\<close>), the period usage of the active subscription on disk
  (\<open>user_subscriptions.period_used_bytes\<close>) and the buckets not yet flushed. On a healthy database
  and within one period the aggregate is at every moment the sum of the other two, across counting,
  flush passes and repeated seeds, so a restart that seeds from disk loses at most the unflushed
  buckets.

  The theory also evaluates two schedules around a rollover on the model, in which traffic of a
  closed period is charged to its successor.
\<close>

section \<open>The store without interference\<close>

abbreviation quiet :: "StateRepo \<Rightarrow> db" where
  "quiet r \<equiv> \<lparr>db_repo = r, db_script = []\<rparr>"

lemma quiet_upsert [simp]:
  "fs_UpsertUsageHourly repoStore rows (quiet r) = (Inr (), quiet (snd (UpsertUsageHourly rows r)))"
  by (simp add: repoStore_def db_call_def UpsertUsageHourly_def)

lemma quiet_get [simp]:
  "fs_GetActiveUserSubscription repoStore u (quiet r) =
     (case activeRow u r of None \<Rightarrow> Inl ErrNotFound | Some s \<Rightarrow> Inr (Some s), quiet r)"
  by (simp add: repoStore_def db_call_def GetActiveUserSubscription_def split: option.splits)

lemma quiet_add [simp]:
  "fs_AddSubscriptionUsedBytes repoStore i n (quiet r) =
     (fst (AddSubscriptionUsedBytes i n r), quiet (snd (AddSubscriptionUsedBytes i n r)))"
  by (simp add: repoStore_def db_call_def split_def Let_def)

lemma quiet_guarded [simp]: "fs_AddSubscriptionUsedBytesInPeriod repoStore = None"
  by (simp add: repoStore_def)

definition windowOf :: "UserSubscription \<Rightarrow> subscriptionWindow" where
  "windowOf s = \<lparr>w_id = s_ID s, w_periodStartNs = s_PeriodStartNs s\<rparr>"

lemma snapshot_quiet:
  assumes "snapshotWindows repoStore perUser (ws, result, quiet r) = (ws', result', st')"
  shows "st' = quiet r \<and> map_of ws' v =
    (if v \<in> gm_keys perUser \<and> activeRow v r \<noteq> None then map_option windowOf (activeRow v r) else map_of ws v)"
  using assms
proof (induction perUser arbitrary: ws result)
  case (Cons ub perUser)
  obtain u b where ub: "ub = (u, b)"
    by force
  show ?case
  proof (cases "activeRow u r")
    case None
    then show ?thesis
      using Cons ub by auto
  next
    case (Some s)
    then show ?thesis
      using Cons.IH [of "AList.update u (windowOf s) ws" result] Cons.prems ub
      by (auto simp: gomap_simps windowOf_def)
  qed
qed simp

lemma charge_quiet:
  assumes "activeRow u r = Some s" "map_of (r_subs r) (s_ID s) = Some s"
  shows "chargeSubscription repoStore u (windowOf s) b (quiet r) =
    (Inr True, quiet (snd (AddSubscriptionUsedBytes (s_ID s) b r)))"
  using assms by (simp add: chargeSubscription_def windowOf_def AddSubscriptionUsedBytes_def)

lemma gm_get_MarkPersisted:
  "gm_get (c_persisted (MarkPersisted v b c)) u 0 =
     (if u = v \<and> b \<noteq> 0 \<and> v \<noteq> '''' then wrap64 (gm_get (c_persisted c) u 0 + b) else gm_get (c_persisted c) u 0)"
  by (simp add: MarkPersisted_def persistedFor_def Let_def)

section \<open>Charging one row leaves the others alone\<close>

definition charged :: "int \<Rightarrow> UserSubscription \<Rightarrow> UserSubscription" where
  "charged b s = s\<lparr>s_PeriodUsedBytes := max 0 (s_PeriodUsedBytes s + b)\<rparr>"

lemma charged_sel [simp]:
  "s_ID (charged b s) = s_ID s" "s_UserID (charged b s) = s_UserID s" "s_Status (charged b s) = s_Status s"
  "s_PeriodStartNs (charged b s) = s_PeriodStartNs s"
  "s_PeriodUsedBytes (charged b s) = max 0 (s_PeriodUsedBytes s + b)" "windowOf (charged b s) = windowOf s"
  by (simp_all add: charged_def windowOf_def)

lemma activeRow_charge:
  assumes inv: "subs_inv r" and s: "activeRow u r = Some s"
  shows "activeRow v (snd (AddSubscriptionUsedBytes (s_ID s) b r)) =
    (if v = u then Some (charged b s) else activeRow v r)"
proof -
  let ?r = "snd (AddSubscriptionUsedBytes (s_ID s) b r)"
  have s': "map_of (r_subs r) (s_ID s) = Some s" "s_UserID s = u" "active_sub s"
    using s by (simp_all add: activeRow_Some_iff [OF inv])
  have look: "map_of (r_subs ?r) = (map_of (r_subs r))(s_ID s \<mapsto> charged b s)"
    using s'(1) by (simp add: AddSubscriptionUsedBytes_def charged_def gomap_simps)
  note iff = activeRow_Some_iff [OF inv] activeRow_Some_iff [OF subs_inv_row_writers(1) [OF inv]]
  show ?thesis
  proof (cases "v = u")
    case True
    then show ?thesis
      using s' by (simp add: iff look)
  next
    case False
    have "activeRow v ?r = Some t \<longleftrightarrow> activeRow v r = Some t" for t
      using False s' by (auto simp: iff look split: if_splits)
    then show ?thesis
      using False by (metis option.exhaust)
  qed
qed

lemma chargeAll_quiet:
  assumes "subs_inv r" "gm_wf perUser"
    and "\<And>v w. map_of ws v = Some w \<Longrightarrow> \<exists>t. activeRow v r = Some t \<and> w = windowOf t"
    and "chargeAll repoStore ws perUser (result, c, quiet r) = (result', c', st')"
    and "activeRow u r = Some s" "map_of ws u = Some (windowOf s) \<or> u \<notin> gm_keys perUser"
  shows "\<exists>r'. st' = quiet r' \<and> subs_inv r' \<and>
    activeRow u r' = Some (case map_of perUser u of None \<Rightarrow> s | Some b \<Rightarrow> charged b s) \<and>
    (u \<noteq> '''' \<longrightarrow> gm_get (c_persisted c') u 0 =
      (case map_of perUser u of None \<Rightarrow> gm_get (c_persisted c) u 0
       | Some b \<Rightarrow> if b = 0 then gm_get (c_persisted c) u 0 else wrap64 (gm_get (c_persisted c) u 0 + b)))"
  using assms
proof (induction perUser arbitrary: result c r s)
  case Nil
  then show ?case by auto
next
  case (Cons ub perUser)
  obtain v b where ub: "ub = (v, b)"
    by force
  have fresh: "map_of perUser v = None" "v \<notin> gm_keys perUser"
    using Cons.prems(2) ub by (simp_all add: map_of_eq_None_iff)
  show ?case
  proof (cases "map_of ws v")
    case None
    then show ?thesis
      using Cons.IH [OF Cons.prems(1) _ Cons.prems(3) _ Cons.prems(5)] Cons.prems(2,4,6) ub by auto
  next
    case (Some w)
    then obtain t where t: "activeRow v r = Some t" "w = windowOf t"
      using Cons.prems(3) by blast
    let ?r = "snd (AddSubscriptionUsedBytes (s_ID t) b r)" and ?c = "MarkPersisted v b c"
    have row: "map_of (r_subs r) (s_ID t) = Some t"
      using t(1) by (simp add: activeRow_Some_iff [OF Cons.prems(1)])
    note act = activeRow_charge [OF Cons.prems(1) t(1), of _ b]
    have run: "chargeAll repoStore ws perUser
        (result\<lparr>fr_Subscriptions := fr_Subscriptions result + 1\<rparr>, ?c, quiet ?r) = (result', c', st')"
      using Cons.prems(4) Some ub t charge_quiet [OF t(1) row, of b] by simp
    have windows: "\<exists>t'. activeRow v' ?r = Some t' \<and> w' = windowOf t'" if "map_of ws v' = Some w'" for v' w'
      using Cons.prems(3) [OF that] t by (auto simp: act)
    show ?thesis
    proof (cases "v = u")
      case True
      then have "activeRow u ?r = Some (charged b s)"
        using act Cons.prems(5) t by simp
      from Cons.IH [OF subs_inv_row_writers(1) [OF Cons.prems(1)] _ windows run this] show ?thesis
        using True fresh Cons.prems(2) ub by (auto simp: gm_get_MarkPersisted)
    next
      case False
      then have "activeRow u ?r = Some s"
        using act Cons.prems(5) t by simp
      from Cons.IH [OF subs_inv_row_writers(1) [OF Cons.prems(1)] _ windows run this] show ?thesis
        using False Cons.prems(2,6) ub by (auto simp: gm_get_MarkPersisted split: option.splits)
    qed
  qed
qed

section \<open>Bytes of one user\<close>

definition userBytesOf :: "string \<Rightarrow> CounterKey \<Rightarrow> Delta \<Rightarrow> int" where
  "userBytesOf u k d = (if ck_UserID k = u then IngressBytes d + EgressBytes d else 0)"

definition pend_user :: "string \<Rightarrow> Counters \<Rightarrow> int" where
  "pend_user u c = gm_sum (\<lambda>k kc. userBytesOf u k (counterDelta kc)) (c_entries c)"

definition nonneg_buckets :: "string \<Rightarrow> Counters \<Rightarrow> bool" where
  "nonneg_buckets u c \<longleftrightarrow> (\<forall>k kc. map_of (c_entries c) k = Some kc \<longrightarrow> ck_UserID k = u \<longrightarrow>
     0 \<le> kc_ingress kc \<and> 0 \<le> kc_egress kc)"

lemma perUser_fold:
  assumes "u \<noteq> ''''"
  shows "in64 (gm_get m u 0) \<Longrightarrow>
    gm_get (fold (\<lambda>(key, d) m. if ck_UserID key \<noteq> '''' then atomicAdd m (ck_UserID key) (Total d) else m) drained m) u 0
      = wrap64 (gm_get m u 0 + gm_sum (userBytesOf u) drained)"
proof (induction drained arbitrary: m)
  case (Cons e drained)
  obtain key d where e: "e = (key, d)"
    by force
  show ?case
  proof (cases "ck_UserID key = u")
    case True
    then show ?thesis
      using assms Cons.IH [of "atomicAdd m u (Total d)"]
      by (simp add: e userBytesOf_def Total_def wrap_simps add.assoc)
  next
    case False
    then have "in64 (gm_get (atomicAdd m (ck_UserID key) (Total d)) u 0)"
      using Cons.prems by simp
    then show ?thesis
      using False Cons.IH [of m] Cons.IH [of "atomicAdd m (ck_UserID key) (Total d)"] Cons.prems
      by (simp add: e userBytesOf_def)
  qed
qed simp

lemma perUserTotals_get:
  "u \<noteq> '''' \<Longrightarrow> gm_get (perUserTotals drained) u 0 = wrap64 (gm_sum (userBytesOf u) drained)"
  using perUser_fold [of u "[]" drained] by (simp add: perUserTotals_def in64_def)

lemma gm_wf_perUserTotals [simp]: "gm_wf (perUserTotals drained)"
proof -
  have "gm_wf m \<Longrightarrow> gm_wf (fold (\<lambda>(key, d) m. if ck_UserID key \<noteq> '''' then atomicAdd m (ck_UserID key) (Total d)
      else m) drained m)" for m
    by (induction drained arbitrary: m) auto
  then show ?thesis
    by (simp add: perUserTotals_def)
qed

lemma pend_user_bounds:
  assumes "gm_wf (c_entries c)" "nonneg_buckets u c"
  shows "0 \<le> pend_user u c"
    and "map_of (c_entries c) k = Some kc \<Longrightarrow> ck_UserID k = u \<Longrightarrow> kc_ingress kc + kc_egress kc \<le> pend_user u c"
proof -
  have nonneg: "0 \<le> gm_sum (\<lambda>k kc. userBytesOf u k (counterDelta kc)) m" if "set m \<subseteq> set (c_entries c)" for m
    using that assms by (intro gm_sum_nonneg)
      (auto simp: userBytesOf_def counterDelta_def nonneg_buckets_def map_of_eq_Some_iff)
  then show "0 \<le> pend_user u c"
    by (simp add: pend_user_def)
  assume "map_of (c_entries c) k = Some kc" "ck_UserID k = u"
  then show "kc_ingress kc + kc_egress kc \<le> pend_user u c"
    using gm_sum_delete [OF assms(1), of "\<lambda>k kc. userBytesOf u k (counterDelta kc)" k]
      nonneg [of "AList.delete k (c_entries c)"]
    by (simp add: pend_user_def userBytesOf_def counterDelta_def AList.delete_eq)
qed

section \<open>The invariant of one user's accounting\<close>

text \<open>\<open>total\<close> is the traffic of the user in the current period.\<close>

definition quota_inv :: "string \<Rightarrow> int \<Rightarrow> Counters \<times> StateRepo \<Rightarrow> bool" where
  "quota_inv u n w \<longleftrightarrow> (case w of (c, r) \<Rightarrow>
     u \<noteq> '''' \<and> counters_inv c \<and> subs_inv r \<and> nonneg_buckets u c \<and> 0 \<le> n \<and> in64 n \<and>
     (\<exists>s. activeRow u r = Some s \<and> 0 \<le> s_PeriodUsedBytes s \<and>
        gm_get (c_persisted c) u 0 = s_PeriodUsedBytes s \<and>
        gm_get (c_users c) u 0 = n \<and> s_PeriodUsedBytes s + pend_user u c = n))"

lemma drain_all_facts:
  assumes "Drain (Keys c) c = (drained, c1)" "counters_inv c"
  shows "counters_inv c1" "c_entries c1 = []" "c_users c1 = c_users c" "c_persisted c1 = c_persisted c"
    and "gm_sum (userBytesOf u) drained = pend_user u c"
proof -
  have c1: "c1 = snd (drainLoop (Keys c) [] c)"
    using assms(1) by (simp add: Drain_def)
  then show "c_users c1 = c_users c" "c_persisted c1 = c_persisted c"
    by simp_all
  show "counters_inv c1" "c_entries c1 = []"
    using assms counters_inv_step [of c "OpDrain (Keys c)"] Drain_all_empty [of c] by simp_all
  show "gm_sum (userBytesOf u) drained = pend_user u c"
    using Drain_all_sum [of c "userBytesOf u"] counters_invD(1) [OF assms(2)] assms(1)
    by (simp add: pend_user_def userBytesOf_def zeroDelta_def)
qed

lemma quota_written:
  assumes inv: "subs_inv r" and u: "u \<noteq> ''''" and s: "activeRow u r = Some s"
    and bytes: "gm_get (perUserTotals drained) u 0 = n" and n: "0 \<le> n" "0 \<le> s_PeriodUsedBytes s"
      "in64 (s_PeriodUsedBytes s + n)"
    and mark: "gm_get (c_persisted c1) u 0 = s_PeriodUsedBytes s"
    and snap: "snapshotWindows repoStore (perUserTotals drained) ([], result, quiet r) = (ws, result1, st2)"
    and charge: "chargeAll repoStore ws (perUserTotals drained) (result1, c1, st2) = (result2, c', st')"
  shows "subs_inv (db_repo st') \<and>
    (\<exists>s'. activeRow u (db_repo st') = Some s' \<and> s_PeriodUsedBytes s' = s_PeriodUsedBytes s + n \<and>
       gm_get (c_persisted c') u 0 = s_PeriodUsedBytes s + n)"
proof -
  note snap = snapshot_quiet [OF snap]
  have charge: "chargeAll repoStore ws (perUserTotals drained) (result1, c1, quiet r) = (result2, c', st')"
    using charge snap by simp
  have windows: "\<exists>t. activeRow v r = Some t \<and> w = windowOf t" if "map_of ws v = Some w" for v w
    using that snap [of v] by (auto split: if_splits)
  have mine: "map_of ws u = Some (windowOf s) \<or> u \<notin> gm_keys (perUserTotals drained)"
    using snap [of u] s by (auto split: if_splits)
  obtain r' where r': "st' = quiet r'" "subs_inv r'"
    "activeRow u r' = Some (case map_of (perUserTotals drained) u of None \<Rightarrow> s | Some b \<Rightarrow> charged b s)"
    "gm_get (c_persisted c') u 0 = (case map_of (perUserTotals drained) u of
       None \<Rightarrow> gm_get (c_persisted c1) u 0
     | Some b \<Rightarrow> if b = 0 then gm_get (c_persisted c1) u 0 else wrap64 (gm_get (c_persisted c1) u 0 + b))"
    using chargeAll_quiet [OF inv gm_wf_perUserTotals windows charge s mine] u by auto
  show ?thesis
  proof (cases "map_of (perUserTotals drained) u")
    case None
    then show ?thesis
      using r' bytes mark by (simp add: gm_get_def)
  next
    case (Some b)
    then have "b = n"
      using bytes by (simp add: gm_get_def)
    then show ?thesis
      using Some r' mark n by simp
  qed
qed

lemma quota_flush:
  assumes "quota_inv u n (c, r)" "FlushOnce repoStore clock nowNs c (quiet r) = (res, c', st')"
  shows "quota_inv u n (c', db_repo st')"
proof -
  obtain drained c1 where drain: "Drain (Keys c) c = (drained, c1)"
    by force
  obtain s where u: "u \<noteq> ''''" and inv: "counters_inv c" "subs_inv r" "nonneg_buckets u c" "0 \<le> n" "in64 n"
    and s: "activeRow u r = Some s" "0 \<le> s_PeriodUsedBytes s" "gm_get (c_persisted c) u 0 = s_PeriodUsedBytes s"
      "gm_get (c_users c) u 0 = n" "s_PeriodUsedBytes s + pend_user u c = n"
    using assms(1) by (auto simp: quota_inv_def)
  note c1 = drain_all_facts [OF drain inv(1)]
  have pend: "0 \<le> pend_user u c" "in64 (pend_user u c)"
    using pend_user_bounds(1) [OF counters_invD(1) [OF inv(1)] inv(3)] s inv(5) by (simp_all add: in64_def)
  then have bytes: "gm_get (perUserTotals drained) u 0 = pend_user u c"
    using perUserTotals_get [OF u, of drained] c1(5) by simp
  show ?thesis
    using assms(2) drain
  proof (cases rule: FlushOnce_cases)
    case idle
    then show ?thesis
      using u inv s c1 by (simp add: quota_inv_def nonneg_buckets_def pend_user_def)
  next
    case (failed e)
    then show ?thesis by simp
  next
    case (written st1 result ws result1 st2 result2)
    let ?r = "snd (UpsertUsageHourly (flushRows (hourOf clock nowNs) drained) r)"
    have st1: "st1 = quiet ?r"
      using written(1) by simp
    have "subs_inv ?r" "activeRow u ?r = Some s"
      using inv(2) s(1) by (simp_all add: UpsertUsageHourly_def activeRow_def subs_inv_def foreign_keys_ok_def)
    from quota_written [OF this(1) u this(2) bytes pend(1) s(2) _ _ written(3) [unfolded st1] written(4)]
    show ?thesis
      using chargeAll_frame [OF written(4)] u inv s c1
      by (auto simp: quota_inv_def nonneg_buckets_def pend_user_def)
  qed
qed

lemma pend_user_Add_other:
  assumes "counters_inv c" "ck_UserID key \<noteq> u"
  shows "pend_user u (Add key d c) = pend_user u c" "nonneg_buckets u c \<Longrightarrow> nonneg_buckets u (Add key d c)"
    and "gm_get (c_users (Add key d c)) u 0 = gm_get (c_users c) u 0"
  using assms counters_invD(1) [OF assms(1)]
  by (auto simp: pend_user_def Add_entries gm_sum_update userBytesOf_def nonneg_buckets_def gomap_simps Add_def Let_def
      split: option.splits if_splits)

lemma Add_zero [simp]: "Add key zeroDelta c = c"
  by (simp add: Add_def)

lemma Add_persisted [simp]: "c_persisted (Add key d c) = c_persisted c"
  by (simp add: Add_def Let_def)

lemma pend_user_Add_mine:
  assumes inv: "counters_inv c" "nonneg_buckets (ck_UserID key) c" and u: "ck_UserID key = u"
    and d: "0 \<le> IngressBytes d" "0 \<le> EgressBytes d" "in64 (pend_user u c + (IngressBytes d + EgressBytes d))"
  shows "pend_user u (addToBuckets key d c) = pend_user u c + (IngressBytes d + EgressBytes d)"
    and "nonneg_buckets u (addToBuckets key d c)"
proof -
  define kc where "kc = gm_get (c_entries c) key (freshCounter key)"
  note wf = counters_invD(1) [OF inv(1)]
  have kc: "0 \<le> kc_ingress kc" "0 \<le> kc_egress kc" "kc_ingress kc + kc_egress kc \<le> pend_user u c"
  proof (atomize (full), cases "map_of (c_entries c) key")
    case None
    then show "0 \<le> kc_ingress kc \<and> 0 \<le> kc_egress kc \<and> kc_ingress kc + kc_egress kc \<le> pend_user u c"
      using pend_user_bounds(1) [OF wf inv(2)] u by (simp add: kc_def gm_get_def freshCounter_def)
  next
    case (Some kc')
    then show "0 \<le> kc_ingress kc \<and> 0 \<le> kc_egress kc \<and> kc_ingress kc + kc_egress kc \<le> pend_user u c"
      using inv(2) pend_user_bounds(2) [OF wf inv(2) Some] u by (simp add: kc_def gm_get_def nonneg_buckets_def)
  qed
  have new: "kc_ingress (addDelta kc d) = kc_ingress kc + IngressBytes d"
      "kc_egress (addDelta kc d) = kc_egress kc + EgressBytes d"
    using kc d by (simp_all add: addDelta_def in64_def)
  then have bytes: "userBytesOf u key (counterDelta (addDelta kc d)) =
      kc_ingress kc + kc_egress kc + (IngressBytes d + EgressBytes d)"
    using u by (simp add: userBytesOf_def counterDelta_def del: counterDelta_addDelta)
  have old: "(case map_of (c_entries c) key of None \<Rightarrow> 0 | Some w \<Rightarrow> userBytesOf u key (counterDelta w)) =
      kc_ingress kc + kc_egress kc"
    using u by (simp add: kc_def gm_get_def freshCounter_def userBytesOf_def counterDelta_def split: option.splits)
  show "pend_user u (addToBuckets key d c) = pend_user u c + (IngressBytes d + EgressBytes d)"
    using gm_sum_update [OF wf, of "\<lambda>k kc. userBytesOf u k (counterDelta kc)" key "addDelta kc d"] old bytes
    by (simp add: pend_user_def kc_def [symmetric] del: counterDelta_addDelta)
  show "nonneg_buckets u (addToBuckets key d c)"
    using inv(2) kc new d u by (auto simp: nonneg_buckets_def gomap_simps kc_def [symmetric])
qed

lemma quota_add:
  assumes q: "quota_inv u n (c, r)" and d: "0 \<le> IngressBytes d" "0 \<le> EgressBytes d"
    and fits: "in64 (n + userBytesOf u key d)"
  shows "quota_inv u (n + userBytesOf u key d) (Add key d c, r)"
proof -
  obtain s where u: "u \<noteq> ''''" and inv: "counters_inv c" "subs_inv r" "nonneg_buckets u c" "0 \<le> n" "in64 n"
    and s: "activeRow u r = Some s" "0 \<le> s_PeriodUsedBytes s" "gm_get (c_persisted c) u 0 = s_PeriodUsedBytes s"
      "gm_get (c_users c) u 0 = n" "s_PeriodUsedBytes s + pend_user u c = n"
    using q by (auto simp: quota_inv_def)
  show ?thesis
  proof (cases "d = zeroDelta \<or> ck_UserID key \<noteq> u")
    case True
    then have "userBytesOf u key d = 0"
      by (auto simp: userBytesOf_def zeroDelta_def)
    then show ?thesis
      using q True pend_user_Add_other [OF inv(1), of key u d] inv_Add [OF inv(1), of key d]
      by (cases "d = zeroDelta") (auto simp: quota_inv_def)
  next
    case False
    then have True: "ck_UserID key = u \<and> d \<noteq> zeroDelta"
      by simp
    have "in64 (pend_user u c + (IngressBytes d + EgressBytes d))" and t: "Total d = IngressBytes d + EgressBytes d"
      using fits s d inv(3) pend_user_bounds(1) [OF counters_invD(1) [OF inv(1)] inv(3)] True
      by (auto simp: userBytesOf_def Total_def in64_def)
    note mine = pend_user_Add_mine [OF inv(1) _ _ d this(1)]
    have same: "pend_user u (Add key d c) = pend_user u (addToBuckets key d c)"
        "nonneg_buckets u (Add key d c) = nonneg_buckets u (addToBuckets key d c)"
      using True by (simp_all add: pend_user_def nonneg_buckets_def Add_entries)
    have users: "gm_get (c_users (Add key d c)) u 0 = n + (IngressBytes d + EgressBytes d)"
      using True u s(4) fits inv(5) t by (simp add: Add_def Let_def userBytesOf_def)
    show ?thesis
      using True u inv s d fits users mine same inv_Add [OF inv(1), of key d]
      by (auto simp: quota_inv_def userBytesOf_def)
  qed
qed

section \<open>Seeding from the repository\<close>

lemma active_users_distinct:
  assumes "subs_inv r"
  shows "distinct (map s_UserID (filter active_sub (map snd (r_subs r))))"
proof -
  note D = subs_invD [OF assms]
  have row: "map_of (r_subs r) (s_ID s) = Some s" if "s \<in> snd ` set (r_subs r)" for s
    using that D(5) by (auto simp: map_of_eq_Some_iff [OF D(3)])
  have "inj_on snd (set (r_subs r))"
    using D(5) by (intro inj_onI prod_eqI) (metis D(3) map_of_eq_Some_iff prod.collapse)
  then have "distinct (map snd (r_subs r))"
    using D(3) by (simp add: distinct_map)
  moreover have "inj_on s_UserID (set (filter active_sub (map snd (r_subs r))))"
  proof (rule inj_onI)
    fix s t
    assume *: "s \<in> set (filter active_sub (map snd (r_subs r)))" "t \<in> set (filter active_sub (map snd (r_subs r)))"
      "s_UserID s = s_UserID t"
    then have rows: "map_of (r_subs r) (s_ID s) = Some s" "map_of (r_subs r) (s_ID t) = Some t"
      using row by simp_all
    have "s_ID s = s_ID t"
      by (rule one_activeD [OF D(4) rows]) (use * in simp_all)
    then show "s = t"
      by (metis rows option.inject)
  qed
  ultimately show ?thesis
    by (simp add: distinct_map)
qed

lemma seedable_distinct:
  assumes "subs_inv r"
  shows "distinct (map s_UserID (filter (seedable nowNs) (ListUserSubscriptions r)))"
proof -
  have eq: "filter (seedable nowNs) (filter active_sub xs) = filter (seedable nowNs) xs" for xs
    by (induction xs) (auto simp: seedable_def)
  have "distinct (map s_UserID (filter (seedable nowNs) (filter active_sub (map snd (r_subs r)))))"
    by (rule distinct_map_filter [OF active_users_distinct [OF assms]])
  then show ?thesis
    unfolding eq by (simp add: ListUserSubscriptions_def filter_sort distinct_map)
qed

lemma seedable_row:
  assumes "subs_inv r" "t \<in> set (ListUserSubscriptions r)" "seedable nowNs t"
  shows "activeRow (s_UserID t) r = Some t"
proof -
  obtain i where "(i, t) \<in> set (r_subs r)"
    using assms(2) by (auto simp: ListUserSubscriptions_def)
  then have "map_of (r_subs r) i = Some t" "i = s_ID t"
    using subs_invD(3,5) [OF assms(1)] by (auto simp: map_of_eq_Some_iff)
  then show ?thesis
    using assms(3) by (simp add: activeRow_Some_iff [OF assms(1)] seedable_def)
qed

lemma seed_effect:
  assumes inv: "subs_inv r" and s: "activeRow u r = Some s"
    and mark: "gm_get (c_persisted c) u 0 = s_PeriodUsedBytes s \<or> seedable nowNs s"
  defines "c' \<equiv> snd (SeedFromSubscriptions (ListUserSubscriptions r) nowNs c)"
  shows "gm_get (c_persisted c') u 0 = s_PeriodUsedBytes s"
    and "gm_get (c_users c') u 0 =
      (let restore = wrap64 (s_PeriodUsedBytes s - gm_get (c_persisted c) u 0)
       in if seedable nowNs s \<and> restore > 0 then wrap64 (gm_get (c_users c) u 0 + restore)
          else gm_get (c_users c) u 0)"
proof (atomize (full), cases "seedable nowNs s")
  case True
  have row: "map_of (r_subs r) (s_ID s) = Some s" and u: "s_UserID s = u"
    using s by (simp_all add: activeRow_Some_iff [OF inv])
  have "s \<in> set (ListUserSubscriptions r)"
    using map_of_SomeD [OF row] by (force simp: ListUserSubscriptions_def)
  from seedLoop_user [OF seedable_distinct [OF inv] this True, of "(0, c)"]
  show "gm_get (c_persisted c') u 0 = s_PeriodUsedBytes s \<and> gm_get (c_users c') u 0 =
      (let restore = wrap64 (s_PeriodUsedBytes s - gm_get (c_persisted c) u 0)
       in if seedable nowNs s \<and> restore > 0 then wrap64 (gm_get (c_users c) u 0 + restore)
          else gm_get (c_users c) u 0)"
    using True u by (simp add: c'_def SeedFromSubscriptions_def gm_get_def Let_def)
next
  case False
  have "s_UserID t \<noteq> u" if "t \<in> set (ListUserSubscriptions r)" "seedable nowNs t" for t
    using seedable_row [OF inv that] s False that(2) by auto
  from seedLoop_other [OF this, of "ListUserSubscriptions r" nowNs "(0, c)"]
  show "gm_get (c_persisted c') u 0 = s_PeriodUsedBytes s \<and> gm_get (c_users c') u 0 =
      (let restore = wrap64 (s_PeriodUsedBytes s - gm_get (c_persisted c) u 0)
       in if seedable nowNs s \<and> restore > 0 then wrap64 (gm_get (c_users c) u 0 + restore)
          else gm_get (c_users c) u 0)"
    using False mark by (simp add: c'_def SeedFromSubscriptions_def gm_get_def Let_def)
qed

lemma seed_frame:
  "c_entries (snd (SeedFromSubscriptions subs nowNs c)) = c_entries c"
  "counters_inv c \<Longrightarrow> counters_inv (snd (SeedFromSubscriptions subs nowNs c))"
  using counters_inv_step [of c "OpSeed subs nowNs"] by (simp_all add: SeedFromSubscriptions_def)

lemma quota_seed:
  assumes "quota_inv u n (c, r)"
  shows "quota_inv u n (snd (SeedFromSubscriptions (ListUserSubscriptions r) nowNs c), r)"
proof -
  obtain s where s: "activeRow u r = Some s" "gm_get (c_persisted c) u 0 = s_PeriodUsedBytes s" "subs_inv r"
    using assms by (auto simp: quota_inv_def)
  then show ?thesis
    using assms seed_effect [OF s(3,1), of c nowNs]
    by (auto simp: quota_inv_def nonneg_buckets_def pend_user_def seed_frame)
qed

lemma quota_restart:
  assumes "subs_inv r" "u \<noteq> ''''" "activeRow u r = Some s" "0 \<le> s_PeriodUsedBytes s" "in64 (s_PeriodUsedBytes s)"
    and "seedable nowNs s \<or> s_PeriodUsedBytes s = 0"
  shows "quota_inv u (s_PeriodUsedBytes s)
    (snd (SeedFromSubscriptions (ListUserSubscriptions r) nowNs NewCounters), r)"
proof -
  have "gm_get (c_persisted NewCounters) u 0 = 0" "gm_get (c_users NewCounters) u 0 = 0" "c_entries NewCounters = []"
    by (simp_all add: NewCounters_def)
  then show ?thesis
    using assms seed_effect [OF assms(1,3), of NewCounters nowNs]
      counters_inv_New
    by (auto simp: quota_inv_def nonneg_buckets_def pend_user_def seed_frame Let_def split: if_splits)
qed

section \<open>Runs\<close>

datatype quota_op = QAdd CounterKey Delta | QFlush int int | QSeed int

fun quota_step :: "quota_op \<Rightarrow> Counters \<times> StateRepo \<Rightarrow> Counters \<times> StateRepo" where
  "quota_step (QAdd key d) (c, r) = (Add key d c, r)"
| "quota_step (QFlush clock nowNs) (c, r) =
     (let (_, c', d) = FlushOnce repoStore clock nowNs c (quiet r) in (c', db_repo d))"
| "quota_step (QSeed nowNs) (c, r) = (snd (SeedFromSubscriptions (ListUserSubscriptions r) nowNs c), r)"

fun quota_op_ok :: "quota_op \<Rightarrow> bool" where
  "quota_op_ok (QAdd key d) \<longleftrightarrow> 0 \<le> IngressBytes d \<and> 0 \<le> EgressBytes d"
| "quota_op_ok _ \<longleftrightarrow> True"

fun user_traffic :: "string \<Rightarrow> quota_op \<Rightarrow> int" where
  "user_traffic u (QAdd key d) = userBytesOf u key d"
| "user_traffic u _ = 0"

lemma user_traffic_nonneg: "quota_op_ok op \<Longrightarrow> 0 \<le> user_traffic u op"
  by (cases op) (simp_all add: userBytesOf_def)

lemma quota_step_inv:
  assumes "quota_inv u n w" "quota_op_ok op" "in64 (n + user_traffic u op)"
  shows "quota_inv u (n + user_traffic u op) (quota_step op w)"
proof -
  obtain c r where w: "w = (c, r)"
    by force
  show ?thesis
  proof (cases op)
    case (QFlush clock nowNs)
    obtain res c' d where flush: "FlushOnce repoStore clock nowNs c (quiet r) = (res, c', d)"
      by (metis prod_cases3)
    then show ?thesis
      using quota_flush [OF _ flush, of u n] assms w QFlush by simp
  qed (use assms w quota_add quota_seed in auto)
qed

lemma quota_run_inv:
  assumes "quota_inv u n w" "list_all quota_op_ok ops" "in64 (n + sum_list (map (user_traffic u) ops))"
  shows "quota_inv u (n + sum_list (map (user_traffic u) ops)) (fold quota_step ops w)"
  using assms
proof (induction ops arbitrary: n w)
  case (Cons op ops)
  have n: "0 \<le> n"
    using Cons.prems(1) by (cases w) (simp add: quota_inv_def)
  have "0 \<le> sum_list (map (user_traffic u) ops)"
    using Cons.prems(2) by (intro sum_list_nonneg) (auto simp: list_all_iff user_traffic_nonneg)
  then have "in64 (n + user_traffic u op)"
    using Cons.prems(2,3) n user_traffic_nonneg [of op u] by (simp add: in64_def)
  then have "quota_inv u (n + user_traffic u op) (quota_step op w)"
    using Cons.prems quota_step_inv by simp
  from Cons.IH [OF this] show ?case
    using Cons.prems by (simp add: add.assoc)
qed simp

text \<open>
  C9. What the quota sees is what is billed plus what is in flight. From a restart that seeds the
  counters, through any sequence of counted traffic, flush passes and repeated seeds within one
  period, the user's aggregate is the period usage found on disk plus all traffic counted since,
  and it is at every moment the sum of the period usage now on disk and the unflushed buckets.
\<close>

theorem quota_matches_disk:
  assumes "subs_inv r" "u \<noteq> ''''" "activeRow u r = Some s" "0 \<le> s_PeriodUsedBytes s"
    and "seedable nowNs s \<or> s_PeriodUsedBytes s = 0"
    and "list_all quota_op_ok ops" "in64 (s_PeriodUsedBytes s + sum_list (map (user_traffic u) ops))"
  defines "start \<equiv> (snd (SeedFromSubscriptions (ListUserSubscriptions r) nowNs NewCounters), r)"
  shows "case fold quota_step ops start of (c', r') \<Rightarrow>
    UserBytes c' u = s_PeriodUsedBytes s + sum_list (map (user_traffic u) ops) \<and>
    (\<exists>s'. activeRow u r' = Some s' \<and> UserBytes c' u = s_PeriodUsedBytes s' + pend_user u c')"
proof -
  have "0 \<le> sum_list (map (user_traffic u) ops)"
    using assms(6) by (intro sum_list_nonneg) (auto simp: list_all_iff user_traffic_nonneg)
  then have "in64 (s_PeriodUsedBytes s)"
    using assms(4,7) by (simp add: in64_def)
  then have "quota_inv u (s_PeriodUsedBytes s) start"
    unfolding start_def using quota_restart assms(1-5) by blast
  from quota_run_inv [OF this assms(6,7)] show ?thesis
    by (auto simp: quota_inv_def UserBytes_def split: prod.splits)
qed

definition exampleRepo :: "int \<Rightarrow> StateRepo" where
  "exampleRepo used = emptyRepo\<lparr>r_users := [(''u1'', ''active'')],
     r_plans := [(''p1'', \<lparr>p_ID = ''p1'', p_Name = ''plan'', p_Platforms = [], p_IPTiers = [], p_TrafficBytes = 1000,
       p_Period = ''30d'', p_MaxConcurrent = 0, p_MaxRPS = 0, p_MaxBandwidthBps = 0, p_MaxKeys = 0,
       p_DurationDays = 30, p_PriceMicro = 0, p_Status = ''active''\<rparr>)],
     r_subs := [(''s1'', exampleSubscription ''s1'' ''u1'' used)]\<rparr>"

lemma exampleRepo_inv: "subs_inv (exampleRepo used)"
  by (simp add: subs_inv_def exampleRepo_def emptyRepo_def one_active_def exampleSubscription_def status_check_def
      foreign_keys_ok_def)

lemma exampleRepo_active: "activeRow ''u1'' (exampleRepo used) = Some (exampleSubscription ''s1'' ''u1'' used)"
  by (simp add: activeRow_def exampleRepo_def exampleSubscription_def)

theorem quota_matches_disk_witness:
  "case fold quota_step [QAdd exampleKey (exampleDelta 100), QFlush 9 0, QSeed 10, QAdd exampleKey (exampleDelta 7)]
     (snd (SeedFromSubscriptions (ListUserSubscriptions (exampleRepo 50)) 5 NewCounters), exampleRepo 50) of
   (c', r') \<Rightarrow> UserBytes c' ''u1'' = 157"
proof -
  let ?ops = "[QAdd exampleKey (exampleDelta 100), QFlush 9 0, QSeed 10, QAdd exampleKey (exampleDelta 7)]"
  have "case fold quota_step ?ops
     (snd (SeedFromSubscriptions (ListUserSubscriptions (exampleRepo 50)) 5 NewCounters), exampleRepo 50) of
    (c', r') \<Rightarrow> UserBytes c' ''u1'' = s_PeriodUsedBytes (exampleSubscription ''s1'' ''u1'' 50) +
        sum_list (map (user_traffic ''u1'') ?ops) \<and>
      (\<exists>s'. activeRow ''u1'' r' = Some s' \<and> UserBytes c' ''u1'' = s_PeriodUsedBytes s' + pend_user ''u1'' c')"
    by (rule quota_matches_disk [OF exampleRepo_inv _ exampleRepo_active])
      (simp_all add: exampleSubscription_def seedable_def exampleDelta_def exampleKey_def userBytesOf_def in64_def)
  then show ?thesis
    by (auto simp: exampleSubscription_def exampleDelta_def exampleKey_def userBytesOf_def split: prod.splits)
qed

section \<open>A rollover between the re-read and the charge\<close>

text \<open>
  The guard of \<open>chargeSubscription\<close> is not atomic on the repository, which does not implement
  \<open>PeriodGuardedFlushStore\<close>: when a rollover runs between the re-read of the window and the
  addition, the bytes of the closed period are charged to the period that just began (start 50).
\<close>

theorem recheck_race_charges_new_period:
  "let script = [([], False), ([], False), ([], False), ([EnvSubs (OpResetPeriod ''s1'' 1 50)], False)];
       (_, c', d) = FlushOnce repoStore 9 0 (Add exampleKey (exampleDelta 100) NewCounters)
         \<lparr>db_repo = exampleRepo 0, db_script = script\<rparr>
   in map_option (\<lambda>s. (s_PeriodStartNs s, s_PeriodUsedBytes s)) (activeRow ''u1'' (db_repo d)) = Some (50, 100)"
  by code_simp

end
