(* ===== verification/Period.thy ===== *)
theory Period
  imports Quota_Ledger
begin

text \<open>
  Period rollover, \<open>internal/usage/period.go\<close>: the grammar of period names, the arithmetic that moves
  a period start forward, and the pass that resets the usage on disk and in memory.

  Instants are nanoseconds since the Unix epoch. The parts of Go's \<open>time\<close> package the source uses
  (the civil date of an instant, \<open>time.Date\<close>, \<open>AddDate\<close>-free month arithmetic) are modelled on the
  proleptic Gregorian calendar from 1970 on, with UTC as the process's local zone; period starts are
  positive, so no earlier date occurs. Decoding the plan snapshot (\<open>encoding/json\<close>) is a parameter
  that answers the period of the snapshot or nothing.
\<close>

section \<open>Civil dates\<close>

definition leap :: "int \<Rightarrow> bool" where
  "leap y \<longleftrightarrow> y mod 4 = 0 \<and> (y mod 100 \<noteq> 0 \<or> y mod 400 = 0)"

text \<open>Months are counted from January 1970; \<open>monthLen\<close> is Go's \<open>daysIn\<close> of that month.\<close>

definition monthLen :: "int \<Rightarrow> int" where
  "monthLen i =
     (let m = i mod 12 + 1; y = 1970 + i div 12
      in if m = 2 then (if leap y then 29 else 28)
         else if m = 4 \<or> m = 6 \<or> m = 9 \<or> m = 11 then 30 else 31)"

lemma monthLen_bounds: "28 \<le> monthLen i" "monthLen i \<le> 31"
  by (simp_all add: monthLen_def Let_def)

function monthFrom :: "int \<Rightarrow> int \<Rightarrow> int \<times> int" where
  "monthFrom i d = (if d < monthLen i then (i, d) else monthFrom (i + 1) (d - monthLen i))"
  by auto
termination
proof (relation "measure (\<lambda>(_, d). nat d)")
  show "((i + 1, d - monthLen i), (i, d)) \<in> measure (\<lambda>(_, d). nat d)" if "\<not> d < monthLen i" for i d
    using that monthLen_bounds(1) [of i] by simp
qed simp

declare monthFrom.simps [simp del]

record Time =
  t_MonthIx :: int
  t_DayIx :: int
  t_NsOfDay :: int

definition timeUnix :: "int \<Rightarrow> Time" where
  "timeUnix ns = (let (i, d) = monthFrom 0 (ns div dayNs)
     in \<lparr>t_MonthIx = i, t_DayIx = d, t_NsOfDay = ns mod dayNs\<rparr>)"

definition Year :: "Time \<Rightarrow> int" where
  "Year t = 1970 + t_MonthIx t div 12"

definition Month :: "Time \<Rightarrow> int" where
  "Month t = t_MonthIx t mod 12 + 1"

definition Day :: "Time \<Rightarrow> int" where
  "Day t = t_DayIx t + 1"

definition dateOf :: "int \<Rightarrow> int \<Rightarrow> int \<Rightarrow> int \<Rightarrow> Time" where
  "dateOf y m day ns = \<lparr>t_MonthIx = (y - 1970) * 12 + (m - 1), t_DayIx = day - 1, t_NsOfDay = ns\<rparr>"

text \<open>Days before a month, counted from the epoch.\<close>

fun monthStartN :: "nat \<Rightarrow> int" where
  "monthStartN 0 = 0"
| "monthStartN (Suc n) = monthStartN n + monthLen (int n)"

definition monthStart :: "int \<Rightarrow> int" where
  "monthStart i = monthStartN (nat i)"

definition UnixNano :: "Time \<Rightarrow> int" where
  "UnixNano t = (monthStart (t_MonthIx t) + t_DayIx t) * dayNs + t_NsOfDay t"

section \<open>Period names\<close>

abbreviation PeriodOnce :: string where "PeriodOnce \<equiv> ''once''"
abbreviation PeriodDay :: string where "PeriodDay \<equiv> ''day''"
abbreviation PeriodWeek :: string where "PeriodWeek \<equiv> ''week''"
abbreviation PeriodMonth :: string where "PeriodMonth \<equiv> ''month''"
abbreviation DefaultPeriod :: string where "DefaultPeriod \<equiv> ''30d''"

definition maxPeriodDays :: int where
  "maxPeriodDays = 36500"

definition normalizePeriod :: "string \<Rightarrow> string" where
  "normalizePeriod period = ToLower (TrimSpace period)"

fun parseDays :: "string \<Rightarrow> int \<Rightarrow> int option" where
  "parseDays [] days = Some days"
| "parseDays (ch # cs) days =
     (let n = (of_char ch :: int)
      in if n < 48 \<or> n > 57 then None
         else let days' = days * 10 + (n - 48)
              in if days' > maxPeriodDays then None else parseDays cs days')"

definition periodLength :: "string \<Rightarrow> int option" where
  "periodLength period =
     (let normalized = normalizePeriod period
      in if normalized = PeriodDay \<or> normalized = ''1d'' then Some (24 * hourNs)
         else if normalized = PeriodWeek \<or> normalized = ''7d'' then Some (7 * 24 * hourNs)
         else if normalized = '''' then None
         else let trimmed = TrimSuffix normalized ''d''
              in if trimmed = '''' then None
                 else case parseDays trimmed 0 of
                        None \<Rightarrow> None
                      | Some days \<Rightarrow> if days \<le> 0 then None else Some (days * 24 * hourNs))"

definition periodRecognized :: "string \<Rightarrow> bool" where
  "periodRecognized period \<longleftrightarrow> normalizePeriod period = PeriodMonth \<or>
     (case periodLength period of None \<Rightarrow> False | Some len \<Rightarrow> len > 0)"

section \<open>Moving a period start\<close>

definition addMonthsClamped :: "Time \<Rightarrow> int \<Rightarrow> Time" where
  "addMonthsClamped t months =
     (let monthIndex = Month t - 1 + months;
          year = Year t + monthIndex div 12;
          month = monthIndex mod 12 + 1;
          lastDay = monthLen ((year - 1970) * 12 + (month - 1));
          day = (if Day t > lastDay then lastDay else Day t)
      in dateOf year month day (t_NsOfDay t))"

definition advanceByCalendarMonth :: "int \<Rightarrow> int \<Rightarrow> int \<times> bool" where
  "advanceByCalendarMonth currentStartNs nowNs =
     (let start = timeUnix currentStartNs; now = timeUnix nowNs;
          months = (Year now - Year start) * 12 + Month now - Month start
      in if months \<le> 0 then (currentStartNs, False)
         else let candidate = addMonthsClamped start months
              in if UnixNano candidate > nowNs
                 then (let months = months - 1
                       in if months \<le> 0 then (currentStartNs, False)
                          else (UnixNano (addMonthsClamped start months), True))
                 else (UnixNano candidate, True))"

definition advancePeriod :: "int \<Rightarrow> int \<Rightarrow> string \<Rightarrow> int \<times> bool" where
  "advancePeriod currentStartNs nowNs period =
     (if currentStartNs > nowNs then (currentStartNs, False)
      else if normalizePeriod period = PeriodMonth then advanceByCalendarMonth currentStartNs nowNs
      else case periodLength period of
             None \<Rightarrow> (currentStartNs, False)
           | Some len \<Rightarrow>
               if len \<le> 0 then (currentStartNs, False)
               else let elapsed = wrap64 (nowNs - currentStartNs);
                        periods = elapsed sdiv len
                    in if periods = 0 then (currentStartNs, False)
                       else (wrap64 (currentStartNs + wrap64 (periods * len)), True))"

section \<open>The pass\<close>

type_synonym snapshot_period = "string \<Rightarrow> string option"

definition periodFromSnapshot :: "snapshot_period \<Rightarrow> string \<Rightarrow> string" where
  "periodFromSnapshot decode raw0 =
     (let raw = TrimSpace raw0
      in if raw = '''' then ''''
         else case decode raw of None \<Rightarrow> '''' | Some period \<Rightarrow> TrimSpace period)"

definition periodFor :: "snapshot_period \<Rightarrow> StateRepo \<Rightarrow> UserSubscription \<Rightarrow> string" where
  "periodFor decode r sub =
     (let period = periodFromSnapshot decode (s_PlanSnapshotJSON sub)
      in if period \<noteq> '''' then normalizePeriod period
         else if s_PlanID sub = '''' then DefaultPeriod
         else case map_of (r_plans r) (s_PlanID sub) of
                None \<Rightarrow> DefaultPeriod
              | Some plan \<Rightarrow> if p_Period plan = '''' then DefaultPeriod else normalizePeriod (p_Period plan))"

record PeriodPass =
  pp_Checked :: int
  pp_Rolled :: int
  pp_warned :: "(string, string) gomap"

definition warnUnknownPeriod :: "string \<Rightarrow> string \<Rightarrow> (string, string) gomap \<Rightarrow> (string, string) gomap" where
  "warnUnknownPeriod subID period warned =
     (if map_of warned subID = Some period then warned else AList.update subID period warned)"

definition rollOne :: "snapshot_period \<Rightarrow> int \<Rightarrow> UserSubscription \<Rightarrow>
    PeriodPass \<times> Counters \<times> StateRepo \<Rightarrow> PeriodPass \<times> Counters \<times> StateRepo" where
  "rollOne decode nowNs sub st =
     (let (pass, c, r) = st
      in if s_Status sub \<noteq> SubscriptionStatusActive then st
         else let pass1 = pass\<lparr>pp_Checked := pp_Checked pass + 1\<rparr>
              in if s_PeriodStartNs sub \<le> 0 then (pass1, c, r)
                 else let period = periodFor decode r sub
                      in if normalizePeriod period = PeriodOnce then (pass1, c, r)
                         else let (next, rolled) = advancePeriod (s_PeriodStartNs sub) nowNs period
                              in if \<not> rolled
                                 then (if periodRecognized period then (pass1, c, r)
                                       else (pass1\<lparr>pp_warned := warnUnknownPeriod (s_ID sub) period (pp_warned pass1)\<rparr>, c, r))
                                 else (case ResetSubscriptionPeriod (s_ID sub) (s_PeriodStartNs sub) next r of
                                         (Inl _, r1) \<Rightarrow> (pass1, c, r1)
                                       | (Inr _, r1) \<Rightarrow>
                                           (pass1\<lparr>pp_Rolled := pp_Rolled pass1 + 1\<rparr>, ResetUser (s_UserID sub) c, r1)))"

text \<open>
  \<open>rollListed\<close> is the loop over the rows as they were listed; \<open>RunOnce\<close> lists them and, when the
  pass ends, drops the warnings of the rows that are gone.
\<close>

definition rollListed :: "snapshot_period \<Rightarrow> int \<Rightarrow> UserSubscription list \<Rightarrow>
    PeriodPass \<times> Counters \<times> StateRepo \<Rightarrow> PeriodPass \<times> Counters \<times> StateRepo" where
  "rollListed decode nowNs subs st = fold (rollOne decode nowNs) subs st"

definition RunOnce :: "snapshot_period \<Rightarrow> int \<Rightarrow> int \<Rightarrow> (string, string) gomap \<Rightarrow> Counters \<Rightarrow> StateRepo \<Rightarrow>
    PeriodPass \<times> Counters \<times> StateRepo" where
  "RunOnce decode clock nowNs0 warned c r =
     (let nowNs = (if nowNs0 \<le> 0 then clock else nowNs0);
          subs = ListUserSubscriptions r;
          (pass, c1, r1) = rollListed decode nowNs subs (\<lparr>pp_Checked = 0, pp_Rolled = 0, pp_warned = warned\<rparr>, c, r)
      in (pass\<lparr>pp_warned := filter (\<lambda>(i, _). i \<in> set (map s_ID subs)) (pp_warned pass)\<rparr>, c1, r1))"

section \<open>The calendar\<close>

lemma monthStart_0 [simp]: "monthStart 0 = 0"
  by (simp add: monthStart_def)

lemma monthStart_Suc: "0 \<le> i \<Longrightarrow> monthStart (i + 1) = monthStart i + monthLen i"
  by (simp add: monthStart_def nat_add_distrib)

lemma monthStart_mono: "0 \<le> i \<Longrightarrow> i < j \<Longrightarrow> monthStart i + monthLen i \<le> monthStart j"
proof (induction "nat (j - i)" arbitrary: j)
  case (Suc n)
  show ?case
  proof (cases "j = i + 1")
    case True
    then show ?thesis
      using Suc.prems by (simp add: monthStart_Suc)
  next
    case False
    then have "n = nat ((j - 1) - i)" "i < j - 1" "0 \<le> i"
      using Suc.hyps(2) Suc.prems by simp_all
    then have "monthStart i + monthLen i \<le> monthStart (j - 1)"
      using Suc.hyps(1) by blast
    also have "\<dots> \<le> monthStart j"
      using monthStart_Suc [of "j - 1"] monthLen_bounds(1) [of "j - 1"] Suc.prems by simp
    finally show ?thesis .
  qed
qed simp

lemma monthFrom_spec:
  "0 \<le> d \<Longrightarrow> 0 \<le> i \<Longrightarrow> monthFrom i d = (j, e) \<Longrightarrow>
   i \<le> j \<and> 0 \<le> e \<and> e < monthLen j \<and> monthStart j + e = monthStart i + d"
proof (induction i d arbitrary: j e rule: monthFrom.induct)
  case (1 i d)
  show ?case
  proof (cases "d < monthLen i")
    case True
    then show ?thesis
      using 1 by (simp add: monthFrom.simps [of i])
  next
    case False
    then have "monthFrom (i + 1) (d - monthLen i) = (j, e)" "0 \<le> d - monthLen i"
      using 1 by (simp_all add: monthFrom.simps [of i])
    then show ?thesis
      using 1(1) [OF False, of j e] 1(3) monthStart_Suc [of i] by simp
  qed
qed

lemma timeUnix_spec:
  assumes "0 \<le> ns"
  shows "UnixNano (timeUnix ns) = ns" and "0 \<le> t_MonthIx (timeUnix ns)" and "0 \<le> t_DayIx (timeUnix ns)"
    and "t_DayIx (timeUnix ns) < monthLen (t_MonthIx (timeUnix ns))"
    and "0 \<le> t_NsOfDay (timeUnix ns)" and "t_NsOfDay (timeUnix ns) < dayNs"
proof -
  obtain j e where je: "monthFrom 0 (ns div dayNs) = (j, e)"
    by force
  have "0 \<le> ns div dayNs"
    using assms by (simp add: dayNs_def)
  note spec = monthFrom_spec [OF this _ je]
  show "UnixNano (timeUnix ns) = ns"
    using spec je by (simp add: timeUnix_def UnixNano_def)
  show "0 \<le> t_MonthIx (timeUnix ns)" "0 \<le> t_DayIx (timeUnix ns)"
    "t_DayIx (timeUnix ns) < monthLen (t_MonthIx (timeUnix ns))"
    using spec je by (simp_all add: timeUnix_def)
  show "0 \<le> t_NsOfDay (timeUnix ns)" "t_NsOfDay (timeUnix ns) < dayNs"
    using je by (simp_all add: timeUnix_def dayNs_def)
qed

text \<open>An instant in an earlier month is earlier.\<close>

definition valid_time :: "Time \<Rightarrow> bool" where
  "valid_time t \<longleftrightarrow> 0 \<le> t_MonthIx t \<and> 0 \<le> t_DayIx t \<and> t_DayIx t < monthLen (t_MonthIx t) \<and>
     0 \<le> t_NsOfDay t \<and> t_NsOfDay t < dayNs"

lemma valid_timeUnix: "0 \<le> ns \<Longrightarrow> valid_time (timeUnix ns)"
  by (simp add: valid_time_def timeUnix_spec)

lemma UnixNano_month_less:
  assumes "valid_time s" "valid_time t" "t_MonthIx s < t_MonthIx t"
  shows "UnixNano s < UnixNano t"
proof -
  have "monthStart (t_MonthIx s) + t_DayIx s + 1 \<le> monthStart (t_MonthIx t) + t_DayIx t"
    using assms monthStart_mono [of "t_MonthIx s" "t_MonthIx t"] by (simp add: valid_time_def)
  then have "(monthStart (t_MonthIx s) + t_DayIx s + 1) * dayNs \<le> (monthStart (t_MonthIx t) + t_DayIx t) * dayNs"
    by (intro mult_right_mono) (simp_all add: dayNs_def)
  then show ?thesis
    using assms(1,2) by (simp add: UnixNano_def valid_time_def algebra_simps)
qed

lemma months_between: "(Year t - Year s) * 12 + Month t - Month s = t_MonthIx t - t_MonthIx s"
  unfolding Year_def Month_def by presburger

lemma addMonthsClamped_eq:
  "addMonthsClamped t n = \<lparr>t_MonthIx = t_MonthIx t + n,
     t_DayIx = min (t_DayIx t) (monthLen (t_MonthIx t + n) - 1), t_NsOfDay = t_NsOfDay t\<rparr>"
proof -
  have ix: "(Year t + (Month t - 1 + n) div 12 - 1970) * 12 + ((Month t - 1 + n) mod 12 + 1 - 1) = t_MonthIx t + n"
    unfolding Year_def Month_def by presburger
  show ?thesis
    unfolding addMonthsClamped_def Let_def dateOf_def ix by (simp add: Day_def min_def)
qed

lemma valid_addMonthsClamped: "valid_time t \<Longrightarrow> 0 \<le> n \<Longrightarrow> valid_time (addMonthsClamped t n)"
  using monthLen_bounds(1) [of "t_MonthIx t + n"] by (simp add: valid_time_def addMonthsClamped_eq)

lemma addMonthsClamped_0: "valid_time t \<Longrightarrow> addMonthsClamped t 0 = t"
  by (simp add: addMonthsClamped_eq valid_time_def)

section \<open>Lengths\<close>

lemma parseDays_bounds:
  "parseDays cs days = Some n \<Longrightarrow> 0 \<le> days \<Longrightarrow> days \<le> maxPeriodDays \<Longrightarrow> 0 \<le> n \<and> n \<le> maxPeriodDays"
  by (induction cs days rule: parseDays.induct) (auto simp: Let_def split: if_splits)

lemma periodLength_bounds:
  assumes "periodLength period = Some len"
  shows "dayNs \<le> len" "len \<le> maxPeriodDays * dayNs"
  using assms parseDays_bounds [of "TrimSuffix (normalizePeriod period) ''d''" 0]
  by (auto simp: periodLength_def Let_def hourNs_def dayNs_def maxPeriodDays_def split: if_splits option.splits)

lemma fixed_window:
  fixes now :: int
  assumes "0 < len" "cur \<le> now"
  shows "cur + ((now - cur) div len) * len \<le> now" "now < cur + ((now - cur) div len) * len + len"
    and "0 \<le> ((now - cur) div len) * len"
proof -
  have "(now - cur) div len * len + (now - cur) mod len = now - cur"
    by (rule div_mult_mod_eq)
  then show "cur + ((now - cur) div len) * len \<le> now" "now < cur + ((now - cur) div len) * len + len"
    using pos_mod_bound [OF assms(1), of "now - cur"] pos_mod_sign [OF assms(1), of "now - cur"] by linarith+
  show "0 \<le> ((now - cur) div len) * len"
    using assms by (intro mult_nonneg_nonneg) (simp_all add: pos_imp_zdiv_nonneg_iff)
qed

lemma advancePeriod_fixed:
  assumes "normalizePeriod period \<noteq> PeriodMonth" "periodLength period = Some len"
    and "0 < cur" "in64 now"
  shows "advancePeriod cur now period =
    (if cur + len \<le> now then (cur + ((now - cur) div len) * len, True) else (cur, False))"
proof -
  have len: "0 < len"
    using periodLength_bounds(1) [OF assms(2)] by (simp add: dayNs_def)
  show ?thesis
  proof (cases "cur > now")
    case True
    then show ?thesis
      using len by (simp add: advancePeriod_def)
  next
    case False
    then have le: "cur \<le> now"
      by simp
    define q where "q = (now - cur) div len"
    note w = fixed_window [OF len le, folded q_def]
    have elapsed: "wrap64 (now - cur) = now - cur"
      using assms(3,4) le by (simp add: in64_def)
    have wraps: "wrap64 (q * len) = q * len" "wrap64 (cur + q * len) = cur + q * len"
      using w assms(3,4) by (simp_all add: in64_def)
    have zero: "q = 0 \<longleftrightarrow> \<not> cur + len \<le> now"
      using le len by (auto simp: q_def zdiv_eq_0_iff)
    show ?thesis
      using le len assms(1,2) elapsed wraps zero
      by (simp add: advancePeriod_def sdiv_nonneg q_def [symmetric])
  qed
qed

section \<open>Properties of the arithmetic\<close>

text \<open>
  A fixed-length period start lands on the window that contains the clock: it moves by a whole
  number of periods, never past the clock, it moves exactly when a period has elapsed, and no step
  of the 64-bit arithmetic wraps.
\<close>

theorem advancePeriod_lands_in_window:
  assumes "normalizePeriod period \<noteq> PeriodMonth" "periodLength period = Some len"
    and "0 < cur" "cur \<le> now" "in64 now"
  shows "case advancePeriod cur now period of (next, rolled) \<Rightarrow>
    (\<exists>k. next = cur + k * len) \<and> next \<le> now \<and> now < next + len \<and> (rolled \<longleftrightarrow> cur + len \<le> now) \<and> in64 next"
proof -
  have "0 < len"
    using periodLength_bounds(1) [OF assms(2)] by (simp add: dayNs_def)
  note w = fixed_window [OF this assms(4)]
  have "in64 (cur + ((now - cur) div len) * len)" "in64 cur"
    using w assms(3-5) by (simp_all add: in64_def)
  moreover have "\<exists>k. cur = cur + k * len"
    by (rule exI [of _ 0]) simp
  ultimately show ?thesis
    using advancePeriod_fixed [OF assms(1-3,5)] w assms(4) by auto
qed

theorem advancePeriod_lands_in_window_witness:
  "case advancePeriod 1 259200000000005 ''2d'' of (next, rolled) \<Rightarrow>
    (\<exists>k. next = 1 + k * 172800000000000) \<and> next \<le> 259200000000005 \<and> 259200000000005 < next + 172800000000000 \<and>
    (rolled \<longleftrightarrow> 1 + 172800000000000 \<le> (259200000000005::int)) \<and> in64 next"
  by (rule advancePeriod_lands_in_window) (code_simp, code_simp, code_simp, code_simp, code_simp)

text \<open>
  A calendar-month period start lands on the month boundary, counted in whole months from the
  start and clamped to the length of the month, whose window contains the clock; it reports a
  rollover exactly when that boundary is not the start itself.
\<close>

theorem advanceByCalendarMonth_lands_in_window:
  assumes "0 < cur" "cur \<le> now"
  shows "case advanceByCalendarMonth cur now of (next, rolled) \<Rightarrow>
    \<exists>k \<ge> 0. next = UnixNano (addMonthsClamped (timeUnix cur) k) \<and> next \<le> now \<and>
      now < UnixNano (addMonthsClamped (timeUnix cur) (k + 1)) \<and> (rolled \<longleftrightarrow> k > 0)"
proof -
  define start where "start = timeUnix cur"
  define months where "months = t_MonthIx (timeUnix now) - t_MonthIx start"
  have valid: "valid_time start" "valid_time (timeUnix now)"
    using assms by (simp_all add: start_def valid_timeUnix)
  have ns: "UnixNano start = cur" "UnixNano (timeUnix now) = now" "addMonthsClamped start 0 = start"
    using assms valid by (simp_all add: start_def timeUnix_spec addMonthsClamped_0)
  have nonneg: "0 \<le> months"
    using UnixNano_month_less [OF valid(2,1)] ns assms(2) unfolding months_def by linarith
  have later: "now < UnixNano (addMonthsClamped start (months + 1))"
    using UnixNano_month_less [OF valid(2) valid_addMonthsClamped [OF valid(1), of "months + 1"]] nonneg ns
    by (simp add: addMonthsClamped_eq months_def)
  have earlier: "UnixNano (addMonthsClamped start (months - 1)) \<le> now" if "0 < months"
    using UnixNano_month_less [OF valid_addMonthsClamped [OF valid(1), of "months - 1"] valid(2)] that ns
    by (simp add: addMonthsClamped_eq months_def)
  have adv: "advanceByCalendarMonth cur now =
      (if months \<le> 0 then (cur, False)
       else if UnixNano (addMonthsClamped start months) > now
            then (if months - 1 \<le> 0 then (cur, False) else (UnixNano (addMonthsClamped start (months - 1)), True))
            else (UnixNano (addMonthsClamped start months), True))"
    by (simp only: advanceByCalendarMonth_def Let_def months_between start_def months_def)
  define k where "k = (if 0 < months \<and> UnixNano (addMonthsClamped start months) > now then months - 1 else months)"
  have "0 \<le> k" "now < UnixNano (addMonthsClamped start (k + 1))" "UnixNano (addMonthsClamped start k) \<le> now"
    "advanceByCalendarMonth cur now = (UnixNano (addMonthsClamped start k), 0 < k)"
    using nonneg later earlier adv ns assms(2) by (auto simp: k_def not_less le_less)
  then show ?thesis
    unfolding start_def by auto
qed

theorem advanceByCalendarMonth_lands_in_window_witness:
  "case advanceByCalendarMonth 1 5184000000000000 of (next, rolled) \<Rightarrow>
    \<exists>k \<ge> 0. next = UnixNano (addMonthsClamped (timeUnix 1) k) \<and> next \<le> 5184000000000000 \<and>
      5184000000000000 < UnixNano (addMonthsClamped (timeUnix 1) (k + 1)) \<and> (rolled \<longleftrightarrow> k > 0)"
  by (rule advanceByCalendarMonth_lands_in_window) simp_all

text \<open>
  A period name is reported as recognized exactly when some clock makes it roll over, so the
  warning singles out the periods that never would.
\<close>

theorem periodRecognized_iff_can_roll:
  "periodRecognized period \<longleftrightarrow> (\<exists>cur now. 0 < cur \<and> in64 now \<and> snd (advancePeriod cur now period))"
proof (cases "normalizePeriod period = PeriodMonth")
  case True
  have "snd (advanceByCalendarMonth 1 5184000000000000)"
    by code_simp
  then have "0 < (1::int) \<and> in64 5184000000000000 \<and> snd (advancePeriod 1 5184000000000000 period)"
    using True by (simp add: advancePeriod_def in64_def)
  then show ?thesis
    using True unfolding periodRecognized_def by blast
next
  case False
  show ?thesis
  proof (cases "periodLength period")
    case None
    then show ?thesis
      using False by (simp add: periodRecognized_def advancePeriod_def)
  next
    case (Some len)
    have len: "0 < len" "in64 (1 + len)"
      using periodLength_bounds [OF Some] by (simp_all add: dayNs_def maxPeriodDays_def in64_def)
    then have "snd (advancePeriod 1 (1 + len) period)"
      using advancePeriod_fixed [OF False Some, of 1 "1 + len"] by simp
    then show ?thesis
      using False Some len unfolding periodRecognized_def by (metis option.simps(5) zero_less_one)
  qed
qed

text \<open>
  The boundary of a subscription that started on the 31st drifts: once it has been clamped to a
  short month it stays at that day. A start on 31 January moves to 28 February, and from there the
  next boundary is 28 March, although the boundary counted from the original start is 31 March.
\<close>

theorem calendar_month_drifts:
  "let jan31 = 30 * dayNs; mar31 = 89 * dayNs;
       (feb, _) = advanceByCalendarMonth jan31 (58 * dayNs);
       (march, _) = advanceByCalendarMonth feb (88 * dayNs)
   in Day (timeUnix jan31) = 31 \<and> Day (timeUnix feb) = 28 \<and> Day (timeUnix march) = 28 \<and>
      UnixNano (addMonthsClamped (timeUnix jan31) 2) = mar31 \<and> Day (timeUnix mar31) = 31 \<and>
      advanceByCalendarMonth jan31 (88 * dayNs) = (feb, True)"
  by code_simp

section \<open>Properties of the pass\<close>

text \<open>Which rows roll over, and what becomes of a row.\<close>

definition rolls :: "snapshot_period \<Rightarrow> int \<Rightarrow> StateRepo \<Rightarrow> UserSubscription \<Rightarrow> bool" where
  "rolls decode nowNs r s \<longleftrightarrow> active_sub s \<and> 0 < s_PeriodStartNs s \<and>
     normalizePeriod (periodFor decode r s) \<noteq> PeriodOnce \<and>
     snd (advancePeriod (s_PeriodStartNs s) nowNs (periodFor decode r s))"

definition rolledRow :: "snapshot_period \<Rightarrow> int \<Rightarrow> StateRepo \<Rightarrow> UserSubscription \<Rightarrow> UserSubscription" where
  "rolledRow decode nowNs r s =
     (if rolls decode nowNs r s
      then s\<lparr>s_PeriodStartNs := fst (advancePeriod (s_PeriodStartNs s) nowNs (periodFor decode r s)),
             s_PeriodUsedBytes := 0\<rparr>
      else s)"

lemma rollOne_effect:
  assumes "rollOne decode nowNs s (pass, c, r) = (pass', c', r')" "map_of (r_subs r) (s_ID s) = Some s"
  shows "map_of (r_subs r') = (map_of (r_subs r))(s_ID s \<mapsto> rolledRow decode nowNs r s)"
    and "r_plans r' = r_plans r"
    and "c' = (if rolls decode nowNs r s then ResetUser (s_UserID s) c else c)"
  using assms
  by (auto simp: rollOne_def rolledRow_def rolls_def Let_def ResetSubscriptionPeriod_def gomap_simps fun_upd_idem
      split: if_splits prod.splits)

lemma periodFor_cong: "r_plans r' = r_plans r \<Longrightarrow> periodFor decode r' s = periodFor decode r s"
  by (simp only: periodFor_def)

lemma rolledRow_cong:
  "r_plans r' = r_plans r \<Longrightarrow> rolls decode nowNs r' = rolls decode nowNs r"
  "r_plans r' = r_plans r \<Longrightarrow> rolledRow decode nowNs r' = rolledRow decode nowNs r"
  by (simp_all add: fun_eq_iff rolls_def rolledRow_def periodFor_cong [of r' r])

lemma rollListed_effect:
  assumes "distinct (map s_ID subs)" "\<And>s. s \<in> set subs \<Longrightarrow> map_of (r_subs r) (s_ID s) = Some s"
    and "rollListed decode nowNs subs (pass, c, r) = (pass', c', r')"
  shows "map_of (r_subs r') i =
      (if i \<in> s_ID ` set subs then map_option (rolledRow decode nowNs r) (map_of (r_subs r) i) else map_of (r_subs r) i) \<and>
    r_plans r' = r_plans r \<and>
    (u \<noteq> '''' \<longrightarrow> UserBytes c' u =
      (if \<exists>s \<in> set subs. s_UserID s = u \<and> rolls decode nowNs r s then 0 else UserBytes c u))"
  using assms
proof (induction subs arbitrary: pass c r)
  case (Cons s subs)
  obtain pass1 c1 r1 where one: "rollOne decode nowNs s (pass, c, r) = (pass1, c1, r1)"
    by (metis prod_cases3)
  have row: "map_of (r_subs r) (s_ID s) = Some s"
    using Cons.prems(2) by simp
  note eff = rollOne_effect [OF one row]
  have rest: "rollListed decode nowNs subs (pass1, c1, r1) = (pass', c', r')"
    and dist: "distinct (map s_ID subs)" and fresh: "s_ID s \<notin> s_ID ` set subs"
    using Cons.prems(1,3) one by (simp_all add: rollListed_def)
  have rows: "map_of (r_subs r1) (s_ID t) = Some t" if "t \<in> set subs" for t
  proof -
    have "s_ID t \<noteq> s_ID s"
      using fresh imageI [OF that, of s_ID] by metis
    then show ?thesis
      using Cons.prems(2) [of t] that by (simp add: eff(1))
  qed
  note IH = Cons.IH [OF dist rows rest] and cong = rolledRow_cong [OF eff(2)]
  have user: "UserBytes c1 u = (if s_UserID s = u \<and> rolls decode nowNs r s then 0 else UserBytes c u)" if "u \<noteq> ''''"
    using eff(3) that
    by (auto simp: UserBytes_def ResetUser_def storeIfPresent_def gm_get_def gomap_simps split: option.splits)
  have "map_of (r_subs r') i = (if i \<in> s_ID ` set (s # subs) then map_option (rolledRow decode nowNs r) (map_of (r_subs r) i)
      else map_of (r_subs r) i)"
    using IH fresh row by (auto simp: cong eff(1))
  moreover have "u \<noteq> '''' \<longrightarrow> UserBytes c' u =
      (if \<exists>s' \<in> set (s # subs). s_UserID s' = u \<and> rolls decode nowNs r s' then 0 else UserBytes c u)"
    using IH user by (auto simp: cong)
  ultimately show ?case
    using IH eff(2) by simp
qed (simp_all add: rollListed_def)

lemma listed_rows:
  assumes "subs_inv r"
  shows "distinct (map s_ID (ListUserSubscriptions r))"
    and "s \<in> set (ListUserSubscriptions r) \<longleftrightarrow> map_of (r_subs r) (s_ID s) = Some s"
proof -
  note D = subs_invD [OF assms]
  have ids: "map s_ID (map snd (r_subs r)) = map fst (r_subs r)"
    using D(5) by (auto simp: map_of_eq_Some_iff [OF D(3)])
  have "distinct (map s_ID (map snd (r_subs r)))"
    unfolding ids by (rule D(3))
  then have "inj_on s_ID (set (map snd (r_subs r))) \<and> distinct (map snd (r_subs r))"
    unfolding distinct_map by blast
  then show "distinct (map s_ID (ListUserSubscriptions r))"
    by (simp add: distinct_map ListUserSubscriptions_def)
  show "s \<in> set (ListUserSubscriptions r) \<longleftrightarrow> map_of (r_subs r) (s_ID s) = Some s"
  proof
    assume "s \<in> set (ListUserSubscriptions r)"
    then obtain j where "map_of (r_subs r) j = Some s"
      by (auto simp: ListUserSubscriptions_def map_of_eq_Some_iff [OF D(3)])
    then show "map_of (r_subs r) (s_ID s) = Some s"
      using D(5) by simp
  next
    assume "map_of (r_subs r) (s_ID s) = Some s"
    from map_of_SomeD [OF this] show "s \<in> set (ListUserSubscriptions r)"
      by (force simp: ListUserSubscriptions_def)
  qed
qed

text \<open>
  C33. The rollover pass treats every subscription once and by its own row: an active row with a
  period start whose period has elapsed moves to its new start with zero usage and every other row is
  left exactly as it was; a user's running total returns to zero exactly when one of the user's rows
  rolled over.
\<close>

theorem RunOnce_rolls_exactly:
  assumes "subs_inv r" "RunOnce decode clock nowNs warned c r = (pass, c', r')" "u \<noteq> ''''"
  defines "now \<equiv> (if nowNs \<le> 0 then clock else nowNs)"
  shows "map_of (r_subs r') i = map_option (rolledRow decode now r) (map_of (r_subs r) i) \<and>
    UserBytes c' u =
      (if \<exists>j s. map_of (r_subs r) j = Some s \<and> s_UserID s = u \<and> rolls decode now r s then 0 else UserBytes c u)"
proof -
  note D = subs_invD [OF assms(1)] and L = listed_rows [OF assms(1)]
  obtain pass1 where run: "rollListed decode now (ListUserSubscriptions r)
      (\<lparr>pp_Checked = 0, pp_Rolled = 0, pp_warned = warned\<rparr>, c, r) = (pass1, c', r')"
    using assms(2) by (auto simp: RunOnce_def now_def [symmetric] Let_def split: prod.splits)
  have rows: "\<And>s. s \<in> set (ListUserSubscriptions r) \<Longrightarrow> map_of (r_subs r) (s_ID s) = Some s"
    using L(2) by simp
  note eff = rollListed_effect [OF L(1) rows run]
  have "i \<in> s_ID ` set (ListUserSubscriptions r)" if "map_of (r_subs r) i = Some s" for s
    using L(2) [of s] D(5) [OF that] that by auto
  then have "map_of (r_subs r') i = map_option (rolledRow decode now r) (map_of (r_subs r) i)"
    using eff [of i] by (cases "map_of (r_subs r) i") auto
  moreover have "(\<exists>s \<in> set (ListUserSubscriptions r). s_UserID s = u \<and> rolls decode now r s) \<longleftrightarrow>
      (\<exists>j s. map_of (r_subs r) j = Some s \<and> s_UserID s = u \<and> rolls decode now r s)"
    using L(2) D(5) by metis
  ultimately show ?thesis
    using eff assms(3) by simp
qed

theorem RunOnce_rolls_exactly_witness:
  "let (pass, c', r') = RunOnce (\<lambda>_. Some ''day'') 0 (2 * dayNs) [] (LoadUser ''u1'' 77 NewCounters) (exampleRepo 77)
   in UserBytes c' ''u1'' = 0 \<and> map_option s_PeriodUsedBytes (map_of (r_subs r') ''s1'') = Some 0"
proof -
  obtain pass c' r' where run: "RunOnce (\<lambda>_. Some ''day'') 0 (2 * dayNs) [] (LoadUser ''u1'' 77 NewCounters)
      (exampleRepo 77) = (pass, c', r')"
    by (metis prod_cases3)
  have look: "map_of (r_subs (exampleRepo 77)) = [''s1'' \<mapsto> exampleSubscription ''s1'' ''u1'' 77]"
    by (auto simp: exampleRepo_def)
  have rolls: "rolls (\<lambda>_. Some ''day'') (2 * dayNs) (exampleRepo 77) (exampleSubscription ''s1'' ''u1'' 77)"
    by code_simp
  have now: "(if 2 * dayNs \<le> 0 then 0 else 2 * dayNs) = 2 * dayNs"
    by (simp add: dayNs_def)
  have user: "s_UserID (exampleSubscription ''s1'' ''u1'' 77) = ''u1''"
    by (simp add: exampleSubscription_def)
  show ?thesis
    using RunOnce_rolls_exactly [OF exampleRepo_inv run, of "''u1''" "''s1''"] rolls user
    unfolding now look by (auto simp: run rolledRow_def split: if_splits)
qed

section \<open>Rollovers that race\<close>

text \<open>
  Traffic that is still in the buckets when its period is rolled over is charged to the new
  period by the next flush, while the aggregate the quota reads has been reset: here 100 bytes of the
  old period become the usage of the new one, and the aggregate says 0.
\<close>

theorem rollover_charges_pending_to_new_period:
  "let c0 = Add exampleKey (exampleDelta 100) NewCounters;
       (_, c1, r1) = RunOnce (\<lambda>_. Some ''day'') 0 (2 * dayNs) [] c0 (exampleRepo 0);
       (_, c2, d) = FlushOnce repoStore 9 0 c1 (quiet r1)
   in map_option (\<lambda>s. (s_PeriodStartNs s, s_PeriodUsedBytes s)) (activeRow ''u1'' (db_repo d)) = Some (1 + dayNs, 100) \<and>
      UserBytes c2 ''u1'' = 0"
  by code_simp

text \<open>
  A rollover that lost the race for its row still clears the running total: the guarded write
  answers nil without moving the period, and the user is handed an allowance that is spent on disk
  (500 bytes used in the period that began at 50).
\<close>

theorem lost_race_hands_out_spent_allowance:
  "let row = (exampleSubscription ''s1'' ''u1'' 500)\<lparr>s_PeriodStartNs := 50\<rparr>;
       r = (exampleRepo 500)\<lparr>r_subs := [(''s1'', row)]\<rparr>;
       (pass, c', r') = rollListed (\<lambda>_. Some ''day'') (2 * dayNs) [exampleSubscription ''s1'' ''u1'' 0]
         (\<lparr>pp_Checked = 0, pp_Rolled = 0, pp_warned = []\<rparr>, LoadUser ''u1'' 500 NewCounters, r)
   in map_option (\<lambda>s. (s_PeriodStartNs s, s_PeriodUsedBytes s)) (activeRow ''u1'' r') = Some (50, 500) \<and>
      UserBytes c' ''u1'' = 0 \<and> pp_Rolled pass = 1"
  by code_simp

end
