(* ===== verification/Net_Addr.thy ===== *)
theory Net_Addr
  imports Prelude
begin

text \<open>
  What the sources use of Go's \<open>net/netip\<close>. An address is the zero value, a 32-bit number or a
  128-bit number with a zone; a prefix is an address and a number of leading bits. Parsing and
  printing of addresses are parameters of the definitions that call them.
\<close>

datatype Addr = ZeroAddr | IPv4 int | IPv6 int string

definition IsValid :: "Addr \<Rightarrow> bool" where
  "IsValid ip \<longleftrightarrow> ip \<noteq> ZeroAddr"

fun BitLen :: "Addr \<Rightarrow> nat" where
  "BitLen ZeroAddr = 0"
| "BitLen (IPv4 _) = 32"
| "BitLen (IPv6 _ _) = 128"

text \<open>\<open>Addr.Unmap\<close> turns \<open>::ffff:a.b.c.d\<close> into \<open>a.b.c.d\<close>.\<close>

fun Unmap :: "Addr \<Rightarrow> Addr" where
  "Unmap (IPv6 n z) = (if n div 4294967296 = 65535 then IPv4 (n mod 4294967296) else IPv6 n z)"
| "Unmap ip = ip"

record Prefix =
  px_addr :: Addr
  px_bits :: nat

definition PrefixFrom :: "Addr \<Rightarrow> nat \<Rightarrow> Prefix" where
  "PrefixFrom ip bits = \<lparr>px_addr = (case ip of IPv6 n _ \<Rightarrow> IPv6 n [] | _ \<Rightarrow> ip), px_bits = bits\<rparr>"

definition sameNetwork :: "nat \<Rightarrow> nat \<Rightarrow> int \<Rightarrow> int \<Rightarrow> bool" where
  "sameNetwork width bits a b \<longleftrightarrow> a div 2 ^ (width - bits) = b div 2 ^ (width - bits)"

text \<open>\<open>Prefix.Contains\<close>: an address of the other family, or one with a zone, is never inside.\<close>

definition PrefixContains :: "Prefix \<Rightarrow> Addr \<Rightarrow> bool" where
  "PrefixContains p ip \<longleftrightarrow> (case (px_addr p, ip) of
     (IPv4 a, IPv4 b) \<Rightarrow> px_bits p \<le> 32 \<and> sameNetwork 32 (px_bits p) a b
   | (IPv6 a _, IPv6 b z) \<Rightarrow> z = [] \<and> px_bits p \<le> 128 \<and> sameNetwork 128 (px_bits p) a b
   | _ \<Rightarrow> False)"

lemma IsValid_simps [simp]: "\<not> IsValid ZeroAddr" "IsValid (IPv4 n)" "IsValid (IPv6 n z)"
  by (simp_all add: IsValid_def)

lemma IsValid_Unmap [simp]: "IsValid (Unmap ip) \<longleftrightarrow> IsValid ip"
  by (cases ip) simp_all

lemma single_host_contains:
  "IsValid ip \<Longrightarrow> PrefixContains (PrefixFrom ip (BitLen ip)) ip' \<longleftrightarrow>
     (case ip of IPv6 n _ \<Rightarrow> ip' = IPv6 n [] | _ \<Rightarrow> ip' = ip)"
  by (cases ip; cases ip') (auto simp: PrefixContains_def PrefixFrom_def sameNetwork_def)

end
