(* ===== verification/Routable_View.thy ===== *)
theory Routable_View
  imports Prelude
begin

text \<open>
  The identity of a node (\<open>internal/node/hash.go\<close>) and the set of nodes a platform may route
  to (\<open>internal/platform/routableview.go\<close>).

  A \<open>Hash\<close> is the list of its 16 bytes. A \<open>RoutableView\<close> is 64 shards, each a slice of hashes
  and an index from hash to position, and a count across the shards; \<open>Add\<close> appends, \<open>Remove\<close>
  moves the last hash of the shard into the hole. The theory shows that the view is a set:
  every operation refines the one on sets, the index always points at its hash, \<open>Size\<close> is the
  cardinality, and a uniform draw picks every member for exactly one value drawn.

  Counts of objects held in memory are unbounded \<open>int\<close>s. A random generator is the sequence of
  the values it will draw, so a statement over all generators is one over all outcomes.
\<close>

section \<open>Hashes\<close>

type_synonym Hash = string

definition hashLen :: nat where
  "hashLen = 16"

definition is_hash :: "Hash \<Rightarrow> bool" where
  "is_hash h \<longleftrightarrow> length h = hashLen"

definition Zero :: Hash where
  "Zero = replicate hashLen (char_of (0 :: nat))"

definition hexDigit :: "nat \<Rightarrow> char" where
  "hexDigit n = (if n < 10 then char_of (48 + n) else char_of (87 + n))"

text \<open>\<open>hex.EncodeToString\<close> and \<open>hex.DecodeString\<close>, which reads digits of either case.\<close>

definition Hex :: "Hash \<Rightarrow> string" where
  "Hex h = concat (map (\<lambda>b. [hexDigit (of_char b div 16), hexDigit (of_char b mod 16)]) h)"

definition fromHexChar :: "char \<Rightarrow> nat option" where
  "fromHexChar ch = (let n = (of_char ch :: nat) in
     if 48 \<le> n \<and> n \<le> 57 then Some (n - 48)
     else if 97 \<le> n \<and> n \<le> 102 then Some (n - 87)
     else if 65 \<le> n \<and> n \<le> 70 then Some (n - 55)
     else None)"

fun DecodeString :: "string \<Rightarrow> string option" where
  "DecodeString [] = Some []"
| "DecodeString [a] = None"
| "DecodeString (a # b # s) =
     (case (fromHexChar a, fromHexChar b) of
        (Some x, Some y) \<Rightarrow> map_option ((#) (char_of (16 * x + y))) (DecodeString s)
      | _ \<Rightarrow> None)"

definition ParseHex :: "string \<Rightarrow> Hash option" where
  "ParseHex s = (case DecodeString s of
     None \<Rightarrow> None
   | Some b \<Rightarrow> if length b \<noteq> hashLen then None else Some b)"

lemma fromHexChar_hexDigit: "n < 16 \<Longrightarrow> fromHexChar (hexDigit n) = Some n"
  by (auto simp: hexDigit_def fromHexChar_def Let_def)

lemma of_char_lt_256 [simp]: "(of_char ch :: nat) < 256"
  using nat_of_char_less_256 [of ch] by simp

lemma byte_digits: "char_of (16 * (of_char b div 16) + of_char b mod (16::nat)) = b"
  by (simp add: mult_div_mod_eq)

lemma DecodeString_Hex: "DecodeString (Hex h) = Some h"
proof (induction h)
  case (Cons b h)
  have "(of_char b :: nat) div 16 < 16"
    using of_char_lt_256 [of b] by (intro less_mult_imp_div_less) simp
  then show ?case
    using Cons byte_digits [of b] by (simp add: Hex_def fromHexChar_hexDigit)
qed (simp add: Hex_def)

lemma ParseHex_Hex: "is_hash h \<Longrightarrow> ParseHex (Hex h) = Some h"
  by (simp add: ParseHex_def DecodeString_Hex is_hash_def)

lemma ParseHex_is_hash: "ParseHex s = Some h \<Longrightarrow> is_hash h"
  by (auto simp: ParseHex_def is_hash_def split: option.splits if_splits)

lemma is_hash_Zero [simp]: "is_hash Zero"
  by (simp add: is_hash_def Zero_def)

section \<open>Random generators\<close>

type_synonym rng = "nat \<Rightarrow> nat"

definition Uint64 :: "rng \<Rightarrow> nat \<times> rng" where
  "Uint64 r = (r 0, \<lambda>i. r (Suc i))"

text \<open>\<open>rng.IntN(n)\<close> is some value below \<open>n\<close>.\<close>

definition IntN :: "nat \<Rightarrow> rng \<Rightarrow> nat \<times> rng" where
  "IntN n r = (r 0 mod n, \<lambda>i. r (Suc i))"

lemma fst_IntN_less [simp]: "0 < n \<Longrightarrow> fst (IntN n r) < n"
  by (simp add: IntN_def)

section \<open>The view\<close>

record shard =
  sh_nodes :: "Hash list"
  sh_index :: "(Hash, nat) gomap"

record RoutableView =
  rv_shards :: "shard list"
  rv_size :: int

definition numShards :: nat where
  "numShards = 64"

definition emptyShard :: shard where
  "emptyShard = \<lparr>sh_nodes = [], sh_index = []\<rparr>"

definition NewRoutableView :: RoutableView where
  "NewRoutableView = \<lparr>rv_shards = replicate numShards emptyShard, rv_size = 0\<rparr>"

definition shardFor :: "Hash \<Rightarrow> nat" where
  "shardFor h = of_char (h ! 0) mod numShards"

definition shardAdd :: "Hash \<Rightarrow> shard \<Rightarrow> shard" where
  "shardAdd h s = s\<lparr>sh_index := AList.update h (length (sh_nodes s)) (sh_index s),
                    sh_nodes := sh_nodes s @ [h]\<rparr>"

definition Add :: "Hash \<Rightarrow> RoutableView \<Rightarrow> RoutableView" where
  "Add h rv = (let i = shardFor h; s = rv_shards rv ! i in
     case map_of (sh_index s) h of
       Some _ \<Rightarrow> rv
     | None \<Rightarrow> rv\<lparr>rv_shards := (rv_shards rv)[i := shardAdd h s], rv_size := rv_size rv + 1\<rparr>)"

definition shardRemove :: "Hash \<Rightarrow> nat \<Rightarrow> shard \<Rightarrow> shard" where
  "shardRemove h idx s = (let last = length (sh_nodes s) - 1;
       nodes = (if idx \<noteq> last then (sh_nodes s)[idx := sh_nodes s ! last] else sh_nodes s);
       index = (if idx \<noteq> last then AList.update (nodes ! idx) idx (sh_index s) else sh_index s)
     in s\<lparr>sh_nodes := take last nodes, sh_index := AList.delete h index\<rparr>)"

definition Remove :: "Hash \<Rightarrow> RoutableView \<Rightarrow> RoutableView" where
  "Remove h rv = (let i = shardFor h; s = rv_shards rv ! i in
     case map_of (sh_index s) h of
       None \<Rightarrow> rv
     | Some idx \<Rightarrow> rv\<lparr>rv_shards := (rv_shards rv)[i := shardRemove h idx s], rv_size := rv_size rv - 1\<rparr>)"

definition Contains :: "Hash \<Rightarrow> RoutableView \<Rightarrow> bool" where
  "Contains h rv \<longleftrightarrow> map_of (sh_index (rv_shards rv ! shardFor h)) h \<noteq> None"

definition Size :: "RoutableView \<Rightarrow> int" where
  "Size rv = rv_size rv"

fun pickShard :: "shard list \<Rightarrow> nat \<Rightarrow> Hash option" where
  "pickShard [] target = None"
| "pickShard (s # ss) target =
     (let n = length (sh_nodes s) in
      if target < n then Some (sh_nodes s ! target) else pickShard ss (target - n))"

definition RandomPick :: "RoutableView \<Rightarrow> rng \<Rightarrow> Hash option \<times> rng" where
  "RandomPick rv r =
     (if Size rv = 0 then (None, r)
      else let (target, r') = IntN (nat (Size rv)) r in (pickShard (rv_shards rv) target, r'))"

text \<open>The order in which \<open>Range\<close> visits the hashes.\<close>

definition viewRange :: "RoutableView \<Rightarrow> Hash list" where
  "viewRange rv = concat (map sh_nodes (rv_shards rv))"

section \<open>The view is a set\<close>

definition shard_inv :: "nat \<Rightarrow> shard \<Rightarrow> bool" where
  "shard_inv i s \<longleftrightarrow> distinct (sh_nodes s) \<and> gm_wf (sh_index s) \<and>
     (\<forall>h p. map_of (sh_index s) h = Some p \<longleftrightarrow> p < length (sh_nodes s) \<and> sh_nodes s ! p = h) \<and>
     (\<forall>h\<in>set (sh_nodes s). shardFor h = i)"

definition view_inv :: "RoutableView \<Rightarrow> bool" where
  "view_inv rv \<longleftrightarrow> length (rv_shards rv) = numShards \<and>
     (\<forall>i<numShards. shard_inv i (rv_shards rv ! i)) \<and>
     rv_size rv = int (length (viewRange rv))"

lemma shardFor_less [simp]: "shardFor h < numShards"
  by (simp add: shardFor_def numShards_def)

lemma shard_index_mem: "shard_inv i s \<Longrightarrow> map_of (sh_index s) h = None \<longleftrightarrow> h \<notin> set (sh_nodes s)"
proof -
  assume inv: "shard_inv i s"
  have "(\<exists>p. map_of (sh_index s) h = Some p) \<longleftrightarrow> (\<exists>p<length (sh_nodes s). sh_nodes s ! p = h)"
    using inv by (simp add: shard_inv_def)
  then show ?thesis
    by (metis in_set_conv_nth not_None_eq)
qed

lemma shard_indexD:
  "shard_inv i s \<Longrightarrow> map_of (sh_index s) h = Some p \<Longrightarrow>
     p < length (sh_nodes s) \<and> sh_nodes s ! p = h \<and> shardFor h = i"
  by (metis shard_inv_def nth_mem)

lemma shard_inv_empty [simp]: "shard_inv i emptyShard"
  by (simp add: shard_inv_def emptyShard_def)

lemma shard_inv_add:
  assumes inv: "shard_inv i s" and new: "map_of (sh_index s) h = None" and i: "shardFor h = i"
  shows "shard_inv i (shardAdd h s)"
proof -
  have fresh: "h \<notin> set (sh_nodes s)"
    using shard_index_mem [OF inv] new by simp
  have idx: "map_of (sh_index s) k = Some p \<longleftrightarrow> p < length (sh_nodes s) \<and> sh_nodes s ! p = k" for k p
    using inv by (simp add: shard_inv_def)
  have "map_of (sh_index (shardAdd h s)) k = Some p \<longleftrightarrow>
      p < length (sh_nodes (shardAdd h s)) \<and> sh_nodes (shardAdd h s) ! p = k" for k p
  proof (cases "k = h")
    case True
    then show ?thesis
      using fresh nth_mem [of p "sh_nodes s"]
      by (auto simp: shardAdd_def gomap_simps nth_append less_Suc_eq)
  next
    case False
    then show ?thesis
      using idx [of k p] by (auto simp: shardAdd_def gomap_simps nth_append less_Suc_eq)
  qed
  then show ?thesis
    using inv fresh i by (auto simp: shard_inv_def shardAdd_def)
qed

text \<open>The slice after the last hash has been moved into the hole.\<close>

definition swapRemove :: "'a list \<Rightarrow> nat \<Rightarrow> 'a list" where
  "swapRemove xs i = take (length xs - 1) (xs[i := xs ! (length xs - 1)])"

lemma length_swapRemove [simp]: "length (swapRemove xs i) = length xs - 1"
  by (simp add: swapRemove_def)

lemma nth_swapRemove:
  "p < length xs - 1 \<Longrightarrow> swapRemove xs i ! p = (if p = i then xs ! (length xs - 1) else xs ! p)"
  by (auto simp: swapRemove_def nth_list_update)

lemma distinct_swapRemove: "distinct xs \<Longrightarrow> distinct (swapRemove xs i)"
  by (auto simp: distinct_conv_nth nth_swapRemove)

lemma set_swapRemove:
  assumes "distinct xs" "i < length xs"
  shows "set (swapRemove xs i) = set xs - {xs ! i}"
proof (intro set_eqI iffI)
  fix x
  assume "x \<in> set (swapRemove xs i)"
  then obtain p where p: "p < length xs - 1" "swapRemove xs i ! p = x"
    by (auto simp: in_set_conv_nth)
  then have "x = xs ! (if p = i then length xs - 1 else p)"
    using nth_swapRemove [of p xs i] by auto
  then show "x \<in> set xs - {xs ! i}"
    using p assms by (auto simp: nth_eq_iff_index_eq split: if_splits)
next
  fix x
  assume x: "x \<in> set xs - {xs ! i}"
  then obtain p where p: "p < length xs" "xs ! p = x" "p \<noteq> i"
    by (auto simp: in_set_conv_nth)
  define q where "q = (if p = length xs - 1 then i else p)"
  have "q < length xs - 1" "swapRemove xs i ! q = x"
    using p assms(2) nth_swapRemove [of q xs i] by (auto simp: q_def split: if_splits)
  then show "x \<in> set (swapRemove xs i)"
    by (metis length_swapRemove nth_mem)
qed

lemma shardRemove_nodes: "sh_nodes (shardRemove h i s) = swapRemove (sh_nodes s) i"
  by (auto simp: shardRemove_def swapRemove_def Let_def)

lemma shardRemove_index:
  assumes "i < length (sh_nodes s)"
  shows "map_of (sh_index (shardRemove h i s)) k =
    (if k = h then None
     else if i \<noteq> length (sh_nodes s) - 1 \<and> k = sh_nodes s ! (length (sh_nodes s) - 1) then Some i
     else map_of (sh_index s) k)"
  using assms by (auto simp: shardRemove_def Let_def gomap_simps nth_list_update)

lemma shard_inv_remove:
  assumes inv: "shard_inv i s" and at: "map_of (sh_index s) h = Some q"
  shows "shard_inv i (shardRemove h q s)"
proof -
  let ?xs = "sh_nodes s" and ?s' = "shardRemove h q s"
  have idx: "map_of (sh_index s) k = Some p \<longleftrightarrow> p < length ?xs \<and> ?xs ! p = k" for k p
    using inv by (simp add: shard_inv_def)
  have q: "q < length ?xs" "?xs ! q = h" and dist: "distinct ?xs" and wf: "gm_wf (sh_index s)"
    using inv at idx by (auto simp: shard_inv_def)
  have "map_of (sh_index ?s') k = Some p \<longleftrightarrow> p < length (sh_nodes ?s') \<and> sh_nodes ?s' ! p = k" for k p
    using q dist by (auto simp: shardRemove_nodes shardRemove_index nth_swapRemove idx nth_eq_iff_index_eq)
  moreover have "gm_wf (sh_index ?s')"
    using wf by (auto simp: shardRemove_def Let_def)
  moreover have "set (sh_nodes ?s') \<subseteq> set ?xs"
    using set_swapRemove [OF dist q(1)] by (auto simp: shardRemove_nodes)
  ultimately show ?thesis
    using inv by (auto simp: shard_inv_def shardRemove_nodes distinct_swapRemove)
qed

lemma length_viewRange: "length (viewRange rv) = sum_list (map (\<lambda>s. length (sh_nodes s)) (rv_shards rv))"
  by (simp add: viewRange_def length_concat comp_def)

lemma mem_viewRange:
  assumes "view_inv rv"
  shows "h \<in> set (viewRange rv) \<longleftrightarrow> h \<in> set (sh_nodes (rv_shards rv ! shardFor h))"
proof -
  have len: "length (rv_shards rv) = numShards"
    and inv: "\<And>i. i < numShards \<Longrightarrow> shard_inv i (rv_shards rv ! i)"
    using assms by (auto simp: view_inv_def)
  have "h \<in> set (viewRange rv) \<longleftrightarrow> (\<exists>i<numShards. h \<in> set (sh_nodes (rv_shards rv ! i)))"
    using len by (auto simp: viewRange_def set_conv_nth [of "rv_shards rv"])
  also have "\<dots> \<longleftrightarrow> h \<in> set (sh_nodes (rv_shards rv ! shardFor h))"
  proof
    assume "\<exists>i<numShards. h \<in> set (sh_nodes (rv_shards rv ! i))"
    then obtain i where i: "i < numShards" "h \<in> set (sh_nodes (rv_shards rv ! i))"
      by blast
    then have "shardFor h = i"
      using inv [of i] by (simp add: shard_inv_def)
    then show "h \<in> set (sh_nodes (rv_shards rv ! shardFor h))"
      using i by simp
  qed (use shardFor_less in blast)
  finally show ?thesis .
qed

lemma Contains_mem: "view_inv rv \<Longrightarrow> Contains h rv \<longleftrightarrow> h \<in> set (viewRange rv)"
  using shard_index_mem [of "shardFor h" "rv_shards rv ! shardFor h" h] mem_viewRange [of rv h]
  by (simp add: Contains_def view_inv_def)

lemma distinct_viewRange:
  assumes "view_inv rv"
  shows "distinct (viewRange rv)"
proof -
  have len: "length (rv_shards rv) = numShards"
    and inv: "\<And>i. i < numShards \<Longrightarrow> shard_inv i (rv_shards rv ! i)"
    using assms by (auto simp: view_inv_def)
  have "distinct (concat (map sh_nodes (take n (rv_shards rv)))) \<and>
      (\<forall>h\<in>set (concat (map sh_nodes (take n (rv_shards rv)))). shardFor h < n)" if "n \<le> numShards" for n
    using that
  proof (induction n)
    case (Suc n)
    then have inv_n: "shard_inv n (rv_shards rv ! n)" and "n < length (rv_shards rv)"
      using inv [of n] len by auto
    then show ?case
      using Suc by (fastforce simp: take_Suc_conv_app_nth shard_inv_def)
  qed simp
  from this [of numShards] show ?thesis
    using len by (simp add: viewRange_def)
qed

lemma view_inv_New [simp]: "view_inv NewRoutableView"
proof -
  have "concat (map sh_nodes (replicate n emptyShard)) = []" for n
    by (induction n) (simp_all add: emptyShard_def)
  then show ?thesis
    by (simp add: view_inv_def NewRoutableView_def viewRange_def)
qed

text \<open>An operation replaces one shard; what it does to the view follows from that shard.\<close>

lemma view_replace:
  assumes inv: "view_inv rv" and i: "i < numShards" and s': "shard_inv i s'"
  shows "view_inv (rv\<lparr>rv_shards := (rv_shards rv)[i := s'],
      rv_size := rv_size rv + int (length (sh_nodes s')) - int (length (sh_nodes (rv_shards rv ! i)))\<rparr>)"
    (is "view_inv ?rv")
proof -
  let ?ns = "map (\<lambda>s. length (sh_nodes s)) (rv_shards rv)"
  have len: "i < length ?ns"
    using inv i by (simp add: view_inv_def)
  have "length (viewRange ?rv) = sum_list (?ns[i := length (sh_nodes s')])"
    by (simp add: length_viewRange map_update)
  also have "\<dots> = sum_list ?ns + length (sh_nodes s') - ?ns ! i"
    by (rule sum_list_update [OF len])
  finally have "length (viewRange ?rv) = length (viewRange rv) + length (sh_nodes s') - ?ns ! i"
    by (simp add: length_viewRange)
  moreover have "?ns ! i \<le> length (viewRange rv)"
    using elem_le_sum_list [OF len] by (simp add: length_viewRange)
  ultimately have "int (length (viewRange ?rv)) =
      int (length (viewRange rv)) + int (length (sh_nodes s')) - int (length (sh_nodes (rv_shards rv ! i)))"
    using len by simp
  then show ?thesis
    using inv i s' by (auto simp: view_inv_def nth_list_update)
qed

lemma Add_inv: assumes "view_inv rv" shows "view_inv (Add h rv)"
proof (cases "map_of (sh_index (rv_shards rv ! shardFor h)) h")
  case None
  then have "shard_inv (shardFor h) (shardAdd h (rv_shards rv ! shardFor h))"
    using assms by (intro shard_inv_add) (auto simp: view_inv_def)
  from view_replace [OF assms shardFor_less this] show ?thesis
    using None by (simp add: Add_def Let_def shardAdd_def)
qed (simp add: Add_def Let_def assms)

lemma Remove_inv: assumes "view_inv rv" shows "view_inv (Remove h rv)"
proof (cases "map_of (sh_index (rv_shards rv ! shardFor h)) h")
  case (Some q)
  let ?s = "rv_shards rv ! shardFor h"
  have inv: "shard_inv (shardFor h) ?s"
    using assms by (simp add: view_inv_def)
  then have "0 < length (sh_nodes ?s)"
    using shard_indexD [OF _ Some] by fastforce
  then have "rv_size rv + int (length (sh_nodes (shardRemove h q ?s))) - int (length (sh_nodes ?s)) = rv_size rv - 1"
    by (simp only: shardRemove_nodes length_swapRemove)
  with view_replace [OF assms shardFor_less shard_inv_remove [OF inv Some]] show ?thesis
    by (simp only: Remove_def Let_def Some option.case)
qed (simp add: Remove_def Let_def assms)

lemma shard_of_Add:
  "view_inv rv \<Longrightarrow> rv_shards (Add h rv) ! i =
     (if i = shardFor h \<and> \<not> Contains h rv then shardAdd h (rv_shards rv ! i) else rv_shards rv ! i)"
  by (auto simp: Add_def Let_def Contains_def view_inv_def nth_list_update split: option.splits)

lemma shard_of_Remove:
  "view_inv rv \<Longrightarrow> rv_shards (Remove h rv) ! i =
     (case map_of (sh_index (rv_shards rv ! i)) h of
        Some q \<Rightarrow> if i = shardFor h then shardRemove h q (rv_shards rv ! i) else rv_shards rv ! i
      | None \<Rightarrow> rv_shards rv ! i)"
  by (auto simp: Remove_def Let_def view_inv_def nth_list_update split: option.splits)

lemma set_Add:
  assumes "view_inv rv"
  shows "set (viewRange (Add h rv)) = insert h (set (viewRange rv))"
proof (intro set_eqI)
  fix k
  show "k \<in> set (viewRange (Add h rv)) \<longleftrightarrow> k \<in> insert h (set (viewRange rv))"
    using Contains_mem [OF assms, of h]
    by (auto simp: mem_viewRange assms Add_inv shard_of_Add shardAdd_def)
qed

lemma set_Remove:
  assumes "view_inv rv"
  shows "set (viewRange (Remove h rv)) = set (viewRange rv) - {h}"
proof (intro set_eqI)
  fix k
  let ?s = "rv_shards rv ! shardFor k"
  have inv: "shard_inv (shardFor k) ?s"
    using assms by (simp add: view_inv_def)
  show "k \<in> set (viewRange (Remove h rv)) \<longleftrightarrow> k \<in> set (viewRange rv) - {h}"
  proof (cases "map_of (sh_index ?s) h")
    case None
    then have "h \<notin> set (sh_nodes ?s)"
      using shard_index_mem [OF inv] by simp
    then show ?thesis
      using None by (auto simp: mem_viewRange assms Remove_inv shard_of_Remove)
  next
    case (Some q)
    then have q: "q < length (sh_nodes ?s)" "sh_nodes ?s ! q = h" "shardFor h = shardFor k" "distinct (sh_nodes ?s)"
      using shard_indexD [OF inv Some] inv by (auto simp: shard_inv_def)
    then have "set (sh_nodes (shardRemove h q ?s)) = set (sh_nodes ?s) - {h}"
      using set_swapRemove [of "sh_nodes ?s" q] by (simp add: shardRemove_nodes)
    then show ?thesis
      using Some q by (simp add: mem_viewRange assms Remove_inv shard_of_Remove)
  qed
qed

lemma Size_card: "view_inv rv \<Longrightarrow> Size rv = int (card (set (viewRange rv)))"
  using distinct_card [OF distinct_viewRange] by (simp add: Size_def view_inv_def)

section \<open>Runs of the view\<close>

datatype view_op = OpAdd Hash | OpRemove Hash

fun view_step :: "view_op \<Rightarrow> RoutableView \<Rightarrow> RoutableView" where
  "view_step (OpAdd h) rv = Add h rv"
| "view_step (OpRemove h) rv = Remove h rv"

fun set_step :: "view_op \<Rightarrow> Hash set \<Rightarrow> Hash set" where
  "set_step (OpAdd h) V = insert h V"
| "set_step (OpRemove h) V = V - {h}"

interpretation view_as_set: refinement view_step view_inv "\<lambda>rv. set (viewRange rv)" set_step
proof (unfold_locales, goal_cases)
  case (1 rv op)
  then show ?case
    by (cases op) (simp_all add: Add_inv Remove_inv)
next
  case (2 rv op)
  then show ?case
    by (cases op) (simp_all add: set_Add set_Remove)
qed

text \<open>
  C18. After any sequence of additions and removals the sharded view holds exactly the set that the
  same sequence gives on a mathematical set: \<open>Contains\<close> is membership, \<open>Range\<close> visits every member
  once and \<open>Size\<close> is the number of members.
\<close>
theorem view_refines_set:
  "let rv = fold view_step ops NewRoutableView; V = fold set_step ops {} in
     set (viewRange rv) = V \<and> distinct (viewRange rv) \<and> Size rv = int (card V) \<and>
     (\<forall>h. Contains h rv \<longleftrightarrow> h \<in> V)"
proof -
  let ?rv = "fold view_step ops NewRoutableView"
  have inv: "view_inv ?rv"
    by (rule view_as_set.inv_run) simp
  have "set (viewRange NewRoutableView) = {}"
    by (auto simp: viewRange_def NewRoutableView_def emptyShard_def)
  then have "set (viewRange ?rv) = fold set_step ops {}"
    using view_as_set.run_refines [of NewRoutableView ops] by simp
  then show ?thesis
    using inv by (simp add: Let_def distinct_viewRange Size_card Contains_mem)
qed

section \<open>Random picks\<close>

lemma pickShard_nth:
  "pickShard ss t = (let hs = concat (map sh_nodes ss) in if t < length hs then Some (hs ! t) else None)"
  by (induction ss t rule: pickShard.induct) (auto simp: Let_def nth_append)

lemma RandomPick_nth:
  assumes "view_inv rv"
  shows "RandomPick rv r =
    (if viewRange rv = [] then (None, r)
     else (Some (viewRange rv ! fst (IntN (length (viewRange rv)) r)), snd (IntN (length (viewRange rv)) r)))"
proof -
  have "Size rv = int (length (viewRange rv))"
    using assms by (simp add: Size_def view_inv_def)
  then show ?thesis
    by (auto simp: RandomPick_def pickShard_nth Let_def IntN_def viewRange_def [symmetric])
qed

lemma RandomPick_mem: "view_inv rv \<Longrightarrow> RandomPick rv r = (Some h, r') \<Longrightarrow> h \<in> set (viewRange rv)"
  by (auto simp: RandomPick_nth IntN_def split: if_splits)

lemma RandomPick_None: "view_inv rv \<Longrightarrow> RandomPick rv r = (None, r') \<Longrightarrow> viewRange rv = []"
  by (auto simp: RandomPick_nth split: if_splits)

text \<open>
  A random pick is uniform: over the \<open>n\<close> values the generator may draw for a view of \<open>n\<close> nodes,
  every node of the view is returned for exactly one value, whatever additions and removals
  shaped the shards.
\<close>
theorem RandomPick_uniform:
  "let rv = fold view_step ops NewRoutableView; n = nat (Size rv) in
     bij_betw (\<lambda>t. the (fst (RandomPick rv (\<lambda>_. t)))) {..<n} (fold set_step ops {})"
proof -
  let ?rv = "fold view_step ops NewRoutableView"
  have inv: "view_inv ?rv"
    by (rule view_as_set.inv_run) simp
  have "set (viewRange NewRoutableView) = {}"
    by (auto simp: viewRange_def NewRoutableView_def emptyShard_def)
  then have set: "set (viewRange ?rv) = fold set_step ops {}"
    using view_as_set.run_refines [of NewRoutableView ops] by simp
  have n: "nat (Size ?rv) = length (viewRange ?rv)"
    using inv by (simp add: Size_def view_inv_def)
  have "bij_betw ((!) (viewRange ?rv)) {..<length (viewRange ?rv)} (fold set_step ops {})"
    using bij_betw_nth [OF distinct_viewRange [OF inv] refl refl] set by simp
  moreover have "the (fst (RandomPick ?rv (\<lambda>_. t))) = viewRange ?rv ! t" if "t \<in> {..<length (viewRange ?rv)}" for t
    using that inv by (auto simp: RandomPick_nth IntN_def)
  ultimately have "bij_betw (\<lambda>t. the (fst (RandomPick ?rv (\<lambda>_. t)))) {..<length (viewRange ?rv)} (fold set_step ops {})"
    by (subst bij_betw_cong) auto
  then show ?thesis
    using n by (simp add: Let_def)
qed

end
