(* ===== verification/Latency_Table.thy ===== *)
theory Latency_Table
  imports Prelude
begin

text \<open>
  The per-node latency table (\<open>internal/node/latency.go\<close>): an authority partition that grows and
  a regular partition of a fixed number of slots, in which the least recently accessed domain
  makes room for a new one.

  \<open>domainKey\<close> is a 64-bit xxh3 hash from a third-party package and a parameter here. The decayed
  average \<open>oldEwma * weight + latency * (1 - weight)\<close> is computed in \<open>float64\<close> with \<open>math.Exp\<close>; it
  is the parameter \<open>mix\<close> of \<open>tdEWMAUpdate\<close> (old average, latency, elapsed time, window). Times are
  nanoseconds since 1970.

  The theory shows that no key is ever stored twice, that the regular partition never grows, and
  what a lookup returns after an update.
\<close>

section \<open>Slots\<close>

record DomainLatencyStats =
  ds_Ewma :: int
  ds_LastUpdated :: int

record latencySlot =
  sl_key :: nat
  sl_domain :: string
  sl_stats :: DomainLatencyStats
  sl_lastAccessNs :: int
  sl_occupied :: bool

definition zeroStats :: DomainLatencyStats where
  "zeroStats = \<lparr>ds_Ewma = 0, ds_LastUpdated = 0\<rparr>"

definition zeroSlot :: latencySlot where
  "zeroSlot = \<lparr>sl_key = 0, sl_domain = [], sl_stats = zeroStats, sl_lastAccessNs = 0, sl_occupied = False\<rparr>"

record LatencyTable =
  lt_authorities :: "latencySlot list"
  lt_regular :: "latencySlot list"

definition latencyReadTouchMinInterval :: int where
  "latencyReadTouchMinInterval = 100000000"

text \<open>\<open>NewLatencyTable\<close> panics on a capacity that is not positive.\<close>

definition NewLatencyTable :: "int \<Rightarrow> LatencyTable option" where
  "NewLatencyTable maxEntries =
     (if maxEntries \<le> 0 then None
      else Some \<lparr>lt_authorities = [], lt_regular = replicate (nat maxEntries) zeroSlot\<rparr>)"

text \<open>The first occupied slot with the key, as the loops of the code find it.\<close>

primrec findSlot :: "nat \<Rightarrow> latencySlot list \<Rightarrow> nat option" where
  "findSlot k [] = None"
| "findSlot k (s # ss) =
     (if sl_occupied s \<and> sl_key s = k then Some 0 else map_option Suc (findSlot k ss))"

definition deleteLatencySlot :: "latencySlot list \<Rightarrow> nat \<Rightarrow> latencySlot list" where
  "deleteLatencySlot slots idx = (if idx \<ge> length slots then slots else take idx slots @ drop (Suc idx) slots)"

definition totalSizeLocked :: "LatencyTable \<Rightarrow> nat" where
  "totalSizeLocked t = length (filter sl_occupied (lt_authorities t)) + length (filter sl_occupied (lt_regular t))"

definition LatencySize :: "LatencyTable \<Rightarrow> nat" where
  "LatencySize t = totalSizeLocked t"

definition popDomainLocked :: "nat \<Rightarrow> LatencyTable \<Rightarrow> DomainLatencyStats option \<times> LatencyTable" where
  "popDomainLocked key t =
     (case findSlot key (lt_authorities t) of
        Some i \<Rightarrow> (Some (sl_stats (lt_authorities t ! i)),
                   t\<lparr>lt_authorities := deleteLatencySlot (lt_authorities t) i\<rparr>)
      | None \<Rightarrow>
          (case findSlot key (lt_regular t) of
             Some i \<Rightarrow> (Some (sl_stats (lt_regular t ! i)), t\<lparr>lt_regular := (lt_regular t)[i := zeroSlot]\<rparr>)
           | None \<Rightarrow> (None, t)))"

definition occupiedSlot :: "nat \<Rightarrow> string \<Rightarrow> DomainLatencyStats \<Rightarrow> int \<Rightarrow> latencySlot" where
  "occupiedSlot key domain stats accessNs =
     \<lparr>sl_key = key, sl_domain = domain, sl_stats = stats, sl_lastAccessNs = accessNs, sl_occupied = True\<rparr>"

definition upsertAuthorityLocked ::
  "nat \<Rightarrow> string \<Rightarrow> DomainLatencyStats \<Rightarrow> int \<Rightarrow> LatencyTable \<Rightarrow> LatencyTable" where
  "upsertAuthorityLocked key domain stats accessNs t =
     t\<lparr>lt_authorities := lt_authorities t @ [occupiedSlot key domain stats accessNs]\<rparr>"

text \<open>
  The scan of \<open>upsertRegularLocked\<close>: the first free index and the index of the oldest access so far
  with its time (the code's \<open>-1\<close> is \<open>None\<close>).
\<close>

fun scanRegular :: "nat \<Rightarrow> latencySlot list \<Rightarrow> nat option \<Rightarrow> (nat \<times> int) option \<Rightarrow> nat option \<times> (nat \<times> int) option" where
  "scanRegular i [] emptyIdx oldest = (emptyIdx, oldest)"
| "scanRegular i (slot # ss) emptyIdx oldest =
     (if \<not> sl_occupied slot
      then scanRegular (Suc i) ss (case emptyIdx of None \<Rightarrow> Some i | Some j \<Rightarrow> Some j) oldest
      else scanRegular (Suc i) ss emptyIdx
        (case oldest of
           None \<Rightarrow> Some (i, sl_lastAccessNs slot)
         | Some (j, ns) \<Rightarrow> if sl_lastAccessNs slot < ns then Some (i, sl_lastAccessNs slot) else Some (j, ns)))"

definition upsertRegularLocked ::
  "nat \<Rightarrow> string \<Rightarrow> DomainLatencyStats \<Rightarrow> int \<Rightarrow> LatencyTable \<Rightarrow> string option \<times> LatencyTable" where
  "upsertRegularLocked key domain stats accessNs t =
     (case scanRegular 0 (lt_regular t) None None of
        (Some i, _) \<Rightarrow> (None, t\<lparr>lt_regular := (lt_regular t)[i := occupiedSlot key domain stats accessNs]\<rparr>)
      | (None, Some (i, _)) \<Rightarrow>
          (Some (sl_domain (lt_regular t ! i)),
           t\<lparr>lt_regular := (lt_regular t)[i := occupiedSlot key domain stats accessNs]\<rparr>)
      | (None, None) \<Rightarrow> (None, t))"

definition tdEWMAUpdate ::
  "(int \<Rightarrow> int \<Rightarrow> int \<Rightarrow> int \<Rightarrow> int) \<Rightarrow> DomainLatencyStats option \<Rightarrow> int \<Rightarrow> int \<Rightarrow> int \<Rightarrow> DomainLatencyStats" where
  "tdEWMAUpdate mix old latency decayWindow now =
     (case old of
        None \<Rightarrow> \<lparr>ds_Ewma = latency, ds_LastUpdated = now\<rparr>
      | Some o1 \<Rightarrow> \<lparr>ds_Ewma = mix (ds_Ewma o1) latency (now - ds_LastUpdated o1)
                               (if decayWindow \<le> 0 then 1000000000 else decayWindow),
                    ds_LastUpdated = now\<rparr>)"

section \<open>Operations\<close>

definition UpdateClassified ::
  "(int \<Rightarrow> int \<Rightarrow> int \<Rightarrow> int \<Rightarrow> int) \<Rightarrow> (string \<Rightarrow> nat) \<Rightarrow> string \<Rightarrow> int \<Rightarrow> int \<Rightarrow> bool \<Rightarrow> int \<Rightarrow> LatencyTable
     \<Rightarrow> (bool \<times> string option) \<times> LatencyTable" where
  "UpdateClassified mix domainKey domain latency decayWindow isAuthority now t =
     (let key = domainKey domain;
          wasEmpty = (totalSizeLocked t = 0);
          (old, t1) = popDomainLocked key t;
          stats = tdEWMAUpdate mix old latency decayWindow now
      in if isAuthority then ((wasEmpty, None), upsertAuthorityLocked key domain stats now t1)
         else let (evicted, t2) = upsertRegularLocked key domain stats now t1 in ((wasEmpty, evicted), t2))"

definition LoadEntryClassified ::
  "(string \<Rightarrow> nat) \<Rightarrow> string \<Rightarrow> DomainLatencyStats \<Rightarrow> bool \<Rightarrow> int \<Rightarrow> LatencyTable \<Rightarrow> string option \<times> LatencyTable" where
  "LoadEntryClassified domainKey domain stats isAuthority now t =
     (let key = domainKey domain;
          accessNs = (if ds_LastUpdated stats \<le> 0 then now else ds_LastUpdated stats);
          (_, t1) = popDomainLocked key t
      in if isAuthority then (None, upsertAuthorityLocked key domain stats accessNs t1)
         else upsertRegularLocked key domain stats accessNs t1)"

text \<open>A read refreshes the access time at most once per \<open>latencyReadTouchMinInterval\<close>.\<close>

definition touchSlot :: "int \<Rightarrow> latencySlot \<Rightarrow> latencySlot" where
  "touchSlot nowNs s =
     (if nowNs - sl_lastAccessNs s \<ge> latencyReadTouchMinInterval then s\<lparr>sl_lastAccessNs := nowNs\<rparr> else s)"

definition GetDomainStats ::
  "(string \<Rightarrow> nat) \<Rightarrow> string \<Rightarrow> int \<Rightarrow> LatencyTable \<Rightarrow> DomainLatencyStats option \<times> LatencyTable" where
  "GetDomainStats domainKey domain nowNs t =
     (let key = domainKey domain in
      case findSlot key (lt_authorities t) of
        Some i \<Rightarrow> (Some (sl_stats (lt_authorities t ! i)),
                   t\<lparr>lt_authorities := (lt_authorities t)[i := touchSlot nowNs (lt_authorities t ! i)]\<rparr>)
      | None \<Rightarrow>
          (case findSlot key (lt_regular t) of
             Some i \<Rightarrow> (Some (sl_stats (lt_regular t ! i)),
                        t\<lparr>lt_regular := (lt_regular t)[i := touchSlot nowNs (lt_regular t ! i)]\<rparr>)
           | None \<Rightarrow> (None, t)))"

definition LatencyRange :: "LatencyTable \<Rightarrow> (string \<times> DomainLatencyStats) list" where
  "LatencyRange t =
     map (\<lambda>s. (sl_domain s, sl_stats s)) (filter sl_occupied (lt_authorities t) @ filter sl_occupied (lt_regular t))"

section \<open>What the table holds\<close>

definition live :: "LatencyTable \<Rightarrow> latencySlot list" where
  "live t = filter sl_occupied (lt_authorities t) @ filter sl_occupied (lt_regular t)"

text \<open>The specification of the table: its keys with their statistics.\<close>

definition known :: "LatencyTable \<Rightarrow> nat \<Rightarrow> DomainLatencyStats option" where
  "known t k = map_of (map (\<lambda>s. (sl_key s, sl_stats s)) (live t)) k"

definition lat_inv :: "nat \<Rightarrow> LatencyTable \<Rightarrow> bool" where
  "lat_inv n t \<longleftrightarrow> length (lt_regular t) = n \<and> (\<forall>s\<in>set (lt_authorities t). sl_occupied s) \<and>
     distinct (map sl_key (live t))"

lemma findSlot_SomeD:
  "findSlot k ss = Some i \<Longrightarrow> i < length ss \<and> sl_occupied (ss ! i) \<and> sl_key (ss ! i) = k"
  by (induction ss arbitrary: i) (auto split: if_splits)

lemma findSlot_None: "findSlot k ss = None \<longleftrightarrow> (\<forall>s\<in>set (filter sl_occupied ss). sl_key s \<noteq> k)"
  by (induction ss) auto

lemma findSlot_map_of:
  "map_of (map (\<lambda>s. (sl_key s, sl_stats s)) (filter sl_occupied ss)) k =
     map_option (\<lambda>i. sl_stats (ss ! i)) (findSlot k ss)"
  by (induction ss) (auto simp: option.map_comp comp_def)

lemma GetDomainStats_known: "fst (GetDomainStats domainKey d now t) = known t (domainKey d)"
  by (simp add: GetDomainStats_def known_def live_def Let_def findSlot_map_of map_add_def split: option.splits)

lemma filter_at:
  "i < length ss \<Longrightarrow> filter P ss = filter P (take i ss) @ (if P (ss ! i) then [ss ! i] else []) @ filter P (drop (Suc i) ss)"
  by (subst id_take_nth_drop [of i ss]) simp_all

lemma filter_update:
  "i < length ss \<Longrightarrow> filter P (ss[i := s]) = filter P (take i ss) @ (if P s then [s] else []) @ filter P (drop (Suc i) ss)"
  by (simp add: upd_conv_take_nth_drop)

lemma filter_without:
  "distinct (map f (xs @ x # ys)) \<Longrightarrow> filter (\<lambda>s. f s \<noteq> f x) (xs @ x # ys) = xs @ ys"
  by (auto intro!: filter_True [THEN trans, of _ _ "_ :: 'a list"]) (metis (mono_tags, lifting) filter_True image_eqI)+

text \<open>Taking a key out removes its slot and nothing else.\<close>

lemma pop_spec:
  assumes inv: "lat_inv n t" and pop: "popDomainLocked k t = (old, t')"
  shows "lat_inv n t' \<and> live t' = filter (\<lambda>s. sl_key s \<noteq> k) (live t) \<and> old = known t k"
proof -
  let ?A = "lt_authorities t" and ?R = "lt_regular t"
  have occ: "filter sl_occupied ?A = ?A" and dist: "distinct (map sl_key (live t))"
    using inv by (auto simp: lat_inv_def)
  have old: "old = known t k"
    using pop by (auto simp: popDomainLocked_def known_def live_def findSlot_map_of map_add_def split: option.splits)
  consider (auth) i where "findSlot k ?A = Some i" | (reg) i where "findSlot k ?A = None" "findSlot k ?R = Some i"
    | (none) "findSlot k ?A = None" "findSlot k ?R = None"
    by (cases "findSlot k ?A"; cases "findSlot k ?R") auto
  then have "length (lt_regular t') = n \<and> (\<forall>s\<in>set (lt_authorities t'). sl_occupied s) \<and>
      live t' = filter (\<lambda>s. sl_key s \<noteq> k) (live t)"
  proof cases
    case auth
    then have i: "i < length ?A" "sl_key (?A ! i) = k"
      using findSlot_SomeD by auto
    have "live t = take i ?A @ ?A ! i # (drop (Suc i) ?A @ filter sl_occupied ?R)"
      using id_take_nth_drop [OF i(1)] occ by (simp add: live_def)
    then have rest: "filter (\<lambda>s. sl_key s \<noteq> k) (live t) = take i ?A @ drop (Suc i) ?A @ filter sl_occupied ?R"
      using filter_without [of sl_key "take i ?A" "?A ! i"] dist i(2) by metis
    have t': "t' = t\<lparr>lt_authorities := take i ?A @ drop (Suc i) ?A\<rparr>"
      using auth pop i by (simp add: popDomainLocked_def deleteLatencySlot_def)
    have sub: "\<forall>s\<in>set (take i ?A @ drop (Suc i) ?A). sl_occupied s"
      using inv by (auto simp: lat_inv_def dest: in_set_takeD in_set_dropD)
    then have "filter sl_occupied (take i ?A @ drop (Suc i) ?A) = take i ?A @ drop (Suc i) ?A"
      by (simp only: filter_id_conv)
    then have "live t' = filter (\<lambda>s. sl_key s \<noteq> k) (live t)"
      unfolding rest by (simp add: live_def t')
    then show ?thesis
      using inv sub by (simp add: t' lat_inv_def)
  next
    case reg
    then have i: "i < length ?R" "sl_key (?R ! i) = k" "sl_occupied (?R ! i)"
      using findSlot_SomeD by auto
    have "live t = (?A @ filter sl_occupied (take i ?R)) @ ?R ! i # filter sl_occupied (drop (Suc i) ?R)"
      using filter_at [OF i(1), of sl_occupied] occ i(3) by (simp add: live_def)
    then have rest: "filter (\<lambda>s. sl_key s \<noteq> k) (live t) = (?A @ filter sl_occupied (take i ?R)) @ filter sl_occupied (drop (Suc i) ?R)"
      using filter_without [of sl_key "?A @ filter sl_occupied (take i ?R)" "?R ! i"] dist i(2) by metis
    have t': "t' = t\<lparr>lt_regular := ?R[i := zeroSlot]\<rparr>"
      using reg pop by (simp add: popDomainLocked_def)
    have "live t' = filter (\<lambda>s. sl_key s \<noteq> k) (live t)"
      unfolding rest using occ i(1) by (simp add: live_def t' filter_update zeroSlot_def)
    then show ?thesis
      using inv by (simp add: t' lat_inv_def)
  next
    case none
    then have "t' = t"
      using pop by (simp add: popDomainLocked_def)
    moreover have "\<forall>s\<in>set (live t). sl_key s \<noteq> k"
      using none by (auto simp: live_def findSlot_None)
    ultimately show ?thesis
      using inv by (simp add: lat_inv_def filter_id_conv)
  qed
  then show ?thesis
    using old dist by (auto simp: lat_inv_def distinct_map_filter)
qed

text \<open>What the scan for a slot finds.\<close>

lemma scan_fst:
  "fst (scanRegular i ss e old) = Some j \<Longrightarrow>
     e = Some j \<or> e = None \<and> i \<le> j \<and> j < i + length ss \<and> \<not> sl_occupied (ss ! (j - i))"
proof (induction i ss e old rule: scanRegular.induct)
  case (2 i slot ss e old)
  then show ?case
    by (auto simp: nth_Cons' Suc_le_eq split: if_splits option.splits)
qed simp

lemma scan_fst_None:
  "fst (scanRegular i ss e old) = None \<longleftrightarrow> e = None \<and> (\<forall>s\<in>set ss. sl_occupied s)"
  by (induction i ss e old rule: scanRegular.induct) (auto split: option.splits)

lemma scan_snd:
  "snd (scanRegular i ss e old) = Some (j, ns) \<Longrightarrow>
     (old = Some (j, ns) \<or> i \<le> j \<and> j < i + length ss \<and> sl_occupied (ss ! (j - i)) \<and> sl_lastAccessNs (ss ! (j - i)) = ns) \<and>
     (\<forall>s\<in>set ss. sl_occupied s \<longrightarrow> ns \<le> sl_lastAccessNs s) \<and> (\<forall>j0 n0. old = Some (j0, n0) \<longrightarrow> ns \<le> n0)"
proof (induction i ss e old rule: scanRegular.induct)
  case (2 i slot ss e old)
  then show ?case
    by (auto simp: nth_Cons' Suc_le_eq split: if_splits option.splits)
qed simp

lemma scan_snd_None:
  "snd (scanRegular i ss e old) = None \<longleftrightarrow> old = None \<and> (\<forall>s\<in>set ss. \<not> sl_occupied s)"
  by (induction i ss e old rule: scanRegular.induct) (auto split: option.splits)

lemma stats_absent: "k \<notin> sl_key ` set ss \<Longrightarrow> map_of (map (\<lambda>s. (sl_key s, sl_stats s)) ss) k = None"
  by (induction ss) auto

text \<open>Replacing one regular slot, free or not, by a slot with a new key.\<close>

lemma known_replace:
  assumes inv: "lat_inv n t" and i: "i < length (lt_regular t)" and new: "\<forall>s\<in>set (live t). sl_key s \<noteq> k"
  shows "let t' = t\<lparr>lt_regular := (lt_regular t)[i := occupiedSlot k d st ns]\<rparr> in
    lat_inv n t' \<and> known t' k = Some st \<and>
    (\<forall>k'. k' \<noteq> k \<longrightarrow> known t' k' =
       (if sl_occupied (lt_regular t ! i) \<and> k' = sl_key (lt_regular t ! i) then None else known t k'))"
proof -
  let ?t' = "t\<lparr>lt_regular := (lt_regular t)[i := occupiedSlot k d st ns]\<rparr>"
  let ?v = "lt_regular t ! i"
  define L R where "L = filter sl_occupied (lt_authorities t) @ filter sl_occupied (take i (lt_regular t))"
    and "R = filter sl_occupied (drop (Suc i) (lt_regular t))"
  have live: "live t = L @ (if sl_occupied ?v then [?v] else []) @ R"
    using filter_at [OF i, of sl_occupied] by (simp add: live_def L_def R_def)
  have live': "live ?t' = L @ occupiedSlot k d st ns # R"
    using filter_update [OF i, of sl_occupied] by (simp add: live_def L_def R_def occupiedSlot_def)
  have dist: "distinct (map sl_key (live t))"
    using inv by (simp add: lat_inv_def)
  have keys: "k \<notin> sl_key ` set L" "k \<notin> sl_key ` set R"
    using new by (auto simp: live)
  have "lat_inv n ?t'"
    using inv dist keys unfolding lat_inv_def live' live
    by (auto simp: occupiedSlot_def split: if_splits)
  moreover have "known ?t' k = Some st"
    unfolding known_def live'
    using keys by (simp add: occupiedSlot_def map_add_def stats_absent)
  moreover have "known ?t' k' = (if sl_occupied ?v \<and> k' = sl_key ?v then None else known t k')" if "k' \<noteq> k" for k'
  proof (cases "sl_occupied ?v")
    case True
    then have "sl_key ?v \<notin> sl_key ` set L" "sl_key ?v \<notin> sl_key ` set R"
      using dist by (auto simp: live)
    then show ?thesis
      unfolding known_def live' live
      using that True by (auto simp: occupiedSlot_def map_add_def stats_absent split: option.splits)
  next
    case False
    then show ?thesis
      unfolding known_def live' live using that by (simp add: occupiedSlot_def map_add_def split: option.splits)
  qed
  ultimately show ?thesis
    by (simp add: Let_def)
qed

text \<open>The regular domain with the oldest access, the one a full partition gives up.\<close>

definition stalest :: "LatencyTable \<Rightarrow> latencySlot \<Rightarrow> bool" where
  "stalest t v \<longleftrightarrow> v \<in> set (lt_regular t) \<and> (\<forall>s\<in>set (lt_regular t). sl_occupied s \<and> sl_lastAccessNs v \<le> sl_lastAccessNs s)"

lemma upsertRegular_spec:
  assumes inv: "lat_inv n t" and n: "0 < n" and new: "\<forall>s\<in>set (live t). sl_key s \<noteq> k"
    and up: "upsertRegularLocked k d st ns t = (ev, t')"
  shows "\<exists>v. (case v of None \<Rightarrow> ev = None | Some s \<Rightarrow> ev = Some (sl_domain s) \<and> stalest t s) \<and>
    lat_inv n t' \<and> known t' k = Some st \<and>
    (\<forall>k'. k' \<noteq> k \<longrightarrow> known t' k' = (if v \<noteq> None \<and> k' = sl_key (the v) then None else known t k'))"
proof (cases "fst (scanRegular 0 (lt_regular t) None None)")
  case (Some i)
  then have i: "i < length (lt_regular t)" "\<not> sl_occupied (lt_regular t ! i)"
    using scan_fst by fastforce+
  have "ev = None" "t' = t\<lparr>lt_regular := (lt_regular t)[i := occupiedSlot k d st ns]\<rparr>"
    using up Some by (auto simp: upsertRegularLocked_def split: prod.splits)
  then show ?thesis
    using known_replace [OF inv i(1) new, of d st ns] i(2) by (intro exI [of _ None]) (simp add: Let_def)
next
  case None
  then have occ: "\<forall>s\<in>set (lt_regular t). sl_occupied s"
    using scan_fst_None by fastforce
  have "lt_regular t \<noteq> []"
    using inv n by (auto simp: lat_inv_def)
  then obtain i m where im: "snd (scanRegular 0 (lt_regular t) None None) = Some (i, m)"
    using scan_snd_None [of 0 "lt_regular t" None None] occ by (metis list.set_sel(1) not_None_eq surj_pair)
  then have i: "i < length (lt_regular t)" "stalest t (lt_regular t ! i)"
    using scan_snd [OF im] occ by (auto simp: stalest_def)
  have "ev = Some (sl_domain (lt_regular t ! i))" "t' = t\<lparr>lt_regular := (lt_regular t)[i := occupiedSlot k d st ns]\<rparr>"
    using up None im by (auto simp: upsertRegularLocked_def split: prod.splits)
  then show ?thesis
    using known_replace [OF inv i(1) new, of d st ns] i occ
    by (intro exI [of _ "Some (lt_regular t ! i)"]) (simp add: Let_def)
qed

lemma known_pop:
  assumes "popDomainLocked k t = (old, t')" "lat_inv n t"
  shows "known t' k' = (if k' = k then None else known t k')"
proof -
  have "live t' = filter (\<lambda>s. sl_key s \<noteq> k) (live t)"
    using pop_spec [OF assms(2,1)] by simp
  moreover have "map_of (map (\<lambda>s. (sl_key s, sl_stats s)) (filter (\<lambda>s. sl_key s \<noteq> k) ss)) k' =
      (if k' = k then None else map_of (map (\<lambda>s. (sl_key s, sl_stats s)) ss) k')" for ss
    by (induction ss) auto
  ultimately show ?thesis
    by (simp only: known_def)
qed

lemma distinct_middle:
  "distinct (map f (xs @ ys)) \<Longrightarrow> f x \<notin> f ` set xs \<Longrightarrow> f x \<notin> f ` set ys \<Longrightarrow> distinct (map f (xs @ x # ys))"
  by auto

lemma upsertAuthority_spec:
  assumes "lat_inv n t" "\<forall>s\<in>set (live t). sl_key s \<noteq> k"
  shows "lat_inv n (upsertAuthorityLocked k d st ns t) \<and>
    known (upsertAuthorityLocked k d st ns t) = (known t)(k \<mapsto> st)"
proof -
  let ?t' = "upsertAuthorityLocked k d st ns t"
  have live': "live ?t' = filter sl_occupied (lt_authorities t) @ occupiedSlot k d st ns # filter sl_occupied (lt_regular t)"
    by (simp add: live_def upsertAuthorityLocked_def occupiedSlot_def)
  have keys: "k \<notin> sl_key ` set (filter sl_occupied (lt_authorities t))" "k \<notin> sl_key ` set (filter sl_occupied (lt_regular t))"
    using assms(2) by (auto simp: live_def)
  have "distinct (map sl_key (live ?t'))"
    unfolding live' using keys assms(1)
    by (intro distinct_middle) (simp_all only: lat_inv_def live_def occupiedSlot_def latencySlot.select_convs not_False_eq_True)
  then have "lat_inv n ?t'"
    using assms(1) by (auto simp: lat_inv_def upsertAuthorityLocked_def occupiedSlot_def)
  moreover have "known ?t' k' = ((known t)(k \<mapsto> st)) k'" for k'
    unfolding known_def live' using stats_absent [OF keys(1)]
    by (auto simp: live_def occupiedSlot_def map_add_def split: option.splits)
  ultimately show ?thesis
    by blast
qed

lemma pop_absent: "popDomainLocked k t = (old, t') \<Longrightarrow> lat_inv n t \<Longrightarrow> \<forall>s\<in>set (live t'). sl_key s \<noteq> k"
  using pop_spec [of n t k old t'] by simp

section \<open>Updates and lookups\<close>

text \<open>Storing the statistics of a key after its old slot, if any, was taken out.\<close>

definition placed ::
  "nat \<Rightarrow> nat \<Rightarrow> DomainLatencyStats \<Rightarrow> LatencyTable \<Rightarrow> LatencyTable \<Rightarrow> string option \<Rightarrow> bool" where
  "placed n k st t t' ev \<longleftrightarrow>
     (\<exists>v. (case v of None \<Rightarrow> ev = None
           | Some s \<Rightarrow> ev = Some (sl_domain s) \<and> stalest (snd (popDomainLocked k t)) s) \<and>
       lat_inv n t' \<and> known t' k = Some st \<and>
       (\<forall>k'. k' \<noteq> k \<longrightarrow> known t' k' = (if v \<noteq> None \<and> k' = sl_key (the v) then None else known t k')))"

lemma placed_authority:
  assumes "lat_inv n t" "popDomainLocked k t = (old, t1)"
  shows "placed n k st t (upsertAuthorityLocked k d st ns t1) None"
proof -
  have "lat_inv n t1" "\<forall>s\<in>set (live t1). sl_key s \<noteq> k"
    using pop_spec [OF assms] pop_absent [OF assms(2,1)] by auto
  then have "lat_inv n (upsertAuthorityLocked k d st ns t1)"
    "known (upsertAuthorityLocked k d st ns t1) = (known t1)(k \<mapsto> st)"
    using upsertAuthority_spec [of n t1 k d st ns] by blast+
  then show ?thesis
    unfolding placed_def by (intro exI [of _ None]) (simp add: known_pop [OF assms(2,1)])
qed

lemma placed_regular:
  assumes "lat_inv n t" "0 < n" "popDomainLocked k t = (old, t1)" "upsertRegularLocked k d st ns t1 = (ev, t2)"
  shows "placed n k st t t2 ev"
proof -
  have "lat_inv n t1" "\<forall>s\<in>set (live t1). sl_key s \<noteq> k"
    using pop_spec [OF assms(1,3)] pop_absent [OF assms(3,1)] by auto
  from upsertRegular_spec [OF this(1) assms(2) this(2) assms(4)] show ?thesis
    unfolding placed_def assms(3) snd_conv by (simp add: known_pop [OF assms(3,1)] cong: if_cong)
qed

lemma UpdateClassified_placed:
  assumes "lat_inv n t" "0 < n"
    "UpdateClassified mix domainKey d lat win auth now t = ((wasEmpty, ev), t')"
  shows "placed n (domainKey d) (tdEWMAUpdate mix (known t (domainKey d)) lat win now) t t' ev"
proof -
  obtain old t1 where pop: "popDomainLocked (domainKey d) t = (old, t1)"
    by fastforce
  have "old = known t (domainKey d)"
    using pop_spec [OF assms(1) pop] by simp
  then show ?thesis
    using assms(3) pop placed_authority [OF assms(1) pop] placed_regular [OF assms(1,2) pop]
    by (auto simp: UpdateClassified_def Let_def split: if_splits prod.splits)
qed

lemma LoadEntryClassified_placed:
  assumes "lat_inv n t" "0 < n" "LoadEntryClassified domainKey d st auth now t = (ev, t')"
  shows "placed n (domainKey d) st t t' ev"
proof -
  obtain old t1 where pop: "popDomainLocked (domainKey d) t = (old, t1)"
    by fastforce
  then show ?thesis
    using assms(3) placed_authority [OF assms(1) pop] placed_regular [OF assms(1,2) pop]
    by (auto simp: LoadEntryClassified_def Let_def split: if_splits)
qed

text \<open>A read changes access times only.\<close>

lemma live_touch:
  "findSlot k ss = Some i \<Longrightarrow>
     map sl_key (filter sl_occupied (ss[i := touchSlot now (ss ! i)])) = map sl_key (filter sl_occupied ss) \<and>
     map (\<lambda>s. (sl_key s, sl_stats s)) (filter sl_occupied (ss[i := touchSlot now (ss ! i)])) =
     map (\<lambda>s. (sl_key s, sl_stats s)) (filter sl_occupied ss)"
proof (induction ss arbitrary: i)
  case (Cons s ss)
  then show ?case
    by (cases i) (auto simp: touchSlot_def split: if_splits)
qed simp

lemma GetDomainStats_keeps:
  assumes "lat_inv n t"
  shows "lat_inv n (snd (GetDomainStats domainKey d now t)) \<and> known (snd (GetDomainStats domainKey d now t)) = known t"
proof -
  have occ: "\<forall>s\<in>set (lt_authorities t). sl_occupied s"
    using assms by (simp add: lat_inv_def)
  let ?t' = "snd (GetDomainStats domainKey d now t)"
  have "\<forall>s\<in>set ((lt_authorities t)[i := touchSlot now (lt_authorities t ! i)]). sl_occupied s"
    if "i < length (lt_authorities t)" for i
    using occ that by (auto simp: touchSlot_def dest!: set_update_subset_insert [THEN subsetD])
  then have "\<forall>s\<in>set (lt_authorities ?t'). sl_occupied s" "length (lt_regular ?t') = length (lt_regular t)"
    using occ by (auto simp: GetDomainStats_def Let_def dest: findSlot_SomeD split: option.splits)
  moreover have live: "map sl_key (live ?t') = map sl_key (live t)"
    "map (\<lambda>s. (sl_key s, sl_stats s)) (live ?t') = map (\<lambda>s. (sl_key s, sl_stats s)) (live t)"
    by (auto simp: GetDomainStats_def Let_def live_def live_touch split: option.splits)
  ultimately show ?thesis
    using assms unfolding lat_inv_def known_def live by simp
qed

datatype lat_op = OpUpdate string int int bool int | OpLoad string DomainLatencyStats bool int | OpGet string int

fun lat_step :: "(int \<Rightarrow> int \<Rightarrow> int \<Rightarrow> int \<Rightarrow> int) \<Rightarrow> (string \<Rightarrow> nat) \<Rightarrow> lat_op \<Rightarrow> LatencyTable \<Rightarrow> LatencyTable" where
  "lat_step mix domainKey (OpUpdate d lat win auth now) t = snd (UpdateClassified mix domainKey d lat win auth now t)"
| "lat_step mix domainKey (OpLoad d st auth now) t = snd (LoadEntryClassified domainKey d st auth now t)"
| "lat_step mix domainKey (OpGet d now) t = snd (GetDomainStats domainKey d now t)"

lemma lat_step_inv: "lat_inv n t \<Longrightarrow> 0 < n \<Longrightarrow> lat_inv n (lat_step mix domainKey op t)"
proof (cases op)
  case (OpUpdate d lat win auth now)
  moreover assume "lat_inv n t" "0 < n"
  ultimately show ?thesis
    using UpdateClassified_placed [of n t mix domainKey d lat win auth now]
    by (cases "UpdateClassified mix domainKey d lat win auth now t") (force simp: placed_def)
next
  case (OpLoad d st auth now)
  moreover assume "lat_inv n t" "0 < n"
  ultimately show ?thesis
    using LoadEntryClassified_placed [of n t domainKey d st auth now]
    by (cases "LoadEntryClassified domainKey d st auth now t") (force simp: placed_def)
next
  case (OpGet d now)
  moreover assume "lat_inv n t" "0 < n"
  ultimately show ?thesis
    using GetDomainStats_keeps [of n t] by simp
qed

interpretation lat_machine: state_machine "lat_step mix domainKey" "\<lambda>t. \<exists>n>0. lat_inv n t" for mix domainKey
  by unfold_locales (blast intro: lat_step_inv)

lemma lat_run_inv:
  "NewLatencyTable m = Some t0 \<Longrightarrow> lat_inv (nat m) (fold (lat_step mix domainKey) ops t0) \<and> 0 < nat m"
proof -
  assume new: "NewLatencyTable m = Some t0"
  then have m: "0 < nat m" and t0: "t0 = \<lparr>lt_authorities = [], lt_regular = replicate (nat m) zeroSlot\<rparr>"
    by (auto simp: NewLatencyTable_def split: if_splits)
  have "lat_inv (nat m) t0"
    by (simp add: t0 lat_inv_def live_def filter_False zeroSlot_def)
  moreover have "lat_inv (nat m) t \<Longrightarrow> lat_inv (nat m) (fold (lat_step mix domainKey) ops t)" for t
    by (induction ops arbitrary: t) (auto intro: lat_step_inv [OF _ m])
  ultimately show ?thesis
    using m by blast
qed

text \<open>
  C37. Whatever was recorded, loaded and read before, recording a latency of a domain makes its
  decayed average the one a lookup returns, and changes no other domain except when the regular
  partition is full: then exactly one domain is given up, it is reported, and no regular domain
  was accessed longer ago. The regular partition never exceeds the capacity the table was made with.
\<close>
theorem latency_update_spec:
  assumes "NewLatencyTable m = Some t0"
  shows "let t = fold (lat_step mix domainKey) ops t0; k = domainKey d;
             ((wasEmpty, ev), t') = UpdateClassified mix domainKey d lat win auth now t
    in length (filter sl_occupied (lt_regular t')) \<le> nat m \<and>
       fst (GetDomainStats domainKey d now' t') =
         Some (tdEWMAUpdate mix (fst (GetDomainStats domainKey d now t)) lat win now) \<and>
       (\<exists>v. (case v of None \<Rightarrow> ev = None
             | Some s \<Rightarrow> ev = Some (sl_domain s) \<and> stalest (snd (popDomainLocked k t)) s) \<and>
          (\<forall>d'. domainKey d' \<noteq> k \<longrightarrow> fst (GetDomainStats domainKey d' now' t') =
             (if v \<noteq> None \<and> domainKey d' = sl_key (the v) then None else fst (GetDomainStats domainKey d' now t))))"
proof -
  let ?t = "fold (lat_step mix domainKey) ops t0"
  obtain wasEmpty ev t' where up: "UpdateClassified mix domainKey d lat win auth now ?t = ((wasEmpty, ev), t')"
    by (metis prod.exhaust)
  have "lat_inv (nat m) ?t" "0 < nat m"
    using lat_run_inv [OF assms] by auto
  from UpdateClassified_placed [OF this up]
  have placed: "placed (nat m) (domainKey d) (tdEWMAUpdate mix (known ?t (domainKey d)) lat win now) ?t t' ev" .
  then have "length (lt_regular t') = nat m"
    by (auto simp: placed_def lat_inv_def)
  then have "length (filter sl_occupied (lt_regular t')) \<le> nat m"
    using length_filter_le [of sl_occupied "lt_regular t'"] by simp
  then show ?thesis
    using placed unfolding up Let_def prod.case GetDomainStats_known placed_def by blast
qed

theorem latency_update_spec_witness:
  "let t0 = \<lparr>lt_authorities = [], lt_regular = [zeroSlot]\<rparr>;
       t = fold (lat_step (\<lambda>a b c d. a) length) [OpUpdate ''a'' 7 1 False 2] t0;
       r = UpdateClassified (\<lambda>a b c d. a) length ''ab'' 5 1 False 3 t in
   NewLatencyTable 1 = Some t0 \<and> snd (fst r) = Some ''a'' \<and>
   fst (GetDomainStats length ''ab'' 4 (snd r)) = Some \<lparr>ds_Ewma = 5, ds_LastUpdated = 3\<rparr>"
proof -
  let ?init = "\<lparr>lt_authorities = [], lt_regular = [zeroSlot]\<rparr>"
  let ?t = "fold (lat_step (\<lambda>a b c d. a) length) [OpUpdate ''a'' 7 1 False 2] ?init"
  let ?r = "UpdateClassified (\<lambda>a b c d. a) length ''ab'' 5 1 False 3 ?t"
  have new: "NewLatencyTable 1 = Some ?init"
    by (simp add: NewLatencyTable_def)
  have old: "tdEWMAUpdate (\<lambda>a b c d. a) (fst (GetDomainStats length ''ab'' 3 ?t)) 5 1 3 = \<lparr>ds_Ewma = 5, ds_LastUpdated = 3\<rparr>"
    by code_simp
  have ev: "snd (fst ?r) = Some ''a''"
    by code_simp
  obtain w e t' where r: "?r = ((w, e), t')"
    by (metis prod.exhaust)
  have "fst (GetDomainStats length ''ab'' 4 (snd ?r)) = Some \<lparr>ds_Ewma = 5, ds_LastUpdated = 3\<rparr>"
    using latency_update_spec [OF new, where mix = "\<lambda>a b c d. a" and domainKey = length and d = "''ab''"
        and ops = "[OpUpdate ''a'' 7 1 False 2]" and lat = 5 and win = 1 and auth = False and now = 3 and now' = 4]
    unfolding r Let_def prod.case old snd_conv by blast
  then show ?thesis
    using new ev unfolding Let_def by blast
qed

end
