(* ===== verification/Node_Entry.thy ===== *)
theory Node_Entry
  imports Net_Addr Routable_View Latency_Table
begin

text \<open>
  A node of the global pool (\<open>internal/node/entry.go\<close>). Pointers that may be nil are options,
  \<open>Outbound\<close> is whether an outbound is installed, a compiled regular expression is the predicate it
  decides. A subscription lookup returns the subscription's name, whether it is enabled and the tags
  it gives the node, or \<open>None\<close> when it does not hold the node; a missing lookup function is \<open>None\<close>.

  The theory shows what the tag filter means and that a recorded probe failure reads back whole.
\<close>

record NodeEntry =
  ne_Hash :: Hash
  ne_RawOptions :: string
  ne_Protocol :: string
  ne_subscriptionIDs :: "string list"
  ne_LastError :: string
  ne_FailureCount :: int
  ne_CircuitOpenSince :: int
  ne_egressIP :: "Addr option"
  ne_egressRegion :: "string option"
  ne_LastEgressUpdate :: int
  ne_LastLatencyProbeAttempt :: int
  ne_LastAuthorityLatencyProbeAttempt :: int
  ne_LastEgressUpdateAttempt :: int
  ne_probeErrorClass :: "string option"
  ne_probeErrorDetail :: "string option"
  ne_probeErrorAt :: int
  ne_LatencyTable :: "LatencyTable option"
  ne_Outbound :: bool

type_synonym SubLookupFunc = "string \<Rightarrow> Hash \<Rightarrow> (string \<times> bool \<times> string list) option"

record TagFilter =
  tf_Any :: "(string \<Rightarrow> bool) list"
  tf_Must :: "(string \<Rightarrow> bool) list"
  tf_MustNot :: "(string \<Rightarrow> bool) list"

definition TagFilterEmpty :: "TagFilter \<Rightarrow> bool" where
  "TagFilterEmpty f \<longleftrightarrow> length (tf_Any f) = 0 \<and> length (tf_Must f) = 0 \<and> length (tf_MustNot f) = 0"

section \<open>Subscriptions\<close>

definition AddSubscriptionID :: "string \<Rightarrow> NodeEntry \<Rightarrow> NodeEntry" where
  "AddSubscriptionID subID e =
     (if subID \<in> set (ne_subscriptionIDs e) then e
      else e\<lparr>ne_subscriptionIDs := ne_subscriptionIDs e @ [subID]\<rparr>)"

text \<open>\<open>RemoveSubscriptionID\<close> takes out the first occurrence and reports whether none is left.\<close>

definition RemoveSubscriptionID :: "string \<Rightarrow> NodeEntry \<Rightarrow> bool \<times> NodeEntry" where
  "RemoveSubscriptionID subID e =
     (let ids = remove1 subID (ne_subscriptionIDs e) in (ids = [], e\<lparr>ne_subscriptionIDs := ids\<rparr>))"

definition SubscriptionCount :: "NodeEntry \<Rightarrow> nat" where
  "SubscriptionCount e = length (ne_subscriptionIDs e)"

definition matchesAll :: "string \<Rightarrow> (string \<Rightarrow> bool) list \<Rightarrow> bool" where
  "matchesAll s regexes \<longleftrightarrow> list_all (\<lambda>re. re s) regexes"

definition matchesAny :: "string \<Rightarrow> (string \<Rightarrow> bool) list \<Rightarrow> bool" where
  "matchesAny s regexes \<longleftrightarrow> list_ex (\<lambda>re. re s) regexes"

text \<open>
  The loops of \<open>MatchTagFilter\<close> over the tags of one subscription and over the subscriptions.
  \<open>None\<close> is the early return on a forbidden tag; otherwise the flags seen so far.
\<close>

fun matchTags :: "TagFilter \<Rightarrow> string \<Rightarrow> string list \<Rightarrow> bool \<Rightarrow> bool option" where
  "matchTags f name [] matchedPositive = Some matchedPositive"
| "matchTags f name (tag # tags) matchedPositive =
     (let candidate = name @ ''/'' @ tag in
      if matchesAny candidate (tf_MustNot f) then None
      else matchTags f name tags
        (matchedPositive \<or>
         (matchesAll candidate (tf_Must f) \<and> (length (tf_Any f) = 0 \<or> matchesAny candidate (tf_Any f)))))"

fun matchSubs ::
  "TagFilter \<Rightarrow> SubLookupFunc \<Rightarrow> Hash \<Rightarrow> string list \<Rightarrow> bool \<Rightarrow> bool \<Rightarrow> (bool \<times> bool) option" where
  "matchSubs f lookup h [] hasEnabled matchedPositive = Some (hasEnabled, matchedPositive)"
| "matchSubs f lookup h (subID # subs) hasEnabled matchedPositive =
     (case lookup subID h of
        Some (name, True, tags) \<Rightarrow>
          (case matchTags f name tags matchedPositive of
             None \<Rightarrow> None
           | Some m \<Rightarrow> matchSubs f lookup h subs True m)
      | _ \<Rightarrow> matchSubs f lookup h subs hasEnabled matchedPositive)"

definition MatchTagFilter :: "TagFilter \<Rightarrow> SubLookupFunc option \<Rightarrow> NodeEntry \<Rightarrow> bool" where
  "MatchTagFilter f subLookup e =
     (case subLookup of
        None \<Rightarrow> TagFilterEmpty f
      | Some lookup \<Rightarrow>
          if ne_subscriptionIDs e = [] then False
          else case matchSubs f lookup (ne_Hash e) (ne_subscriptionIDs e) False False of
            None \<Rightarrow> False
          | Some (hasEnabled, matchedPositive) \<Rightarrow>
              if length (tf_Any f) = 0 \<and> length (tf_Must f) = 0 then hasEnabled else matchedPositive)"

definition HasEnabledSubscription :: "SubLookupFunc option \<Rightarrow> NodeEntry \<Rightarrow> bool" where
  "HasEnabledSubscription subLookup e =
     (case subLookup of
        None \<Rightarrow> False
      | Some lookup \<Rightarrow>
          list_ex (\<lambda>subID. case lookup subID (ne_Hash e) of Some (_, enabled, _) \<Rightarrow> enabled | None \<Rightarrow> False)
            (ne_subscriptionIDs e))"

definition IsDisabledBySubscriptions :: "SubLookupFunc option \<Rightarrow> NodeEntry \<Rightarrow> bool" where
  "IsDisabledBySubscriptions subLookup e \<longleftrightarrow> \<not> HasEnabledSubscription subLookup e"

section \<open>Health and egress\<close>

definition IsCircuitOpen :: "NodeEntry \<Rightarrow> bool" where
  "IsCircuitOpen e \<longleftrightarrow> ne_CircuitOpenSince e \<noteq> 0"

definition HasLatency :: "NodeEntry \<Rightarrow> bool" where
  "HasLatency e \<longleftrightarrow> (case ne_LatencyTable e of None \<Rightarrow> False | Some t \<Rightarrow> 0 < LatencySize t)"

definition HasOutbound :: "NodeEntry \<Rightarrow> bool" where
  "HasOutbound e \<longleftrightarrow> ne_Outbound e"

definition IsHealthy :: "NodeEntry \<Rightarrow> bool" where
  "IsHealthy e \<longleftrightarrow> \<not> IsCircuitOpen e \<and> HasOutbound e"

definition GetEgressIP :: "NodeEntry \<Rightarrow> Addr" where
  "GetEgressIP e = (case ne_egressIP e of None \<Rightarrow> ZeroAddr | Some ip \<Rightarrow> ip)"

definition SetEgressIP :: "Addr \<Rightarrow> NodeEntry \<Rightarrow> NodeEntry" where
  "SetEgressIP ip e = e\<lparr>ne_egressIP := Some ip\<rparr>"

definition GetEgressRegion :: "NodeEntry \<Rightarrow> string" where
  "GetEgressRegion e = (case ne_egressRegion e of None \<Rightarrow> [] | Some r \<Rightarrow> r)"

definition SetEgressRegion :: "string \<Rightarrow> NodeEntry \<Rightarrow> NodeEntry" where
  "SetEgressRegion region e =
     (let r = ToLower (TrimSpace region) in
      if r = [] then e\<lparr>ne_egressRegion := None\<rparr> else e\<lparr>ne_egressRegion := Some r\<rparr>)"

definition GetRegion :: "(Addr \<Rightarrow> string) option \<Rightarrow> NodeEntry \<Rightarrow> string" where
  "GetRegion geoLookup e =
     (if GetEgressRegion e \<noteq> [] then GetEgressRegion e
      else case geoLookup of
        None \<Rightarrow> []
      | Some geo \<Rightarrow> if \<not> IsValid (GetEgressIP e) then [] else geo (GetEgressIP e))"

definition SetLastError :: "string \<Rightarrow> NodeEntry \<Rightarrow> NodeEntry" where
  "SetLastError msg e = e\<lparr>ne_LastError := msg\<rparr>"

section \<open>Probe failures\<close>

definition ClearProbeFailure :: "NodeEntry \<Rightarrow> NodeEntry" where
  "ClearProbeFailure e = e\<lparr>ne_probeErrorClass := None, ne_probeErrorDetail := None, ne_probeErrorAt := 0\<rparr>"

text \<open>\<open>at = None\<close> is Go's zero time, which the code replaces by the current time.\<close>

definition SetProbeFailure :: "string \<Rightarrow> string \<Rightarrow> int option \<Rightarrow> int \<Rightarrow> NodeEntry \<Rightarrow> NodeEntry" where
  "SetProbeFailure cls detail at1 now e =
     (if cls = [] \<or> detail = [] then ClearProbeFailure e
      else e\<lparr>ne_probeErrorClass := Some cls, ne_probeErrorDetail := Some detail,
             ne_probeErrorAt := (case at1 of None \<Rightarrow> now | Some ns \<Rightarrow> ns)\<rparr>)"

definition GetProbeFailure :: "NodeEntry \<Rightarrow> string \<times> string \<times> int option" where
  "GetProbeFailure e =
     (case ne_probeErrorClass e of
        None \<Rightarrow> ([], [], None)
      | Some cls \<Rightarrow>
          if cls = [] \<or> ne_probeErrorAt e = 0 then ([], [], None)
          else (cls, (case ne_probeErrorDetail e of None \<Rightarrow> [] | Some d \<Rightarrow> d), Some (ne_probeErrorAt e)))"

lemma probe_failure_roundtrip:
  "cls \<noteq> [] \<Longrightarrow> detail \<noteq> [] \<Longrightarrow> (case at1 of None \<Rightarrow> now | Some ns \<Rightarrow> ns) \<noteq> 0 \<Longrightarrow>
   GetProbeFailure (SetProbeFailure cls detail at1 now e) =
     (cls, detail, Some (case at1 of None \<Rightarrow> now | Some ns \<Rightarrow> ns))"
  by (simp add: GetProbeFailure_def SetProbeFailure_def)

section \<open>What the tag filter means\<close>

text \<open>The candidates a node offers: its tags in every enabled subscription that holds it.\<close>

definition candidates :: "SubLookupFunc \<Rightarrow> Hash \<Rightarrow> string list \<Rightarrow> string list" where
  "candidates lookup h subs =
     concat (map (\<lambda>subID. case lookup subID h of
       Some (name, True, tags) \<Rightarrow> map (\<lambda>tag. name @ ''/'' @ tag) tags | _ \<Rightarrow> []) subs)"

definition positive :: "TagFilter \<Rightarrow> string \<Rightarrow> bool" where
  "positive f s \<longleftrightarrow> matchesAll s (tf_Must f) \<and> (tf_Any f = [] \<or> matchesAny s (tf_Any f))"

lemma matchTags_spec:
  "matchTags f name tags m =
     (let cs = map (\<lambda>tag. name @ ''/'' @ tag) tags in
      if list_ex (\<lambda>s. matchesAny s (tf_MustNot f)) cs then None else Some (m \<or> list_ex (positive f) cs))"
  by (induction tags arbitrary: m) (simp_all add: Let_def positive_def disj_assoc)

lemma matchSubs_spec:
  "matchSubs f lookup h subs en m =
     (let cs = candidates lookup h subs in
      if list_ex (\<lambda>s. matchesAny s (tf_MustNot f)) cs then None
      else Some (en \<or> list_ex (\<lambda>subID. \<exists>name tags. lookup subID h = Some (name, True, tags)) subs,
                 m \<or> list_ex (positive f) cs))"
proof (induction subs arbitrary: en m)
  case (Cons subID subs)
  show ?case
  proof (cases "\<exists>name tags. lookup subID h = Some (name, True, tags)")
    case True
    then show ?thesis
      using Cons by (auto simp: Let_def candidates_def matchTags_spec disj_assoc)
  next
    case False
    then have "matchSubs f lookup h (subID # subs) en m = matchSubs f lookup h subs en m"
      "candidates lookup h (subID # subs) = candidates lookup h subs"
      by (auto simp: candidates_def split: option.splits bool.splits)
    then show ?thesis
      using Cons False by (simp add: Let_def)
  qed
qed (simp add: candidates_def)

lemma HasEnabledSubscription_iff:
  "HasEnabledSubscription (Some lookup) e \<longleftrightarrow>
     (\<exists>subID\<in>set (ne_subscriptionIDs e). \<exists>name tags. lookup subID (ne_Hash e) = Some (name, True, tags))"
proof -
  have "(case lookup subID (ne_Hash e) of Some (_, enabled, _) \<Rightarrow> enabled | None \<Rightarrow> False) \<longleftrightarrow>
      (\<exists>name tags. lookup subID (ne_Hash e) = Some (name, True, tags))" for subID
    by (auto split: option.splits)
  then show ?thesis
    by (simp add: HasEnabledSubscription_def list_ex_iff)
qed

lemma MatchTagFilter_iff:
  "MatchTagFilter f (Some lookup) e \<longleftrightarrow>
     (let cs = candidates lookup (ne_Hash e) (ne_subscriptionIDs e) in
      (\<forall>s\<in>set cs. \<not> matchesAny s (tf_MustNot f)) \<and>
      (if tf_Any f = [] \<and> tf_Must f = [] then HasEnabledSubscription (Some lookup) e
       else \<exists>s\<in>set cs. positive f s))"
proof (cases "ne_subscriptionIDs e = []")
  case True
  then show ?thesis
    by (simp add: MatchTagFilter_def HasEnabledSubscription_iff candidates_def)
next
  case False
  then show ?thesis
    by (auto simp: MatchTagFilter_def matchSubs_spec Let_def list_ex_iff HasEnabledSubscription_iff)
qed

end
