(* ===== verification/Quality_Policy.thy ===== *)
theory Quality_Policy
  imports Node_Entry
begin

text \<open>
  The quality admission rules of a platform (\<open>internal/platform/quality_policy.go\<close>) and what they
  read: the policy (\<open>internal/model/models.go\<close>) and the in-memory projection of the assessments
  (\<open>internal/intel/snapshot.go\<close>).

  Codes are numbers, pointers that may be nil are options, Go's zero time is \<open>None\<close>, and
  \<open>time.ParseDuration\<close> is the parameter \<open>parseDuration\<close>. The \<open>detail\<close> text of a rule, which only the
  explain endpoint prints, is left out. A projection is its two lookups.

  The theory shows that admission and explanation never disagree and that a policy which cannot
  be checked admits nothing unless it says so.
\<close>

section \<open>The projection\<close>

definition nameOf :: "string list \<Rightarrow> nat \<Rightarrow> string" where
  "nameOf names code = (if code < length names then names ! code else names ! 0)"

definition bandNames :: "string list" where
  "bandNames = [''unknown'', ''excellent'', ''clean'', ''fair'', ''mixed'', ''poor'']"

definition confidenceNames :: "string list" where
  "confidenceNames = [''none'', ''low'', ''medium'', ''high'']"

definition verdictNames :: "string list" where
  "verdictNames = [''pending'', ''favorable'', ''caution'', ''incomplete'', ''review'', ''conflicting'', ''high_risk'']"

definition ipTypeNames :: "string list" where
  "ipTypeNames = [''unknown'', ''residential'', ''mobile'', ''business'', ''wireless'', ''datacenter'', ''non_residential'', ''conflicting'']"

definition outcomeNames :: "string list" where
  "outcomeNames = [''unknown'', ''available'', ''blocked'', ''region_limited'', ''captcha'', ''error'']"

definition BandName :: "nat \<Rightarrow> string" where
  "BandName code = nameOf bandNames code"

definition ConfidenceName :: "nat \<Rightarrow> string" where
  "ConfidenceName code = nameOf confidenceNames code"

definition VerdictName :: "nat \<Rightarrow> string" where
  "VerdictName code = nameOf verdictNames code"

definition IPTypeName :: "nat \<Rightarrow> string" where
  "IPTypeName code = nameOf ipTypeNames code"

definition OutcomeName :: "nat \<Rightarrow> string" where
  "OutcomeName code = nameOf outcomeNames code"

text \<open>\<open>codeOf\<close> reads a name without regard to case and outer space; an unknown name is code 0.\<close>

fun indexOf :: "string \<Rightarrow> string list \<Rightarrow> nat option" where
  "indexOf x [] = None"
| "indexOf x (y # ys) = (if x = y then Some 0 else map_option Suc (indexOf x ys))"

definition codeOf :: "string list \<Rightarrow> string \<Rightarrow> nat" where
  "codeOf names name = (case indexOf (ToLower (TrimSpace name)) names of None \<Rightarrow> 0 | Some i \<Rightarrow> i)"

record AssessmentLite =
  a_Score :: int
  a_Band :: nat
  a_Verdict :: nat
  a_IPType :: nat
  a_Confidence :: nat
  a_Native :: int
  a_Flags :: nat
  a_ValidUntil :: int
  a_ComputedAt :: int

definition ScoreValue :: "AssessmentLite \<Rightarrow> int option" where
  "ScoreValue a = (if a_Score a < 0 then None else Some (a_Score a))"

definition NativeValue :: "AssessmentLite \<Rightarrow> bool option" where
  "NativeValue a = (if a_Native a = 0 then Some False else if a_Native a = 1 then Some True else None)"

definition AssessmentValid :: "AssessmentLite \<Rightarrow> int \<Rightarrow> bool" where
  "AssessmentValid a nowNs \<longleftrightarrow> a_ValidUntil a > nowNs"

text \<open>Bit 1 of the flags.\<close>

definition hasTorFlag :: "AssessmentLite \<Rightarrow> bool" where
  "hasTorFlag a \<longleftrightarrow> a_Flags a div 2 mod 2 = 1"

record OutcomeLite =
  oc_Outcome :: nat
  oc_ValidUntil :: int

definition OutcomeValid :: "OutcomeLite \<Rightarrow> int \<Rightarrow> bool" where
  "OutcomeValid oc nowNs \<longleftrightarrow> oc_ValidUntil oc > nowNs"

record QualitySnapshotReader =
  qs_Assessment :: "Addr \<Rightarrow> AssessmentLite option"
  qs_CheckOutcome :: "string \<Rightarrow> string \<Rightarrow> OutcomeLite option"

section \<open>The policy\<close>

record QualityPolicy =
  q_MinPurity :: "int option"
  q_IPTypes :: "string list"
  q_AllowedVerdicts :: "string list"
  q_MinConfidence :: string
  q_RequireNative :: bool
  q_RequiredChecks :: "(string, string) gomap"
  q_MaxAssessmentAge :: string
  q_MaxEgressAge :: string
  q_UnknownAction :: string
  q_ExcludeTor :: "bool option"
  q_ExcludeHighRisk :: "bool option"

definition PolicyIsEmpty :: "QualityPolicy \<Rightarrow> bool" where
  "PolicyIsEmpty q \<longleftrightarrow> q_MinPurity q = None \<and> q_IPTypes q = [] \<and> q_AllowedVerdicts q = [] \<and>
     q_MinConfidence q = [] \<and> \<not> q_RequireNative q \<and> q_RequiredChecks q = [] \<and>
     q_MaxAssessmentAge q = [] \<and> q_MaxEgressAge q = [] \<and> q_UnknownAction q = [] \<and>
     q_ExcludeTor q = None \<and> q_ExcludeHighRisk q = None"

record qualityFacts =
  f_HasEgress :: bool
  f_State :: string
  f_Score :: "int option"
  f_Verdict :: string
  f_IPType :: string
  f_Confidence :: string
  f_Native :: "bool option"
  f_Tor :: bool
  f_HighRisk :: bool
  f_ComputedAt :: "int option"
  f_EgressAt :: "int option"
  f_CheckLookup :: "(string \<Rightarrow> OutcomeLite option) option"

record rule =
  r_name :: string
  r_reason :: string
  r_passed :: bool

definition excludeHighRisk :: "QualityPolicy \<Rightarrow> bool" where
  "excludeHighRisk q = (case q_ExcludeHighRisk q of None \<Rightarrow> True | Some b \<Rightarrow> b)"

definition excludeTor :: "QualityPolicy \<Rightarrow> bool" where
  "excludeTor q = (case q_ExcludeTor q of None \<Rightarrow> True | Some b \<Rightarrow> b)"

definition confidenceRank :: "string \<Rightarrow> nat" where
  "confidenceRank name = (let n = ToLower (TrimSpace name) in
     if n = ''high'' then 3 else if n = ''medium'' then 2 else if n = ''low'' then 1 else 0)"

definition parsePolicyDuration :: "(string \<Rightarrow> int option) \<Rightarrow> string \<Rightarrow> int option" where
  "parsePolicyDuration parseDuration raw = (if raw = [] then None else parseDuration raw)"

definition sortedCheckIDs :: "(string, string) gomap \<Rightarrow> string list" where
  "sortedCheckIDs checks = sort (map fst checks)"

definition containsString :: "string list \<Rightarrow> string \<Rightarrow> bool" where
  "containsString values want \<longleftrightarrow> list_ex (\<lambda>v. v = want) values"

definition mkRule :: "string \<Rightarrow> string \<Rightarrow> bool \<Rightarrow> rule" where
  "mkRule name reason passed = \<lparr>r_name = name, r_reason = reason, r_passed = passed\<rparr>"

definition checkPassed :: "qualityFacts \<Rightarrow> string \<Rightarrow> string \<Rightarrow> int \<Rightarrow> bool" where
  "checkPassed facts checkID want now =
     (case f_CheckLookup facts of
        None \<Rightarrow> False
      | Some lookup \<Rightarrow>
          (case lookup checkID of
             None \<Rightarrow> False
           | Some outcome \<Rightarrow> OutcomeValid outcome now \<and> OutcomeName (oc_Outcome outcome) = want))"

definition ageRule :: "(string \<Rightarrow> int option) \<Rightarrow> string \<Rightarrow> string \<Rightarrow> string \<Rightarrow> int option \<Rightarrow> int \<Rightarrow> rule list" where
  "ageRule parseDuration raw name reason at1 now =
     (case parsePolicyDuration parseDuration raw of
        None \<Rightarrow> []
      | Some maxAge \<Rightarrow>
          if maxAge > 0
          then [mkRule name reason (case at1 of None \<Rightarrow> False | Some t \<Rightarrow> now - t \<le> maxAge)]
          else [])"

definition qualityRules :: "(string \<Rightarrow> int option) \<Rightarrow> QualityPolicy \<Rightarrow> qualityFacts \<Rightarrow> int \<Rightarrow> rule list" where
  "qualityRules parseDuration policy facts now =
     (let egress = mkRule ''quality.egress'' ''QUALITY_EGRESS_UNKNOWN'' (f_HasEgress facts) in
      if \<not> f_HasEgress facts then [egress]
      else if f_State facts \<noteq> ''valid'' \<and> f_State facts \<noteq> ''conflicting''
      then [egress, mkRule ''quality.unknown'' ''QUALITY_UNKNOWN'' (q_UnknownAction policy = ''allow'')]
      else [egress]
        @ (if excludeTor policy then [mkRule ''quality.exclude_tor'' ''QUALITY_TOR'' (\<not> f_Tor facts)] else [])
        @ (if excludeHighRisk policy
           then [mkRule ''quality.exclude_high_risk'' ''QUALITY_HIGH_RISK'' (\<not> f_HighRisk facts)] else [])
        @ (if q_AllowedVerdicts policy \<noteq> []
           then [mkRule ''quality.allowed_verdicts'' ''QUALITY_VERDICT''
                   (containsString (q_AllowedVerdicts policy) (f_Verdict facts))] else [])
        @ (case q_MinPurity policy of
             None \<Rightarrow> []
           | Some m \<Rightarrow> [mkRule ''quality.min_purity'' ''QUALITY_MIN_PURITY''
                          (case f_Score facts of None \<Rightarrow> False | Some s \<Rightarrow> s \<ge> m)])
        @ (if q_IPTypes policy \<noteq> []
           then [mkRule ''quality.ip_types'' ''QUALITY_IP_TYPE'' (containsString (q_IPTypes policy) (f_IPType facts))] else [])
        @ (if q_MinConfidence policy \<noteq> []
           then [mkRule ''quality.min_confidence'' ''QUALITY_CONFIDENCE''
                   (confidenceRank (f_Confidence facts) \<ge> confidenceRank (q_MinConfidence policy))] else [])
        @ (if q_RequireNative policy
           then [mkRule ''quality.require_native'' ''QUALITY_NATIVE'' (f_Native facts = Some True)] else [])
        @ map (\<lambda>checkID. mkRule (''quality.check.'' @ checkID) (''QUALITY_CHECK:'' @ checkID)
                 (checkPassed facts checkID (gm_get (q_RequiredChecks policy) checkID []) now))
            (sortedCheckIDs (q_RequiredChecks policy))
        @ ageRule parseDuration (q_MaxAssessmentAge policy) ''quality.max_assessment_age'' ''QUALITY_STALE''
            (f_ComputedAt facts) now
        @ ageRule parseDuration (q_MaxEgressAge policy) ''quality.max_egress_age'' ''QUALITY_EGRESS_STALE''
            (f_EgressAt facts) now)"

text \<open>\<open>admit\<close> reports the first rule that failed; \<open>(True, '''')\<close> in the code is \<open>None\<close> here.\<close>

fun firstFailure :: "rule list \<Rightarrow> string option" where
  "firstFailure [] = None"
| "firstFailure (r # rs) = (if \<not> r_passed r then Some (r_reason r) else firstFailure rs)"

definition admit :: "(string \<Rightarrow> int option) \<Rightarrow> QualityPolicy \<Rightarrow> qualityFacts \<Rightarrow> int \<Rightarrow> string option" where
  "admit parseDuration policy facts now = firstFailure (qualityRules parseDuration policy facts now)"

definition observedAt :: "NodeEntry \<Rightarrow> int option" where
  "observedAt e = (if ne_LastEgressUpdate e > 0 then Some (ne_LastEgressUpdate e) else None)"

definition unobservedFacts :: "NodeEntry \<Rightarrow> qualityFacts" where
  "unobservedFacts e =
     \<lparr>f_HasEgress = False, f_State = ''unobserved'', f_Score = None, f_Verdict = ''pending'', f_IPType = ''unknown'',
      f_Confidence = [], f_Native = None, f_Tor = False, f_HighRisk = False, f_ComputedAt = None,
      f_EgressAt = observedAt e, f_CheckLookup = None\<rparr>"

definition assessedState :: "AssessmentLite \<Rightarrow> int \<Rightarrow> string" where
  "assessedState lite now =
     (if \<not> AssessmentValid lite now then ''stale''
      else if VerdictName (a_Verdict lite) = ''pending'' then ''pending''
      else if IPTypeName (a_IPType lite) = ''conflicting'' \<or> VerdictName (a_Verdict lite) = ''conflicting'' then ''conflicting''
      else ''valid'')"

definition factsFromEntry :: "NodeEntry \<Rightarrow> QualitySnapshotReader option \<Rightarrow> int \<Rightarrow> qualityFacts" where
  "factsFromEntry e snap now =
     (let facts = unobservedFacts e; ip = GetEgressIP e in
      if \<not> IsValid ip then facts
      else case snap of
        None \<Rightarrow> facts\<lparr>f_HasEgress := True\<rparr>
      | Some sn \<Rightarrow>
          (case qs_Assessment sn (Unmap ip) of
             None \<Rightarrow> facts\<lparr>f_HasEgress := True\<rparr>
           | Some lite \<Rightarrow>
               \<lparr>f_HasEgress = True, f_State = assessedState lite now, f_Score = ScoreValue lite,
                f_Verdict = VerdictName (a_Verdict lite), f_IPType = IPTypeName (a_IPType lite),
                f_Confidence = ConfidenceName (a_Confidence lite), f_Native = NativeValue lite,
                f_Tor = hasTorFlag lite, f_HighRisk = (VerdictName (a_Verdict lite) = ''high_risk''),
                f_ComputedAt = (if a_ComputedAt lite > 0 then Some (a_ComputedAt lite) else None),
                f_EgressAt = observedAt e,
                f_CheckLookup = Some (\<lambda>checkID. qs_CheckOutcome sn (Hex (ne_Hash e)) checkID)\<rparr>))"

definition AdmitQuality ::
  "(string \<Rightarrow> int option) \<Rightarrow> QualityPolicy \<Rightarrow> NodeEntry \<Rightarrow> QualitySnapshotReader option \<Rightarrow> int \<Rightarrow> string option" where
  "AdmitQuality parseDuration policy e snap now =
     (if PolicyIsEmpty policy then None else admit parseDuration policy (factsFromEntry e snap now) now)"

definition ExplainQuality ::
  "(string \<Rightarrow> int option) \<Rightarrow> QualityPolicy \<Rightarrow> NodeEntry \<Rightarrow> QualitySnapshotReader option \<Rightarrow> int \<Rightarrow> (string \<times> bool) list" where
  "ExplainQuality parseDuration policy e snap now =
     (if PolicyIsEmpty policy then [(''quality'', True)]
      else map (\<lambda>r. (r_name r, r_passed r)) (qualityRules parseDuration policy (factsFromEntry e snap now) now))"

section \<open>Admission and explanation\<close>

lemma firstFailure_None: "firstFailure rs = None \<longleftrightarrow> (\<forall>r\<in>set rs. r_passed r)"
  by (induction rs) auto

lemma firstFailure_dropWhile:
  "firstFailure rs = (case dropWhile r_passed rs of [] \<Rightarrow> None | r # _ \<Rightarrow> Some (r_reason r))"
  by (induction rs) auto

text \<open>
  The policy in one formula: an assessed node is admitted when every configured requirement holds.
\<close>

definition meetsPolicy :: "(string \<Rightarrow> int option) \<Rightarrow> QualityPolicy \<Rightarrow> qualityFacts \<Rightarrow> int \<Rightarrow> bool" where
  "meetsPolicy parseDuration q f now \<longleftrightarrow>
     (excludeTor q \<longrightarrow> \<not> f_Tor f) \<and> (excludeHighRisk q \<longrightarrow> \<not> f_HighRisk f) \<and>
     (q_AllowedVerdicts q = [] \<or> f_Verdict f \<in> set (q_AllowedVerdicts q)) \<and>
     (\<forall>m. q_MinPurity q = Some m \<longrightarrow> (\<exists>s\<ge>m. f_Score f = Some s)) \<and>
     (q_IPTypes q = [] \<or> f_IPType f \<in> set (q_IPTypes q)) \<and>
     (q_MinConfidence q = [] \<or> confidenceRank (q_MinConfidence q) \<le> confidenceRank (f_Confidence f)) \<and>
     (q_RequireNative q \<longrightarrow> f_Native f = Some True) \<and>
     (\<forall>c\<in>fst ` set (q_RequiredChecks q). checkPassed f c (gm_get (q_RequiredChecks q) c []) now) \<and>
     (\<forall>m>0. parsePolicyDuration parseDuration (q_MaxAssessmentAge q) = Some m \<longrightarrow>
        (\<exists>t. f_ComputedAt f = Some t \<and> now - t \<le> m)) \<and>
     (\<forall>m>0. parsePolicyDuration parseDuration (q_MaxEgressAge q) = Some m \<longrightarrow>
        (\<exists>t. f_EgressAt f = Some t \<and> now - t \<le> m))"

lemma ageRule_passed:
  "(\<forall>r\<in>set (ageRule parseDuration raw name reason at1 now). r_passed r) \<longleftrightarrow>
     (\<forall>m>0. parsePolicyDuration parseDuration raw = Some m \<longrightarrow> (\<exists>t. at1 = Some t \<and> now - t \<le> m))"
  by (cases "parsePolicyDuration parseDuration raw"; cases at1) (auto simp: ageRule_def mkRule_def)

lemma rules_passed:
  assumes "f_HasEgress f" "f_State f = ''valid'' \<or> f_State f = ''conflicting''"
  shows "(\<forall>r\<in>set (qualityRules parseDuration q f now). r_passed r) \<longleftrightarrow> meetsPolicy parseDuration q f now"
proof -
  have egress: "\<not> \<not> f_HasEgress f"
    using assms(1) by blast
  have known: "\<not> (f_State f \<noteq> ''valid'' \<and> f_State f \<noteq> ''conflicting'')"
    using assms(2) by blast
  have purity: "(\<forall>r\<in>set (case q_MinPurity q of None \<Rightarrow> [] | Some m \<Rightarrow>
        [mkRule name reason (case f_Score f of None \<Rightarrow> False | Some s \<Rightarrow> s \<ge> m)]). r_passed r) \<longleftrightarrow>
      (\<forall>m. q_MinPurity q = Some m \<longrightarrow> (\<exists>s\<ge>m. f_Score f = Some s))" for name reason
    by (cases "q_MinPurity q"; cases "f_Score f") (simp_all add: mkRule_def)
  have checks: "(\<forall>r\<in>set (map (\<lambda>c. mkRule (n c) (s c) (P c)) cs). r_passed r) \<longleftrightarrow> (\<forall>c\<in>set cs. P c)" for n s P cs
    by (simp add: mkRule_def)
  show ?thesis
    unfolding qualityRules_def Let_def if_not_P [OF egress] if_not_P [OF known] meetsPolicy_def set_append ball_Un purity ageRule_passed checks
    using assms(1)
    by (simp add: mkRule_def sortedCheckIDs_def containsString_def list_ex_iff) blast
qed

text \<open>A node without an assessment that can be used now.\<close>

definition unassessed :: "NodeEntry \<Rightarrow> QualitySnapshotReader option \<Rightarrow> int \<Rightarrow> bool" where
  "unassessed e snap now =
     (case snap of
        None \<Rightarrow> True
      | Some sn \<Rightarrow>
          (case qs_Assessment sn (Unmap (GetEgressIP e)) of
             None \<Rightarrow> True
           | Some lite \<Rightarrow> \<not> AssessmentValid lite now \<or> VerdictName (a_Verdict lite) = ''pending''))"

lemma state_unassessed:
  "IsValid (GetEgressIP e) \<Longrightarrow>
     (f_State (factsFromEntry e snap now) \<noteq> ''valid'' \<and> f_State (factsFromEntry e snap now) \<noteq> ''conflicting'') \<longleftrightarrow>
     unassessed e snap now"
  by (auto simp: factsFromEntry_def unobservedFacts_def unassessed_def assessedState_def Let_def split: option.splits)

lemma HasEgress_facts: "f_HasEgress (factsFromEntry e snap now) \<longleftrightarrow> IsValid (GetEgressIP e)"
  by (auto simp: factsFromEntry_def unobservedFacts_def Let_def split: option.splits)

text \<open>
  C29. The quality admission of a node, over every policy and every assessment. An empty policy admits.
  Any other policy rejects a node without a known egress address; a node whose assessment is missing,
  expired or pending is admitted exactly when the policy's unknown action is \<open>allow\<close>; every other node
  is admitted exactly when it meets all the configured requirements. The explanation shown to the
  operator lists a failed rule exactly when the node is rejected.
\<close>
theorem AdmitQuality_spec:
  "(AdmitQuality parseDuration q e snap now = None \<longleftrightarrow>
      (if PolicyIsEmpty q then True
       else if \<not> IsValid (GetEgressIP e) then False
       else if unassessed e snap now then q_UnknownAction q = ''allow''
       else meetsPolicy parseDuration q (factsFromEntry e snap now) now)) \<and>
   (AdmitQuality parseDuration q e snap now = None \<longleftrightarrow> list_all snd (ExplainQuality parseDuration q e snap now))"
proof (cases "PolicyIsEmpty q")
  case True
  then show ?thesis
    by (simp add: AdmitQuality_def ExplainQuality_def)
next
  case False
  let ?f = "factsFromEntry e snap now"
  have adm: "AdmitQuality parseDuration q e snap now = None \<longleftrightarrow> (\<forall>r\<in>set (qualityRules parseDuration q ?f now). r_passed r)"
    using False by (simp add: AdmitQuality_def admit_def firstFailure_None)
  have explain: "list_all snd (ExplainQuality parseDuration q e snap now) \<longleftrightarrow>
      (\<forall>r\<in>set (qualityRules parseDuration q ?f now). r_passed r)"
    using False by (simp add: ExplainQuality_def list_all_iff)
  consider "\<not> IsValid (GetEgressIP e)" | "IsValid (GetEgressIP e)" "unassessed e snap now"
    | "IsValid (GetEgressIP e)" "\<not> unassessed e snap now"
    by blast
  then show ?thesis
  proof cases
    case 1
    then show ?thesis
      using False adm explain by (simp add: qualityRules_def Let_def HasEgress_facts mkRule_def)
  next
    case 2
    then have "f_State ?f \<noteq> ''valid'' \<and> f_State ?f \<noteq> ''conflicting''"
      by (simp only: state_unassessed)
    then have "qualityRules parseDuration q ?f now = [mkRule ''quality.egress'' ''QUALITY_EGRESS_UNKNOWN'' True,
        mkRule ''quality.unknown'' ''QUALITY_UNKNOWN'' (q_UnknownAction q = ''allow'')]"
      using 2 HasEgress_facts [of e snap now] unfolding qualityRules_def Let_def by simp
    then show ?thesis
      using 2 False adm explain by (simp add: mkRule_def)
  next
    case 3
    then have "f_State ?f = ''valid'' \<or> f_State ?f = ''conflicting''"
      using state_unassessed by blast
    from rules_passed [OF _ this] show ?thesis
      using 3 False adm explain HasEgress_facts [of e snap now] by simp
  qed
qed

text \<open>A code and its name are inverse, so the projection loses no value of the vocabulary.\<close>

lemma indexOf_nth: "distinct ys \<Longrightarrow> i < length ys \<Longrightarrow> indexOf (ys ! i) ys = Some i"
proof (induction ys arbitrary: i)
  case (Cons y ys)
  then show ?case
    by (cases i) auto
qed simp

lemma codeOf_nameOf:
  assumes "distinct names" "\<forall>n\<in>set names. ToLower (TrimSpace n) = n" "i < length names"
  shows "codeOf names (nameOf names i) = i"
proof -
  have "ToLower (TrimSpace (names ! i)) = names ! i"
    using assms(2,3) by simp
  then show ?thesis
    using indexOf_nth [OF assms(1,3)] assms(3) by (simp add: codeOf_def nameOf_def)
qed

end
