(* ===== verification/Platform.thy ===== *)
theory Platform
  imports Quality_Policy
begin

text \<open>
  Platforms (\<open>internal/platform/platform.go\<close>, \<open>node_criteria.go\<close>): which nodes of the pool a platform
  loads into its routable view, by a full rebuild or node by node when one changes.

  \<open>strings.EqualFold\<close> compares ASCII letters without case. The pool is the association list its \<open>Range\<close>
  visits. The theory shows what the criteria select and that re-evaluating the one node that changed
  gives the view a full rebuild would give.
\<close>

section \<open>Criteria\<close>

record NodeCriteria =
  c_TagRules :: TagFilter
  c_Regions :: "string list"
  c_IPTypes :: "string list"
  c_PurityBands :: "string list"
  c_SubscriptionIDs :: "string list"
  c_Protocols :: "string list"
  c_QualityPolicy :: QualityPolicy

text \<open>The legacy inspection summary, with the fields the admission path reads.\<close>

record LegacyAssessment =
  la_State :: string
  la_PurityScore :: "int option"
  la_NetworkType :: string
  la_Native :: "bool option"
  la_Verdict :: string
  la_TorRoles :: "string list"

record Summary =
  su_State :: string
  su_Assessment :: "LegacyAssessment option"

definition factsFromSummary :: "Summary \<Rightarrow> int option \<Rightarrow> qualityFacts" where
  "factsFromSummary summary egressObservedAt =
     (let facts = \<lparr>f_HasEgress = True, f_State = su_State summary, f_Score = None, f_Verdict = ''pending'',
            f_IPType = ''unknown'', f_Confidence = [], f_Native = None, f_Tor = False, f_HighRisk = False,
            f_ComputedAt = None, f_EgressAt = egressObservedAt, f_CheckLookup = None\<rparr> in
      case su_Assessment summary of
        None \<Rightarrow> if su_State summary = [] then facts\<lparr>f_State := ''unobserved''\<rparr> else facts
      | Some a \<Rightarrow>
          facts\<lparr>f_Score := la_PurityScore a, f_Verdict := la_Verdict a, f_IPType := la_NetworkType a,
            f_Native := la_Native a, f_Tor := (la_TorRoles a \<noteq> []), f_HighRisk := (la_Verdict a = ''high_risk''),
            f_State := (if la_State a \<noteq> [] \<and> la_State a \<noteq> ''valid'' then la_State a else ''valid'')\<rparr>)"

definition EvaluateQuality :: "(string \<Rightarrow> int option) \<Rightarrow> QualityPolicy \<Rightarrow> Summary \<Rightarrow> int option \<Rightarrow> int \<Rightarrow> bool" where
  "EvaluateQuality parseDuration policy summary egressObservedAt now =
     (if PolicyIsEmpty policy then True
      else list_all r_passed (qualityRules parseDuration policy (factsFromSummary summary egressObservedAt) now))"

definition GetLastEgressUpdate :: "NodeEntry \<Rightarrow> int option" where
  "GetLastEgressUpdate e = (if ne_LastEgressUpdate e = 0 then None else Some (ne_LastEgressUpdate e))"

definition EqualFold :: "string \<Rightarrow> string \<Rightarrow> bool" where
  "EqualFold a b \<longleftrightarrow> ToLower a = ToLower b"

definition containsFold :: "string list \<Rightarrow> string \<Rightarrow> bool" where
  "containsFold values want =
     (let w = TrimSpace want in w \<noteq> [] \<and> list_ex (\<lambda>v. EqualFold (TrimSpace v) w) values)"

text \<open>The loop of \<open>MatchRegionFilter\<close>: \<open>None\<close> is the early return on an excluded region.\<close>

fun regionLoop :: "string \<Rightarrow> string list \<Rightarrow> bool \<Rightarrow> bool \<Rightarrow> (bool \<times> bool) option" where
  "regionLoop region [] hasInclude included = Some (hasInclude, included)"
| "regionLoop region (filt # filts) hasInclude included =
     (if filt \<noteq> [] \<and> hd filt = CHR ''!''
      then if region = tl filt then None else regionLoop region filts hasInclude included
      else regionLoop region filts True (included \<or> region = filt))"

definition MatchRegionFilter :: "string \<Rightarrow> string list \<Rightarrow> bool" where
  "MatchRegionFilter region filters =
     (if filters = [] then True
      else if region = [] then False
      else case regionLoop region filters False False of
        None \<Rightarrow> False
      | Some (hasInclude, included) \<Rightarrow> \<not> (hasInclude \<and> \<not> included))"

definition referencedBySubscription :: "NodeEntry \<Rightarrow> string list \<Rightarrow> SubLookupFunc option \<Rightarrow> bool" where
  "referencedBySubscription e wanted subLookup =
     (case subLookup of
        None \<Rightarrow> False
      | Some lookup \<Rightarrow>
          list_ex (\<lambda>subID. containsFold wanted subID \<and>
              (case lookup subID (ne_Hash e) of Some (_, enabled, _) \<Rightarrow> enabled | None \<Rightarrow> False))
            (ne_subscriptionIDs e))"

definition assessmentOf :: "NodeEntry \<Rightarrow> QualitySnapshotReader option \<Rightarrow> AssessmentLite option" where
  "assessmentOf e snap =
     (case snap of
        None \<Rightarrow> None
      | Some sn \<Rightarrow> if \<not> IsValid (GetEgressIP e) then None else qs_Assessment sn (GetEgressIP e))"

definition purityBandAllowed :: "string list \<Rightarrow> AssessmentLite \<Rightarrow> bool" where
  "purityBandAllowed bands lite =
     list_ex (\<lambda>raw. let want = ToLower (TrimSpace raw) in
         if want = ''review''
         then VerdictName (a_Verdict lite) = ''review'' \<or> VerdictName (a_Verdict lite) = ''conflicting''
         else EqualFold (BandName (a_Band lite)) want) bands"

definition qualityReason :: "string \<Rightarrow> string" where
  "qualityReason reason = (if reason = [] then ''QUALITY_UNKNOWN'' else reason)"

text \<open>
  \<open>matchSelection\<close> and \<open>MatchNodeCriteria\<close> return the reason of the rejection; \<open>(true, '''')\<close> of the code
  is \<open>None\<close>. The lookups a caller may leave out are options.
\<close>

record Lookups =
  lk_sub :: "SubLookupFunc option"
  lk_geo :: "(Addr \<Rightarrow> string) option"
  lk_quality :: "(Addr \<Rightarrow> Summary) option"
  lk_snap :: "QualitySnapshotReader option"
  lk_duration :: "string \<Rightarrow> int option"

definition qualityVerdict :: "NodeCriteria \<Rightarrow> NodeEntry \<Rightarrow> Lookups \<Rightarrow> int \<Rightarrow> string option" where
  "qualityVerdict c e lk now =
     (if PolicyIsEmpty (c_QualityPolicy c) then None
      else case lk_snap lk of
        Some sn \<Rightarrow> map_option qualityReason (AdmitQuality (lk_duration lk) (c_QualityPolicy c) e (Some sn) now)
      | None \<Rightarrow>
          (case lk_quality lk of
             Some lookup \<Rightarrow>
               if EvaluateQuality (lk_duration lk) (c_QualityPolicy c) (lookup (GetEgressIP e)) (GetLastEgressUpdate e) now
               then None else Some ''QUALITY_REJECTED''
           | None \<Rightarrow> Some ''QUALITY_REJECTED''))"

definition matchSelection :: "NodeCriteria \<Rightarrow> NodeEntry \<Rightarrow> Lookups \<Rightarrow> int \<Rightarrow> string option" where
  "matchSelection c e lk now =
     (if \<not> MatchTagFilter (c_TagRules c) (lk_sub lk) e then Some ''TAG_FILTER''
      else if \<not> IsValid (GetEgressIP e) then Some ''EGRESS_UNKNOWN''
      else if c_Regions c \<noteq> [] \<and> \<not> MatchRegionFilter (GetRegion (lk_geo lk) e) (c_Regions c) then Some ''REGION_FILTER''
      else if c_SubscriptionIDs c \<noteq> [] \<and> \<not> referencedBySubscription e (c_SubscriptionIDs c) (lk_sub lk)
      then Some ''SUBSCRIPTION_FILTER''
      else if c_Protocols c \<noteq> [] \<and> \<not> containsFold (c_Protocols c) (ne_Protocol e) then Some ''PROTOCOL_FILTER''
      else if c_IPTypes c \<noteq> [] \<and>
        (case assessmentOf e (lk_snap lk) of
           None \<Rightarrow> True | Some lite \<Rightarrow> \<not> containsFold (c_IPTypes c) (IPTypeName (a_IPType lite)))
      then Some ''IP_TYPE_FILTER''
      else if c_PurityBands c \<noteq> [] \<and>
        (case assessmentOf e (lk_snap lk) of
           None \<Rightarrow> True | Some lite \<Rightarrow> \<not> purityBandAllowed (c_PurityBands c) lite)
      then Some ''PURITY_BAND_FILTER''
      else qualityVerdict c e lk now)"

definition MatchNodeCriteria :: "NodeCriteria \<Rightarrow> NodeEntry \<Rightarrow> Lookups \<Rightarrow> int \<Rightarrow> string option" where
  "MatchNodeCriteria c e lk now =
     (if IsDisabledBySubscriptions (lk_sub lk) e then Some ''NODE_DISABLED''
      else if \<not> IsHealthy e then Some ''NODE_UNHEALTHY''
      else if \<not> IsValid (GetEgressIP e) then Some ''EGRESS_UNKNOWN''
      else case matchSelection c e lk now of
        Some reason \<Rightarrow> Some reason
      | None \<Rightarrow> if \<not> HasLatency e then Some ''LATENCY_UNKNOWN'' else None)"

section \<open>Platforms and their views\<close>

datatype AllocationPolicy = Balanced | PreferLowLatency | PreferIdleIP | OtherPolicy string

definition ParseAllocationPolicy :: "string \<Rightarrow> AllocationPolicy" where
  "ParseAllocationPolicy raw =
     (if raw = ''PREFER_LOW_LATENCY'' then PreferLowLatency
      else if raw = ''PREFER_IDLE_IP'' then PreferIdleIP else Balanced)"

record Platform =
  pl_ID :: string
  pl_Name :: string
  pl_Criteria :: NodeCriteria
  pl_StickyTTLNs :: int
  pl_AllocationPolicy :: AllocationPolicy
  pl_ScheduledRotationIntervalNs :: int
  pl_ScheduledRotationEnabled :: bool
  pl_RotationAvoidPreviousIP :: bool
  pl_PassiveCircuitBreakerDisabled :: bool
  pl_view :: RoutableView

definition DefaultPlatformID :: string where
  "DefaultPlatformID = ''00000000-0000-0000-0000-000000000000''"

type_synonym NodeMap = "(Hash, NodeEntry) gomap"

definition evaluateNode :: "Platform \<Rightarrow> NodeEntry \<Rightarrow> Lookups \<Rightarrow> int \<Rightarrow> bool" where
  "evaluateNode p e lk now \<longleftrightarrow> MatchNodeCriteria (pl_Criteria p) e lk now = None"

definition FullRebuild :: "NodeMap \<Rightarrow> Lookups \<Rightarrow> int \<Rightarrow> Platform \<Rightarrow> Platform" where
  "FullRebuild pool lk now p =
     p\<lparr>pl_view := fold (\<lambda>(h, e) view. if evaluateNode p e lk now then Add h view else view) pool NewRoutableView\<rparr>"

definition NotifyDirty :: "Hash \<Rightarrow> NodeMap \<Rightarrow> Lookups \<Rightarrow> int \<Rightarrow> Platform \<Rightarrow> Platform" where
  "NotifyDirty h pool lk now p =
     (case map_of pool h of
        None \<Rightarrow> p\<lparr>pl_view := Remove h (pl_view p)\<rparr>
      | Some e \<Rightarrow>
          if evaluateNode p e lk now then p\<lparr>pl_view := Add h (pl_view p)\<rparr>
          else p\<lparr>pl_view := Remove h (pl_view p)\<rparr>)"

section \<open>What the criteria select\<close>

text \<open>The region filter, stated on the sets of included and excluded regions.\<close>

definition excluded :: "string list \<Rightarrow> string set" where
  "excluded filters = {r. (CHR ''!'' # r) \<in> set filters}"

definition included :: "string list \<Rightarrow> string set" where
  "included filters = {f \<in> set filters. f = [] \<or> hd f \<noteq> CHR ''!''}"

lemma regionLoop_spec:
  "regionLoop region fs hi inc =
     (if region \<in> excluded fs then None
      else Some (hi \<or> included fs \<noteq> {}, inc \<or> region \<in> included fs))"
proof (induction region fs hi inc rule: regionLoop.induct)
  case (2 region filt filts hi inc)
  show ?case
  proof (cases "filt \<noteq> [] \<and> hd filt = CHR ''!''")
    case True
    then obtain r where r: "filt = CHR ''!'' # r"
      by (cases filt) auto
    then have "excluded (filt # filts) = insert r (excluded filts)" "included (filt # filts) = included filts"
      by (auto simp: excluded_def included_def)
    then show ?thesis
      using 2 True r by auto
  next
    case False
    then have "excluded (filt # filts) = excluded filts" "included (filt # filts) = insert filt (included filts)"
      by (auto simp: excluded_def included_def)
    then show ?thesis
      using 2 False by auto
  qed
qed (simp add: excluded_def included_def)

lemma MatchRegionFilter_spec:
  "filters \<noteq> [] \<Longrightarrow> MatchRegionFilter region filters \<longleftrightarrow>
     region \<noteq> [] \<and> region \<notin> excluded filters \<and> (included filters = {} \<or> region \<in> included filters)"
  by (auto simp: MatchRegionFilter_def regionLoop_spec)


section \<open>Rebuilds\<close>

lemma rebuild_fold:
  "view_inv v \<Longrightarrow>
     view_inv (fold (\<lambda>(h, e) view. if P e then Add h view else view) pool v) \<and>
     set (viewRange (fold (\<lambda>(h, e) view. if P e then Add h view else view) pool v)) =
       set (viewRange v) \<union> {h. \<exists>e. (h, e) \<in> set pool \<and> P e}"
proof (induction pool arbitrary: v)
  case (Cons p pool)
  obtain h e where p: "p = (h, e)"
    by (cases p)
  show ?case
  proof (cases "P e")
    case True
    then show ?thesis
      using Cons.IH [OF Add_inv [OF Cons.prems, of h]] p by (auto simp: set_Add [OF Cons.prems])
  next
    case False
    then show ?thesis
      using Cons.IH [OF Cons.prems] p by auto
  qed
qed simp

definition loads :: "Platform \<Rightarrow> NodeMap \<Rightarrow> Lookups \<Rightarrow> int \<Rightarrow> Hash set" where
  "loads p pool lk now = {h. \<exists>e. map_of pool h = Some e \<and> evaluateNode p e lk now}"

lemma viewRange_New: "set (viewRange NewRoutableView) = {}"
  by (auto simp: viewRange_def NewRoutableView_def emptyShard_def)

lemma FullRebuild_view:
  assumes "gm_wf pool"
  shows "view_inv (pl_view (FullRebuild pool lk now p)) \<and>
    set (viewRange (pl_view (FullRebuild pool lk now p))) = loads p pool lk now"
proof -
  have "{h. \<exists>e. (h, e) \<in> set pool \<and> evaluateNode p e lk now} = loads p pool lk now"
    unfolding loads_def gm_mem_iff [OF assms] ..
  then show ?thesis
    using rebuild_fold [OF view_inv_New, of "\<lambda>e. evaluateNode p e lk now" pool] unfolding viewRange_New
    by (simp add: FullRebuild_def)
qed

lemma evaluateNode_view: "evaluateNode (p\<lparr>pl_view := v\<rparr>) e lk now = evaluateNode p e lk now"
  by (simp add: evaluateNode_def)

lemma NotifyDirty_view:
  assumes "view_inv (pl_view p)"
  shows "view_inv (pl_view (NotifyDirty h pool lk now p)) \<and>
    set (viewRange (pl_view (NotifyDirty h pool lk now p))) =
      (if h \<in> loads p pool lk now then insert h (set (viewRange (pl_view p))) else set (viewRange (pl_view p)) - {h})"
  using assms by (auto simp: NotifyDirty_def loads_def Add_inv Remove_inv set_Add set_Remove split: option.splits)

text \<open>
  C27. Re-evaluating one node is an incremental rebuild. When the view of a platform holds the nodes
  the platform loads from a pool and one node of the pool is added, changed or removed,
  \<open>NotifyDirty\<close> on that node leaves the view with exactly the nodes that a full rebuild over the new
  pool would load.
\<close>
theorem NotifyDirty_is_incremental_rebuild:
  assumes "gm_wf pool" "gm_wf pool'" "view_inv (pl_view p)"
    and "set (viewRange (pl_view p)) = loads p pool lk now"
    and "\<And>k. k \<noteq> h \<Longrightarrow> map_of pool' k = map_of pool k"
  shows "set (viewRange (pl_view (NotifyDirty h pool' lk now p))) =
      set (viewRange (pl_view (FullRebuild pool' lk now p))) \<and>
    view_inv (pl_view (NotifyDirty h pool' lk now p))"
proof -
  let ?L = "loads p pool lk now" and ?L' = "loads p pool' lk now"
  have same: "k \<in> ?L' \<longleftrightarrow> k \<in> ?L" if "k \<noteq> h" for k
    using assms(5) [OF that] by (simp add: loads_def)
  have "(if h \<in> ?L' then insert h ?L else ?L - {h}) = ?L'"
  proof (intro set_eqI)
    fix k
    show "k \<in> (if h \<in> ?L' then insert h ?L else ?L - {h}) \<longleftrightarrow> k \<in> ?L'"
      by (cases "k = h") (auto simp: same)
  qed
  then show ?thesis
    using FullRebuild_view [OF assms(2), of lk now p] NotifyDirty_view [OF assms(3), of h pool' lk now] assms(4) by argo
qed

definition exampleHash :: Hash where
  "exampleHash = ''0123456789abcdef''"

definition exampleLatency :: LatencyTable where
  "exampleLatency =
     \<lparr>lt_authorities = [], lt_regular = [occupiedSlot 1 ''a'' \<lparr>ds_Ewma = 20, ds_LastUpdated = 5\<rparr> 5]\<rparr>"

definition exampleEntry :: "Addr \<Rightarrow> NodeEntry" where
  "exampleEntry ip =
     \<lparr>ne_Hash = exampleHash, ne_RawOptions = ''{}'', ne_Protocol = ''vless'', ne_subscriptionIDs = [''s''], ne_LastError = [],
      ne_FailureCount = 0, ne_CircuitOpenSince = 0, ne_egressIP = Some ip, ne_egressRegion = Some ''jp'',
      ne_LastEgressUpdate = 1, ne_LastLatencyProbeAttempt = 0, ne_LastAuthorityLatencyProbeAttempt = 0,
      ne_LastEgressUpdateAttempt = 0, ne_probeErrorClass = None, ne_probeErrorDetail = None, ne_probeErrorAt = 0,
      ne_LatencyTable = Some exampleLatency, ne_Outbound = True\<rparr>"

definition emptyPolicy :: QualityPolicy where
  "emptyPolicy = \<lparr>q_MinPurity = None, q_IPTypes = [], q_AllowedVerdicts = [], q_MinConfidence = [],
     q_RequireNative = False, q_RequiredChecks = [], q_MaxAssessmentAge = [], q_MaxEgressAge = [],
     q_UnknownAction = [], q_ExcludeTor = None, q_ExcludeHighRisk = None\<rparr>"

definition exampleCriteria :: NodeCriteria where
  "exampleCriteria =
     \<lparr>c_TagRules = \<lparr>tf_Any = [], tf_Must = [], tf_MustNot = []\<rparr>, c_Regions = [''jp'', ''!cn''], c_IPTypes = [],
      c_PurityBands = [], c_SubscriptionIDs = [], c_Protocols = [''VLESS''], c_QualityPolicy = emptyPolicy\<rparr>"

definition examplePlatform :: "RoutableView \<Rightarrow> Platform" where
  "examplePlatform v =
     \<lparr>pl_ID = ''p'', pl_Name = ''P'', pl_Criteria = exampleCriteria, pl_StickyTTLNs = 1000,
      pl_AllocationPolicy = Balanced, pl_ScheduledRotationIntervalNs = 500, pl_ScheduledRotationEnabled = True,
      pl_RotationAvoidPreviousIP = True, pl_PassiveCircuitBreakerDisabled = False, pl_view = v\<rparr>"

definition exampleLookups :: Lookups where
  "exampleLookups =
     \<lparr>lk_sub = Some (\<lambda>_ _. Some (''sub'', True, [''tag''])), lk_geo = None, lk_quality = None, lk_snap = None,
      lk_duration = (\<lambda>_. None)\<rparr>"

theorem NotifyDirty_is_incremental_rebuild_witness:
  "evaluateNode (examplePlatform NewRoutableView) (exampleEntry (IPv4 1)) exampleLookups 0 \<and>
   set (viewRange (pl_view (NotifyDirty exampleHash [(exampleHash, exampleEntry (IPv4 1))] exampleLookups 0
     (examplePlatform NewRoutableView)))) =
   set (viewRange (pl_view (FullRebuild [(exampleHash, exampleEntry (IPv4 1))] exampleLookups 0
     (examplePlatform NewRoutableView))))"
proof -
  have "evaluateNode (examplePlatform NewRoutableView) (exampleEntry (IPv4 1)) exampleLookups 0"
    by code_simp
  moreover have "view_inv (pl_view (examplePlatform NewRoutableView))"
    "set (viewRange (pl_view (examplePlatform NewRoutableView))) = loads (examplePlatform NewRoutableView) [] exampleLookups 0"
    by (simp_all add: examplePlatform_def viewRange_New loads_def)
  ultimately show ?thesis
    using NotifyDirty_is_incremental_rebuild [of "[]" "[(exampleHash, exampleEntry (IPv4 1))]"
        "examplePlatform NewRoutableView" exampleLookups 0 exampleHash] by simp
qed

end
