(* ===== verification/Lease_Table.thy ===== *)
theory Lease_Table
  imports Net_Addr Routable_View
begin

text \<open>
  The sticky leases of one platform and the number of leases per egress IP
  (\<open>internal/routing/lease.go\<close>, \<open>state.go\<close>).

  \<open>LeaseTable.stats\<close> and \<open>PlatformRoutingState.IPLoadStats\<close> are the same object in the code and one
  field here. Every change of a lease runs inside the map's per-key \<open>Compute\<close>, which is one step
  of the model; the callback \<open>onDelete\<close> runs inside that step, so the definitions return the
  removed lease and the router performs the callback before anything else happens.

  The theory shows that the count of an address is always the number of leases that use it.
\<close>

section \<open>Leases and owners\<close>

record Lease =
  l_NodeHash :: Hash
  l_EgressIP :: Addr
  l_CreatedAtNs :: int
  l_ExpiryNs :: int
  l_LastAccessedNs :: int

text \<open>A lease owner is the pair of a user id and an account name.\<close>

type_synonym leaseOwner = "string \<times> string"

definition owner :: "string \<Rightarrow> string \<Rightarrow> leaseOwner" where
  "owner userID account = (userID, account)"

definition IsExpired :: "Lease \<Rightarrow> int \<Rightarrow> bool" where
  "IsExpired l nowNs \<longleftrightarrow> l_ExpiryNs l < nowNs"

section \<open>Load per egress address\<close>

type_synonym IPLoadStats = "(Addr, int) gomap"

definition Inc :: "Addr \<Rightarrow> IPLoadStats \<Rightarrow> IPLoadStats" where
  "Inc ip s = (if \<not> IsValid ip then s else AList.update ip (gm_get s ip 0 + 1) s)"

definition Dec :: "Addr \<Rightarrow> IPLoadStats \<Rightarrow> IPLoadStats" where
  "Dec ip s = (if \<not> IsValid ip then s
     else case map_of s ip of Some n \<Rightarrow> AList.update ip (n - 1) s | None \<Rightarrow> s)"

definition GetLoad :: "IPLoadStats \<Rightarrow> Addr \<Rightarrow> int" where
  "GetLoad s ip = (if \<not> IsValid ip then 0
     else case map_of s ip of Some n \<Rightarrow> n | None \<Rightarrow> 0)"

definition LoadSnapshot :: "IPLoadStats \<Rightarrow> (Addr, int) gomap" where
  "LoadSnapshot s = filter (\<lambda>(ip, n). IsValid ip \<and> 0 < n) s"

section \<open>The table\<close>

record PlatformRoutingState =
  ps_leases :: "(leaseOwner, Lease) gomap"
  ps_stats :: IPLoadStats

definition NewPlatformRoutingState :: PlatformRoutingState where
  "NewPlatformRoutingState = \<lparr>ps_leases = [], ps_stats = []\<rparr>"

definition GetLease :: "PlatformRoutingState \<Rightarrow> string \<Rightarrow> string \<Rightarrow> Lease option" where
  "GetLease t userID account = map_of (ps_leases t) (owner userID account)"

definition CreateLease :: "string \<Rightarrow> string \<Rightarrow> Lease \<Rightarrow> PlatformRoutingState \<Rightarrow> PlatformRoutingState" where
  "CreateLease userID account lease t =
     (let o1 = owner userID account;
          s1 = (case map_of (ps_leases t) o1 of
                  Some oldVal \<Rightarrow> Dec (l_EgressIP oldVal) (ps_stats t) | None \<Rightarrow> ps_stats t)
      in t\<lparr>ps_stats := Inc (l_EgressIP lease) s1, ps_leases := AList.update o1 lease (ps_leases t)\<rparr>)"

definition DeleteLease ::
  "string \<Rightarrow> string \<Rightarrow> PlatformRoutingState \<Rightarrow> Lease option \<times> PlatformRoutingState" where
  "DeleteLease userID account t =
     (let o1 = owner userID account in
      case map_of (ps_leases t) o1 of
        Some oldVal \<Rightarrow>
          (Some oldVal, t\<lparr>ps_stats := Dec (l_EgressIP oldVal) (ps_stats t),
                          ps_leases := AList.delete o1 (ps_leases t)\<rparr>)
      | None \<Rightarrow> (None, t))"

definition DeleteLeaseIfOlderThan ::
  "string \<Rightarrow> string \<Rightarrow> int \<Rightarrow> PlatformRoutingState \<Rightarrow> Lease option \<times> PlatformRoutingState" where
  "DeleteLeaseIfOlderThan userID account createdBeforeOrAtNs t =
     (let o1 = owner userID account in
      case map_of (ps_leases t) o1 of
        None \<Rightarrow> (None, t)
      | Some current \<Rightarrow>
          if l_CreatedAtNs current > createdBeforeOrAtNs then (None, t)
          else (Some current, t\<lparr>ps_stats := Dec (l_EgressIP current) (ps_stats t),
                                ps_leases := AList.delete o1 (ps_leases t)\<rparr>))"

definition TableSize :: "PlatformRoutingState \<Rightarrow> nat" where
  "TableSize t = length (ps_leases t)"

section \<open>The load invariant\<close>

definition leasesOn :: "Addr \<Rightarrow> (leaseOwner, Lease) gomap \<Rightarrow> int" where
  "leasesOn ip m = gm_sum (\<lambda>_ l. if l_EgressIP l = ip then 1 else 0) m"

definition load_inv :: "PlatformRoutingState \<Rightarrow> bool" where
  "load_inv t \<longleftrightarrow> gm_wf (ps_leases t) \<and> gm_wf (ps_stats t) \<and>
     (\<forall>ip. IsValid ip \<longrightarrow> gm_get (ps_stats t) ip 0 = leasesOn ip (ps_leases t))"

named_theorems lease_simps \<open>load and leases after an operation\<close>

lemma GetLoad_get [lease_simps]: "GetLoad s ip = (if IsValid ip then gm_get s ip 0 else 0)"
  by (simp add: GetLoad_def gm_get_def split: option.splits)

lemma gm_wf_Inc [simp]: "gm_wf s \<Longrightarrow> gm_wf (Inc ip s)"
  by (simp add: Inc_def)

lemma gm_wf_Dec [simp]: "gm_wf s \<Longrightarrow> gm_wf (Dec ip s)"
  by (simp add: Dec_def split: option.splits)

lemma get_Inc [lease_simps]:
  "IsValid ip' \<Longrightarrow> gm_get (Inc ip s) ip' 0 = gm_get s ip' 0 + (if ip' = ip then 1 else 0)"
  by (auto simp: Inc_def gomap_simps)

lemma get_Dec [lease_simps]:
  "gm_get s ip 0 \<noteq> 0 \<or> \<not> IsValid ip \<Longrightarrow> IsValid ip' \<Longrightarrow>
     gm_get (Dec ip s) ip' 0 = gm_get s ip' 0 - (if ip' = ip then 1 else 0)"
  by (auto simp: Dec_def gomap_simps gm_get_def split: option.splits)

lemma leasesOn_nonneg [simp]: "0 \<le> leasesOn ip m"
  unfolding leasesOn_def by (rule gm_sum_nonneg) simp

lemma leasesOn_update [lease_simps]:
  "gm_wf m \<Longrightarrow> leasesOn ip (AList.update k l m) =
     leasesOn ip m + (if l_EgressIP l = ip then 1 else 0) -
     (case map_of m k of Some l' \<Rightarrow> if l_EgressIP l' = ip then 1 else 0 | None \<Rightarrow> 0)"
  by (simp add: leasesOn_def gm_sum_update split: option.splits)

lemma leasesOn_delete [lease_simps]:
  "gm_wf m \<Longrightarrow> leasesOn ip (AList.delete k m) =
     leasesOn ip m - (case map_of m k of Some l' \<Rightarrow> if l_EgressIP l' = ip then 1 else 0 | None \<Rightarrow> 0)"
  by (simp add: leasesOn_def gm_sum_delete split: option.splits)

lemma leasesOn_pos:
  assumes "gm_wf m" "map_of m k = Some l"
  shows "0 < leasesOn (l_EgressIP l) m"
  using leasesOn_delete [OF assms(1), of "l_EgressIP l" k] leasesOn_nonneg [of "l_EgressIP l" "AList.delete k m"] assms(2)
  by simp

lemma load_of_owned:
  "load_inv t \<Longrightarrow> map_of (ps_leases t) k = Some l \<Longrightarrow>
     gm_get (ps_stats t) (l_EgressIP l) 0 \<noteq> 0 \<or> \<not> IsValid (l_EgressIP l)"
  using leasesOn_pos [of "ps_leases t" k l] by (auto simp: load_inv_def)

text \<open>The two ways a table changes: a lease is stored, or one is dropped.\<close>

lemma load_inv_drop:
  assumes inv: "load_inv t" and old: "map_of (ps_leases t) k = Some l"
  shows "load_inv (t\<lparr>ps_stats := Dec (l_EgressIP l) (ps_stats t), ps_leases := AList.delete k (ps_leases t)\<rparr>)"
  using inv old load_of_owned [OF inv old] by (auto simp: load_inv_def lease_simps)

lemma load_inv_store:
  assumes inv: "load_inv t"
  shows "load_inv (t\<lparr>ps_stats := Inc (l_EgressIP l)
      (case map_of (ps_leases t) k of Some l' \<Rightarrow> Dec (l_EgressIP l') (ps_stats t) | None \<Rightarrow> ps_stats t),
     ps_leases := AList.update k l (ps_leases t)\<rparr>)"
proof (cases "map_of (ps_leases t) k")
  case None
  then show ?thesis
    using inv by (auto simp: load_inv_def lease_simps)
next
  case (Some l')
  then show ?thesis
    using inv load_of_owned [OF inv Some] by (auto simp: load_inv_def lease_simps)
qed

text \<open>A store that keeps the address needs no change of the counts.\<close>

lemma load_inv_touch:
  assumes inv: "load_inv t" and old: "map_of (ps_leases t) k = Some l'" and ip: "l_EgressIP l = l_EgressIP l'"
  shows "load_inv (t\<lparr>ps_leases := AList.update k l (ps_leases t)\<rparr>)"
  using inv old ip by (auto simp: load_inv_def lease_simps)

lemma load_inv_New [simp]: "load_inv NewPlatformRoutingState"
  by (simp add: load_inv_def NewPlatformRoutingState_def leasesOn_def)

lemma load_inv_CreateLease: "load_inv t \<Longrightarrow> load_inv (CreateLease u a l t)"
  using load_inv_store [of t "owner u a" l] by (simp add: CreateLease_def Let_def)

lemma load_inv_DeleteLease: "load_inv t \<Longrightarrow> load_inv (snd (DeleteLease u a t))"
  using load_inv_drop [of t "owner u a"] by (simp add: DeleteLease_def Let_def split: option.splits)

lemma load_inv_DeleteLeaseIfOlderThan: "load_inv t \<Longrightarrow> load_inv (snd (DeleteLeaseIfOlderThan u a f t))"
  using load_inv_drop [of t "owner u a"] by (simp add: DeleteLeaseIfOlderThan_def Let_def split: option.splits)

lemma leases_CreateLease: "ps_leases (CreateLease u a l t) = AList.update (u, a) l (ps_leases t)"
  by (simp add: CreateLease_def Let_def owner_def)

lemma leases_DeleteLease: "ps_leases (snd (DeleteLease u a t)) = AList.delete (u, a) (ps_leases t)"
  by (simp add: DeleteLease_def Let_def owner_def gm_delete_absent split: option.splits)

end
