(* ===== verification/Tombstones.thy ===== *)
theory Tombstones
  imports Net_Addr
begin

text \<open>
  The bounded cache of rotation tombstones (\<open>internal/routing/rotation_tombstone.go\<close>): for every
  lease owner whose lease was rotated, the egress address the next lease should avoid.

  The code keeps a Go map from the key to an element of a doubly linked list, most recently used
  element first. Here an element is a number and its value, the list is \<open>tc_order\<close> and the map
  \<open>tc_entries\<close> leads to element numbers. The theory shows that the two structures stay in step and
  that together they are a least-recently-used list of at most \<open>maxEntries\<close> tombstones.
\<close>

section \<open>The cache\<close>

record rotationTombstone =
  t_key :: string
  t_egressIP :: Addr
  t_expiresAtNs :: int

record rotationTombstoneCache =
  tc_maxEntries :: nat
  tc_entries :: "(string, nat) gomap"
  tc_order :: "(nat \<times> rotationTombstone) list"
  tc_next :: nat

definition rotationTombstoneMaxEntries :: nat where
  "rotationTombstoneMaxEntries = 100000"

definition newRotationTombstoneCache :: "int \<Rightarrow> rotationTombstoneCache" where
  "newRotationTombstoneCache maxEntries =
     \<lparr>tc_maxEntries = (if maxEntries \<le> 0 then rotationTombstoneMaxEntries else nat maxEntries),
      tc_entries = [], tc_order = [], tc_next = 0\<rparr>"

definition rotationTombstoneKey :: "string \<Rightarrow> string \<Rightarrow> string \<Rightarrow> string" where
  "rotationTombstoneKey platformID userID account =
     platformID @ [char_of (0 :: nat)] @ userID @ [char_of (0 :: nat)] @ account"

text \<open>\<open>list.MoveToFront\<close>, with the value the element has after the store.\<close>

definition moveToFront :: "nat \<Rightarrow> rotationTombstone \<Rightarrow> (nat \<times> rotationTombstone) list \<Rightarrow> (nat \<times> rotationTombstone) list" where
  "moveToFront el t order = (el, t) # filter (\<lambda>p. fst p \<noteq> el) order"

definition removeElementLocked :: "nat \<Rightarrow> rotationTombstone \<Rightarrow> rotationTombstoneCache \<Rightarrow> rotationTombstoneCache" where
  "removeElementLocked el t c =
     c\<lparr>tc_order := filter (\<lambda>p. fst p \<noteq> el) (tc_order c), tc_entries := AList.delete (t_key t) (tc_entries c)\<rparr>"

lemma removeElementLocked_shrinks:
  assumes "tc_order c \<noteq> []"
  shows "length (tc_order (removeElementLocked (fst (last (tc_order c))) t c)) < length (tc_order c)"
proof -
  have "last (tc_order c) \<in> set (tc_order c)"
    using assms by simp
  then have "length (filter (\<lambda>p. fst p \<noteq> fst (last (tc_order c))) (tc_order c)) < length (tc_order c)"
    by (rule length_filter_less) simp
  then show ?thesis
    by (simp add: removeElementLocked_def)
qed

function evictLocked :: "rotationTombstoneCache \<Rightarrow> rotationTombstoneCache" where
  "evictLocked c =
     (if length (tc_entries c) \<le> tc_maxEntries c then c
      else if tc_order c = [] then c
      else evictLocked (removeElementLocked (fst (last (tc_order c))) (snd (last (tc_order c))) c))"
  by pat_completeness auto

termination
  by (relation "measure (\<lambda>c. length (tc_order c))") (simp_all add: removeElementLocked_shrinks)

declare evictLocked.simps [simp del]

definition storeTombstone :: "string \<Rightarrow> Addr \<Rightarrow> int \<Rightarrow> rotationTombstoneCache \<Rightarrow> rotationTombstoneCache" where
  "storeTombstone key ip expiresAtNs c =
     (let t = \<lparr>t_key = key, t_egressIP = ip, t_expiresAtNs = expiresAtNs\<rparr> in
      if \<not> IsValid ip then c
      else case map_of (tc_entries c) key of
        Some el \<Rightarrow> c\<lparr>tc_order := moveToFront el t (tc_order c)\<rparr>
      | None \<Rightarrow> evictLocked (c\<lparr>tc_entries := AList.update key (tc_next c) (tc_entries c),
                                tc_order := (tc_next c, t) # tc_order c, tc_next := tc_next c + 1\<rparr>))"

definition lookupTombstone :: "string \<Rightarrow> int \<Rightarrow> rotationTombstoneCache \<Rightarrow> Addr option \<times> rotationTombstoneCache" where
  "lookupTombstone key nowNs c =
     (case map_of (tc_entries c) key of
        None \<Rightarrow> (None, c)
      | Some el \<Rightarrow>
          (case map_of (tc_order c) el of
             None \<Rightarrow> (None, c)
           | Some t \<Rightarrow>
               if t_expiresAtNs t \<le> nowNs then (None, removeElementLocked el t c)
               else (Some (t_egressIP t), c\<lparr>tc_order := moveToFront el t (tc_order c)\<rparr>)))"

definition tombstoneLen :: "rotationTombstoneCache \<Rightarrow> nat" where
  "tombstoneLen c = length (tc_entries c)"

text \<open>\<open>rotationTombstoneTTL\<close> is the longer of the rotation interval and the sticky lifetime.\<close>

definition rotationTombstoneTTL :: "int \<Rightarrow> int \<Rightarrow> int" where
  "rotationTombstoneTTL interval stickyTTLNs = (if stickyTTLNs > interval then stickyTTLNs else interval)"

section \<open>A least-recently-used list\<close>

text \<open>The specification: the live keys with their values, most recently used first.\<close>

type_synonym lru = "(string, Addr \<times> int) gomap"

definition lru_drop :: "string \<Rightarrow> lru \<Rightarrow> lru" where
  "lru_drop k xs = filter (\<lambda>p. fst p \<noteq> k) xs"

definition lru_store :: "nat \<Rightarrow> string \<Rightarrow> Addr \<Rightarrow> int \<Rightarrow> lru \<Rightarrow> lru" where
  "lru_store n k ip e xs = (if IsValid ip then take n ((k, ip, e) # lru_drop k xs) else xs)"

definition lru_lookup :: "string \<Rightarrow> int \<Rightarrow> lru \<Rightarrow> Addr option \<times> lru" where
  "lru_lookup k nowNs xs = (case map_of xs k of
     None \<Rightarrow> (None, xs)
   | Some (ip, e) \<Rightarrow> if e \<le> nowNs then (None, lru_drop k xs) else (Some ip, (k, ip, e) # lru_drop k xs))"

definition tomb_pair :: "nat \<times> rotationTombstone \<Rightarrow> string \<times> Addr \<times> int" where
  "tomb_pair p = (t_key (snd p), t_egressIP (snd p), t_expiresAtNs (snd p))"

definition tomb_abs :: "rotationTombstoneCache \<Rightarrow> lru" where
  "tomb_abs c = map tomb_pair (tc_order c)"

text \<open>The map and the list hold the same elements, and no key or element number twice.\<close>

definition order_index :: "(nat \<times> rotationTombstone) list \<Rightarrow> (string \<times> nat) list" where
  "order_index order = map (\<lambda>p. (t_key (snd p), fst p)) order"

definition tomb_link :: "rotationTombstoneCache \<Rightarrow> bool" where
  "tomb_link c \<longleftrightarrow> gm_wf (tc_entries c) \<and> gm_wf (tc_order c) \<and> gm_wf (order_index (tc_order c)) \<and>
     set (tc_entries c) = set (order_index (tc_order c)) \<and>
     (\<forall>p\<in>set (tc_order c). fst p < tc_next c)"

definition tomb_inv :: "rotationTombstoneCache \<Rightarrow> bool" where
  "tomb_inv c \<longleftrightarrow> tomb_link c \<and> 0 < tc_maxEntries c \<and> length (tc_order c) \<le> tc_maxEntries c"

lemma tomb_abs_wf: "tomb_link c \<Longrightarrow> gm_wf (tomb_abs c)"
  by (simp add: tomb_link_def tomb_abs_def order_index_def tomb_pair_def comp_def)

lemma tomb_lengths: "tomb_link c \<Longrightarrow> length (tc_entries c) = length (tc_order c)"
proof -
  assume link: "tomb_link c"
  then have "distinct (tc_entries c)" "distinct (order_index (tc_order c))"
    by (auto simp: tomb_link_def distinct_map)
  then have "length (tc_entries c) = length (order_index (tc_order c))"
    using link by (metis distinct_card tomb_link_def)
  then show ?thesis
    by (simp add: order_index_def)
qed

text \<open>The element the map gives for a key is the one in the list with that key.\<close>

lemma tomb_entry:
  assumes link: "tomb_link c"
  shows "map_of (tc_entries c) key = Some el \<longleftrightarrow> (\<exists>t. (el, t) \<in> set (tc_order c) \<and> t_key t = key)"
proof -
  have wf: "gm_wf (tc_entries c)" and eq: "set (tc_entries c) = set (order_index (tc_order c))"
    using link by (auto simp: tomb_link_def)
  have "map_of (tc_entries c) key = Some el \<longleftrightarrow> (key, el) \<in> set (tc_entries c)"
    by (rule gm_mem_iff [OF wf, symmetric])
  also have "\<dots> \<longleftrightarrow> (key, el) \<in> set (order_index (tc_order c))"
    by (simp only: eq)
  also have "\<dots> \<longleftrightarrow> (\<exists>t. (el, t) \<in> set (tc_order c) \<and> t_key t = key)"
    unfolding order_index_def set_map image_iff by (metis fst_conv prod.collapse prod.inject snd_conv)
  finally show ?thesis .
qed

section \<open>The cache refines the list\<close>

lemma order_unique:
  assumes "tomb_link c" "(el, t) \<in> set (tc_order c)" "p \<in> set (tc_order c)"
  shows "fst p = el \<longleftrightarrow> p = (el, t)" "t_key (snd p) = t_key t \<longleftrightarrow> p = (el, t)"
proof -
  have inj: "inj_on fst (set (tc_order c))" "inj_on (\<lambda>p. t_key (snd p)) (set (tc_order c))"
    using assms(1) by (auto simp: tomb_link_def order_index_def distinct_map comp_def)
  show "fst p = el \<longleftrightarrow> p = (el, t)" "t_key (snd p) = t_key t \<longleftrightarrow> p = (el, t)"
    using inj_onD [OF inj(1), of p "(el, t)"] inj_onD [OF inj(2), of p "(el, t)"] assms(2,3) by auto
qed

lemma abs_without:
  assumes "tomb_link c" "(el, t) \<in> set (tc_order c)"
  shows "map tomb_pair (filter (\<lambda>p. fst p \<noteq> el) (tc_order c)) = lru_drop (t_key t) (tomb_abs c)"
proof -
  have "filter (\<lambda>p. fst p \<noteq> el) (tc_order c) = filter (\<lambda>p. t_key (snd p) \<noteq> t_key t) (tc_order c)"
    by (rule filter_cong) (auto dest: order_unique [OF assms])
  then show ?thesis
    by (simp add: lru_drop_def tomb_abs_def filter_map comp_def tomb_pair_def)
qed

lemma link_remove:
  assumes link: "tomb_link c" and el: "(el, t) \<in> set (tc_order c)"
  shows "tomb_link (removeElementLocked el t c)"
proof -
  have "set (order_index (filter (\<lambda>p. fst p \<noteq> el) (tc_order c))) = set (order_index (tc_order c)) - {x. fst x = t_key t}"
    using order_unique [OF link el] by (force simp: order_index_def)
  then show ?thesis
    using link by (auto simp: tomb_link_def removeElementLocked_def AList.delete_eq order_index_def
        comp_def distinct_map_filter)
qed

lemma abs_remove:
  "tomb_link c \<Longrightarrow> (el, t) \<in> set (tc_order c) \<Longrightarrow>
     tomb_abs (removeElementLocked el t c) = lru_drop (t_key t) (tomb_abs c)"
  using abs_without [of c el t] by (simp add: removeElementLocked_def tomb_abs_def)

lemma link_move:
  assumes link: "tomb_link c" and el: "(el, t) \<in> set (tc_order c)" and key: "t_key t' = t_key t"
  shows "tomb_link (c\<lparr>tc_order := moveToFront el t' (tc_order c)\<rparr>)"
proof -
  have "set (order_index (moveToFront el t' (tc_order c))) = set (order_index (tc_order c))"
    using el key order_unique(1) [OF link el] by (force simp: order_index_def moveToFront_def)
  moreover have "t_key t \<notin> (\<lambda>p. t_key (snd p)) ` set (filter (\<lambda>p. fst p \<noteq> el) (tc_order c))"
    by (auto dest: order_unique [OF link el])
  ultimately show ?thesis
    using link el key by (auto simp: tomb_link_def moveToFront_def order_index_def comp_def distinct_map_filter)
qed

lemma abs_move:
  assumes "tomb_link c" "(el, t) \<in> set (tc_order c)" "t_key t' = t_key t"
  shows "tomb_abs (c\<lparr>tc_order := moveToFront el t' (tc_order c)\<rparr>) =
    (t_key t, t_egressIP t', t_expiresAtNs t') # lru_drop (t_key t) (tomb_abs c)"
  using abs_without [OF assms(1,2)] assms(3) by (simp add: tomb_abs_def moveToFront_def tomb_pair_def)

lemma length_move:
  assumes "tomb_link c" "(el, t) \<in> set (tc_order c)" "t_key t' = t_key t"
  shows "length (moveToFront el t' (tc_order c)) = length (tc_order c)"
proof -
  have "length (AList.delete el (tc_order c)) = length (tc_order c) - 1"
    using assms(1,2) by (subst length_gm_delete) (auto simp: tomb_link_def gm_keysI)
  moreover have "AList.delete el (tc_order c) = filter (\<lambda>p. fst p \<noteq> el) (tc_order c)"
    by (simp add: AList.delete_eq case_prod_unfold eq_commute [of el])
  moreover have "0 < length (tc_order c)"
    using assms(2) by (cases "tc_order c") auto
  ultimately show ?thesis
    by (simp add: moveToFront_def)
qed

lemma length_lru_drop: "k \<in> fst ` set xs \<Longrightarrow> gm_wf xs \<Longrightarrow> length (lru_drop k xs) = length xs - 1"
proof -
  assume "k \<in> fst ` set xs" "gm_wf xs"
  then have "length (AList.delete k xs) = length xs - 1"
    by (simp add: length_gm_delete)
  then show ?thesis
    by (simp add: AList.delete_eq lru_drop_def case_prod_unfold eq_commute [of k])
qed

lemma lru_drop_last:
  "gm_wf xs \<Longrightarrow> xs \<noteq> [] \<Longrightarrow> lru_drop (fst (last xs)) xs = butlast xs"
proof (induction xs rule: rev_induct)
  case (snoc x xs)
  then have "\<forall>p\<in>set xs. fst p \<noteq> fst x"
    by (metis (mono_tags, lifting) distinct.simps(2) distinct_rev image_eqI list.simps(9) rev_append
        rev_eq_Cons_iff rev_map rev_rev_ident set_map set_rev append.simps)
  then show ?case
    by (simp add: lru_drop_def)
qed simp

lemma evict_noop: "tomb_link c \<Longrightarrow> length (tc_order c) \<le> tc_maxEntries c \<Longrightarrow> evictLocked c = c"
  by (simp add: evictLocked.simps tomb_lengths)

lemma evict_one:
  assumes link: "tomb_link c" and len: "length (tc_order c) = Suc (tc_maxEntries c)"
  shows "tomb_link (evictLocked c) \<and> tomb_abs (evictLocked c) = butlast (tomb_abs c) \<and>
    tc_maxEntries (evictLocked c) = tc_maxEntries c"
proof -
  let ?p = "last (tc_order c)"
  let ?c = "removeElementLocked (fst ?p) (snd ?p) c"
  have ne: "tc_order c \<noteq> []"
    using len by auto
  then have mem: "(fst ?p, snd ?p) \<in> set (tc_order c)"
    by simp
  have link': "tomb_link ?c"
    by (rule link_remove [OF link mem])
  have "fst (last (tomb_abs c)) = t_key (snd ?p)"
    using ne by (simp add: tomb_abs_def last_map tomb_pair_def)
  then have abs': "tomb_abs ?c = butlast (tomb_abs c)"
    using abs_remove [OF link mem] lru_drop_last [OF tomb_abs_wf [OF link]] ne by (simp add: tomb_abs_def)
  have "length (tomb_abs ?c) = tc_maxEntries c"
    using abs' len by (simp add: tomb_abs_def)
  then have "evictLocked ?c = ?c"
    by (intro evict_noop [OF link']) (simp add: tomb_abs_def removeElementLocked_def)
  then have "evictLocked c = ?c"
    using len ne tomb_lengths [OF link] by (simp add: evictLocked.simps [of c])
  then show ?thesis
    using link' abs' by (simp add: removeElementLocked_def)
qed

lemma tomb_absent:
  assumes "tomb_link c" "map_of (tc_entries c) key = None"
  shows "map_of (tomb_abs c) key = None \<and> key \<notin> fst ` set (tomb_abs c) \<and> key \<notin> fst ` set (order_index (tc_order c))"
proof -
  have "\<forall>p\<in>set (tc_order c). t_key (snd p) \<noteq> key"
    using tomb_entry [OF assms(1), of key] assms(2) by (metis option.distinct(1) prod.collapse)
  then show ?thesis
    by (auto simp: tomb_abs_def tomb_pair_def order_index_def map_of_eq_None_iff)
qed

lemma tomb_present:
  assumes "tomb_link c" "map_of (tc_entries c) key = Some el"
  obtains t where "(el, t) \<in> set (tc_order c)" "t_key t = key" "map_of (tc_order c) el = Some t"
    "map_of (tomb_abs c) key = Some (t_egressIP t, t_expiresAtNs t)"
proof -
  obtain t where t: "(el, t) \<in> set (tc_order c)" "t_key t = key"
    using tomb_entry [OF assms(1)] assms(2) by blast
  then have "map_of (tc_order c) el = Some t"
    using assms(1) by (intro map_of_is_SomeI) (auto simp: tomb_link_def)
  moreover have "(key, t_egressIP t, t_expiresAtNs t) \<in> set (tomb_abs c)"
    unfolding tomb_abs_def set_map by (rule rev_image_eqI [OF t(1)]) (simp add: tomb_pair_def t(2))
  then have "map_of (tomb_abs c) key = Some (t_egressIP t, t_expiresAtNs t)"
    by (rule map_of_is_SomeI [OF tomb_abs_wf [OF assms(1)]])
  ultimately show ?thesis
    using that t by blast
qed

lemma link_push:
  assumes link: "tomb_link c" and new: "map_of (tc_entries c) key = None"
  shows "tomb_link (c\<lparr>tc_entries := AList.update key (tc_next c) (tc_entries c),
     tc_order := (tc_next c, \<lparr>t_key = key, t_egressIP = ip, t_expiresAtNs = e\<rparr>) # tc_order c, tc_next := tc_next c + 1\<rparr>)"
proof -
  have "set (tc_entries c) = set (order_index (tc_order c))" "gm_wf (tc_entries c)"
    and lt: "\<forall>p\<in>set (tc_order c). fst p < tc_next c"
    using link by (auto simp: tomb_link_def)
  then have "tc_next c \<notin> fst ` set (tc_order c)" "key \<notin> fst ` set (order_index (tc_order c))"
    "key \<notin> fst ` set (tc_entries c)"
    using tomb_absent [OF link new] by auto
  moreover have "order_index ((tc_next c, \<lparr>t_key = key, t_egressIP = ip, t_expiresAtNs = e\<rparr>) # tc_order c) =
      (key, tc_next c) # order_index (tc_order c)"
    by (simp add: order_index_def)
  ultimately show ?thesis
    using link lt by (simp add: tomb_link_def gm_update_absent new) (simp add: less_SucI)
qed

lemma length_tomb_abs [simp]: "length (tomb_abs c) = length (tc_order c)"
  by (simp add: tomb_abs_def)

lemma maxEntries_simps [simp]:
  "tc_maxEntries (removeElementLocked el t c) = tc_maxEntries c"
  by (simp add: removeElementLocked_def)

lemma lookup_refines:
  assumes inv: "tomb_inv c"
  shows "let (ip, c') = lookupTombstone key nowNs c in
    tomb_inv c' \<and> tc_maxEntries c' = tc_maxEntries c \<and> (ip, tomb_abs c') = lru_lookup key nowNs (tomb_abs c)"
proof (cases "map_of (tc_entries c) key")
  case None
  then show ?thesis
    using inv tomb_absent [of c key] by (simp add: lookupTombstone_def lru_lookup_def tomb_inv_def)
next
  case (Some el)
  have link: "tomb_link c"
    using inv by (simp add: tomb_inv_def)
  obtain t where t: "(el, t) \<in> set (tc_order c)" "t_key t = key" "map_of (tc_order c) el = Some t"
    "map_of (tomb_abs c) key = Some (t_egressIP t, t_expiresAtNs t)"
    using tomb_present [OF link Some] .
  have "length (tc_order (removeElementLocked el t c)) \<le> tc_maxEntries c"
    using inv order_trans [OF length_filter_le] by (auto simp: tomb_inv_def removeElementLocked_def)
  then show ?thesis
    using inv Some t length_move [OF link t(1) refl] link_move [OF link t(1) refl] link_remove [OF link t(1)]
      abs_move [OF link t(1) refl] abs_remove [OF link t(1)]
    by (simp add: lookupTombstone_def lru_lookup_def tomb_inv_def)
qed

lemma store_refines:
  assumes inv: "tomb_inv c"
  shows "let c' = storeTombstone key ip e c in
    tomb_inv c' \<and> tc_maxEntries c' = tc_maxEntries c \<and>
    tomb_abs c' = lru_store (tc_maxEntries c) key ip e (tomb_abs c)"
proof (cases "IsValid ip")
  case False
  then show ?thesis
    using inv by (simp add: storeTombstone_def lru_store_def)
next
  case True
  have link: "tomb_link c" and len: "length (tc_order c) \<le> tc_maxEntries c" and pos: "0 < tc_maxEntries c"
    using inv by (auto simp: tomb_inv_def)
  let ?t = "\<lparr>t_key = key, t_egressIP = ip, t_expiresAtNs = e\<rparr>"
  show ?thesis
  proof (cases "map_of (tc_entries c) key")
    case (Some el)
    obtain t where t: "(el, t) \<in> set (tc_order c)" "t_key t = key"
      "map_of (tomb_abs c) key = Some (t_egressIP t, t_expiresAtNs t)"
      using tomb_present [OF link Some] by metis
    have key: "t_key ?t = t_key t"
      using t(2) by simp
    let ?mv = "c\<lparr>tc_order := moveToFront el ?t (tc_order c)\<rparr>"
    have len': "length (tc_order ?mv) \<le> tc_maxEntries c"
      using len length_move [OF link t(1) key] by simp
    then have "take (tc_maxEntries c) (tomb_abs ?mv) = tomb_abs ?mv"
      by simp
    then show ?thesis
      using True Some t pos len' link_move [OF link t(1) key] abs_move [OF link t(1) key]
      by (simp add: storeTombstone_def lru_store_def tomb_inv_def Let_def)
  next
    case None
    let ?c = "c\<lparr>tc_entries := AList.update key (tc_next c) (tc_entries c),
                 tc_order := (tc_next c, ?t) # tc_order c, tc_next := tc_next c + 1\<rparr>"
    have absent: "key \<notin> fst ` set (tomb_abs c)" "key \<notin> fst ` set (order_index (tc_order c))"
      using tomb_absent [OF link None] by auto
    have link': "tomb_link ?c"
      by (rule link_push [OF link None])
    have drop: "lru_drop key (tomb_abs c) = tomb_abs c"
      using absent(1) by (auto simp: lru_drop_def intro!: filter_True)
    have abs': "tomb_abs ?c = (key, ip, e) # tomb_abs c"
      by (simp add: tomb_abs_def tomb_pair_def)
    show ?thesis
    proof (cases "length (tc_order c) = tc_maxEntries c")
      case True
      then show ?thesis
        using \<open>IsValid ip\<close> None evict_one [OF link'] abs' drop pos
        by (simp add: storeTombstone_def lru_store_def tomb_inv_def Let_def butlast_conv_take flip: length_tomb_abs)
    next
      case False
      then have "evictLocked ?c = ?c"
        using len by (intro evict_noop [OF link']) simp
      then show ?thesis
        using \<open>IsValid ip\<close> None link' abs' drop pos len False
        by (simp add: storeTombstone_def lru_store_def tomb_inv_def Let_def)
    qed
  qed
qed

lemma lookup_parts:
  assumes "tomb_inv c"
  shows "tomb_inv (snd (lookupTombstone key nowNs c))"
    "tc_maxEntries (snd (lookupTombstone key nowNs c)) = tc_maxEntries c"
    "fst (lookupTombstone key nowNs c) = fst (lru_lookup key nowNs (tomb_abs c))"
    "tomb_abs (snd (lookupTombstone key nowNs c)) = snd (lru_lookup key nowNs (tomb_abs c))"
  using lookup_refines [OF assms, of key nowNs] by (auto simp: Let_def split: prod.splits) (metis fst_conv snd_conv)+

lemma store_parts:
  assumes "tomb_inv c"
  shows "tomb_inv (storeTombstone key ip e c)"
    "tc_maxEntries (storeTombstone key ip e c) = tc_maxEntries c"
    "tomb_abs (storeTombstone key ip e c) = lru_store (tc_maxEntries c) key ip e (tomb_abs c)"
  using store_refines [OF assms, of key ip e] by (simp_all add: Let_def)

section \<open>Runs of the cache\<close>

datatype tomb_op = OpStore string Addr int | OpLookup string int

fun tomb_step :: "tomb_op \<Rightarrow> rotationTombstoneCache \<Rightarrow> rotationTombstoneCache" where
  "tomb_step (OpStore k ip e) c = storeTombstone k ip e c"
| "tomb_step (OpLookup k now) c = snd (lookupTombstone k now c)"

fun lru_step :: "tomb_op \<Rightarrow> nat \<times> lru \<Rightarrow> nat \<times> lru" where
  "lru_step (OpStore k ip e) (n, xs) = (n, lru_store n k ip e xs)"
| "lru_step (OpLookup k now) (n, xs) = (n, snd (lru_lookup k now xs))"

interpretation tomb_as_lru: refinement tomb_step tomb_inv "\<lambda>c. (tc_maxEntries c, tomb_abs c)" lru_step
proof (unfold_locales, goal_cases)
  case (1 c op)
  then show ?case
    by (cases op) (simp_all add: store_parts lookup_parts)
next
  case (2 c op)
  then show ?case
    by (cases op) (simp_all add: store_parts lookup_parts)
qed

lemma tomb_inv_new [simp]: "tomb_inv (newRotationTombstoneCache n)"
  by (simp add: tomb_inv_def tomb_link_def newRotationTombstoneCache_def order_index_def rotationTombstoneMaxEntries_def)

text \<open>
  C36. The tombstone cache is a least-recently-used list of bounded length: after any sequence of
  stores and lookups its map and its linked list hold the same tombstones, these are the ones the
  specification keeps, in its order, and there are never more than \<open>maxEntries\<close> of them. A lookup
  answers what the specification answers: the stored address while it has not expired.
\<close>
theorem tombstones_are_bounded_lru:
  "let c = fold tomb_step ops (newRotationTombstoneCache m);
       xs = snd (fold lru_step ops (tc_maxEntries (newRotationTombstoneCache m), [])) in
     tomb_abs c = xs \<and> tombstoneLen c = length xs \<and>
     tombstoneLen c \<le> tc_maxEntries (newRotationTombstoneCache m) \<and>
     fst (lookupTombstone key nowNs c) = fst (lru_lookup key nowNs xs)"
proof -
  let ?c = "fold tomb_step ops (newRotationTombstoneCache m)"
  have inv: "tomb_inv ?c"
    by (rule tomb_as_lru.inv_run) simp
  have "tomb_abs (newRotationTombstoneCache m) = []"
    by (simp add: tomb_abs_def newRotationTombstoneCache_def)
  then have run: "(tc_maxEntries ?c, tomb_abs ?c) =
      fold lru_step ops (tc_maxEntries (newRotationTombstoneCache m), [])"
    using tomb_as_lru.run_refines [of "newRotationTombstoneCache m" ops] by simp
  have "fst (lru_step op p) = fst p" for op p
    by (cases op; cases p) simp_all
  then have "fst (fold lru_step ops p) = fst p" for p
    by (induction ops arbitrary: p) simp_all
  then have "tc_maxEntries ?c = tc_maxEntries (newRotationTombstoneCache m)"
    using run by (metis fst_conv)
  moreover have "tomb_abs ?c = snd (fold lru_step ops (tc_maxEntries (newRotationTombstoneCache m), []))"
    using run by (metis snd_conv)
  moreover have "tombstoneLen ?c = length (tomb_abs ?c)" "length (tomb_abs ?c) \<le> tc_maxEntries ?c"
    using inv tomb_lengths [of ?c] by (auto simp: tombstoneLen_def tomb_inv_def)
  ultimately show ?thesis
    using lookup_parts(3) [OF inv, of key nowNs] by (simp only: Let_def)
qed

text \<open>What a store leaves for the next lookup of the same key, and of another.\<close>

lemma lookup_after_store:
  assumes "tomb_inv c" "IsValid ip"
  shows "fst (lookupTombstone key nowNs (storeTombstone key ip e c)) = (if e \<le> nowNs then None else Some ip)"
proof -
  have "0 < tc_maxEntries c"
    using assms(1) by (simp add: tomb_inv_def)
  then have "map_of (lru_store (tc_maxEntries c) key ip e (tomb_abs c)) key = Some (ip, e)"
    using assms(2) by (cases "tc_maxEntries c") (simp_all add: lru_store_def)
  then show ?thesis
    by (simp add: store_parts lookup_parts assms(1) lru_lookup_def)
qed

section \<open>Keys of distinct owners\<close>

lemma split_at_first:
  "xs @ z # ys = xs' @ z # ys' \<Longrightarrow> z \<notin> set xs \<Longrightarrow> z \<notin> set xs' \<Longrightarrow> xs = xs' \<and> ys = ys'"
  by (induction xs arbitrary: xs') (auto simp: Cons_eq_append_conv)

lemma rotationTombstoneKey_inj:
  assumes "rotationTombstoneKey p u a = rotationTombstoneKey p' u' a'"
    "char_of (0::nat) \<notin> set p \<union> set u" "char_of (0::nat) \<notin> set p' \<union> set u'"
  shows "p = p' \<and> u = u' \<and> a = a'"
  using assms split_at_first [of p _ "u @ char_of (0::nat) # a" p' "u' @ char_of (0::nat) # a'"]
    split_at_first [of u _ a u' a'] by (auto simp: rotationTombstoneKey_def)

end
