(* ===== verification/Router.thy ===== *)
theory Router
  imports Node_Choice Tombstones
begin

text \<open>
  Route selection and the sticky leases (\<open>internal/routing/router.go\<close>, \<open>events.go\<close>, and the router's
  half of \<open>rotation_tombstone.go\<close>).

  The router is the routing state of each platform, the tombstone cache and the lease events emitted
  so far, oldest first. A request runs against one snapshot of the pool (\<open>RouterEnv\<close>, the functions of
  \<open>PoolAccessor\<close>) and one instant; the map's \<open>Compute\<close> makes the decision about one owner's lease atomic,
  and so is one step here. \<open>netutil.ExtractDomain\<close>, which needs the public suffix list, the parsing
  and printing of addresses and the node tag resolver are parameters.

  The theory shows: the load counts always match the leases; a request changes no lease but its
  owner's; a live lease keeps its address as long as some node of the view has it; a routed request
  gets a node that is in the view and in the pool; a rotation makes the next lease avoid the old
  address unless nothing else is left; every lease that changes is announced with its owner, except
  by \<open>DeleteAllLeases\<close> and \<open>PurgePlatformState\<close>.
\<close>

section \<open>State, events and results\<close>

datatype LeaseEventType = EvCreate | EvTouch | EvReplace | EvRemove | EvExpire

record LeaseEvent =
  ev_Type :: LeaseEventType
  ev_PlatformID :: string
  ev_UserID :: string
  ev_Account :: string
  ev_NodeHash :: Hash
  ev_EgressIP :: Addr
  ev_CreatedAtNs :: int

record Router =
  ro_states :: "(string, PlatformRoutingState) gomap"
  ro_tombstones :: rotationTombstoneCache
  ro_events :: "LeaseEvent list"

record RouterEnv =
  rt_env :: RouteEnv
  rt_GetPlatform :: "string \<Rightarrow> Platform option"
  rt_GetPlatformByName :: "string \<Rightarrow> Platform option"
  rt_extractDomain :: "string \<Rightarrow> string"
  rt_nodeTag :: "(Hash \<Rightarrow> string) option"

record RouteResult =
  rr_PlatformID :: string
  rr_PlatformName :: string
  rr_NodeHash :: Hash
  rr_EgressIP :: Addr
  rr_NodeTag :: string
  rr_LeaseCreated :: bool
  rr_Events :: "string list"

text \<open>\<open>NodeGone\<close> is \<open>ErrNoAvailableNodes\<close> wrapped with the hash of the node that disappeared.\<close>

datatype route_error = PlatformNotFound | NoAvailableNodes | NodeGone Hash

datatype ComputeOp = UpdateOp | DeleteOp | CancelOp

datatype leaseInvalidationReason = InvalidationNone | InvalidationExpire | InvalidationRemove

definition NewRouter :: Router where
  "NewRouter = \<lparr>ro_states = [], ro_tombstones = newRotationTombstoneCache (int rotationTombstoneMaxEntries), ro_events = []\<rparr>"

definition ensurePlatformState :: "string \<Rightarrow> Router \<Rightarrow> PlatformRoutingState" where
  "ensurePlatformState platformID r =
     (case map_of (ro_states r) platformID of Some st \<Rightarrow> st | None \<Rightarrow> NewPlatformRoutingState)"

definition leaseEvent :: "LeaseEventType \<Rightarrow> string \<Rightarrow> string \<Rightarrow> string \<Rightarrow> Hash \<Rightarrow> Addr \<Rightarrow> int \<Rightarrow> LeaseEvent" where
  "leaseEvent ty platformID userID account h ip createdAtNs =
     \<lparr>ev_Type = ty, ev_PlatformID = platformID, ev_UserID = userID, ev_Account = account, ev_NodeHash = h,
      ev_EgressIP = ip, ev_CreatedAtNs = createdAtNs\<rparr>"

definition emitLeaseEvent :: "LeaseEvent \<Rightarrow> Router \<Rightarrow> Router" where
  "emitLeaseEvent ev r = r\<lparr>ro_events := ro_events r @ [ev]\<rparr>"

definition stickyResult :: "Hash \<Rightarrow> Addr \<Rightarrow> bool \<Rightarrow> string list \<Rightarrow> RouteResult" where
  "stickyResult h ip created events =
     \<lparr>rr_PlatformID = [], rr_PlatformName = [], rr_NodeHash = h, rr_EgressIP = ip, rr_NodeTag = [],
      rr_LeaseCreated = created, rr_Events = events\<rparr>"

definition RouteEventRotationFallbackSameIP :: string where
  "RouteEventRotationFallbackSameIP = ''rotation_fallback_same_ip''"

definition rotationFallbackEvents :: "bool \<Rightarrow> string list" where
  "rotationFallbackEvents fallbackSameIP = (if fallbackSameIP then [RouteEventRotationFallbackSameIP] else [])"

section \<open>Choosing a live node\<close>

text \<open>\<open>selectLiveRandomRoute\<close> with the attempts left and the hash last found missing.\<close>

fun selectLive ::
  "RouteEnv \<Rightarrow> Platform \<Rightarrow> IPLoadStats \<Rightarrow> string \<Rightarrow> Addr \<Rightarrow> nat \<Rightarrow> bool \<Rightarrow> Hash \<Rightarrow> rng
     \<Rightarrow> (route_error + (Hash \<times> NodeEntry \<times> bool)) \<times> rng" where
  "selectLive env plat stats target avoidIP 0 fallbackSameIP lastMissing r =
     (Inl (if lastMissing \<noteq> Zero then NodeGone lastMissing else NoAvailableNodes), r)"
| "selectLive env plat stats target avoidIP (Suc n) fallbackSameIP lastMissing r =
     (case randomRouteAvoiding env plat stats target avoidIP r of
        (None, r') \<Rightarrow> (Inl NoAvailableNodes, r')
      | (Some (h, fallback), r') \<Rightarrow>
          (case GetEntry env h of
             Some e \<Rightarrow> (Inr (h, e, fallbackSameIP \<or> fallback), r')
           | None \<Rightarrow> selectLive env plat stats target avoidIP n (fallbackSameIP \<or> fallback) h r'))"

definition livePickAttempts :: nat where
  "livePickAttempts = 2"

definition selectLiveRandomRoute ::
  "RouteEnv \<Rightarrow> Platform \<Rightarrow> IPLoadStats \<Rightarrow> string \<Rightarrow> Addr \<Rightarrow> rng \<Rightarrow> (route_error + (Hash \<times> NodeEntry \<times> bool)) \<times> rng" where
  "selectLiveRandomRoute env plat stats target avoidIP r =
     selectLive env plat stats target avoidIP livePickAttempts False Zero r"

definition routeRandom ::
  "RouteEnv \<Rightarrow> Platform \<Rightarrow> IPLoadStats \<Rightarrow> string \<Rightarrow> rng \<Rightarrow> (route_error + RouteResult) \<times> rng" where
  "routeRandom env plat stats target r =
     (case selectLiveRandomRoute env plat stats target ZeroAddr r of
        (Inl err, r') \<Rightarrow> (Inl err, r')
      | (Inr (h, e, fallback), r') \<Rightarrow> (Inr (stickyResult h (GetEgressIP e) False (rotationFallbackEvents fallback)), r'))"

section \<open>Tombstones of the router\<close>

definition rotationAvoidIP :: "Platform \<Rightarrow> string \<Rightarrow> string \<Rightarrow> int \<Rightarrow> rotationTombstoneCache \<Rightarrow> Addr \<times> rotationTombstoneCache" where
  "rotationAvoidIP plat userID account nowNs c =
     (if account = [] \<or> \<not> pl_RotationAvoidPreviousIP plat then (ZeroAddr, c)
      else case lookupTombstone (rotationTombstoneKey (pl_ID plat) userID account) nowNs c of
        (None, c') \<Rightarrow> (ZeroAddr, c')
      | (Some ip, c') \<Rightarrow> (ip, c'))"

definition recordRotationTombstone ::
  "string \<Rightarrow> string \<Rightarrow> string \<Rightarrow> Addr \<Rightarrow> int \<Rightarrow> int \<Rightarrow> rotationTombstoneCache \<Rightarrow> rotationTombstoneCache" where
  "recordRotationTombstone platformID userID account ip nowNs ttl c =
     (if account = [] \<or> \<not> IsValid ip \<or> ttl \<le> 0 then c
      else storeTombstone (rotationTombstoneKey platformID userID account) ip (wrap64 (nowNs + ttl)) c)"

definition RotationTombstone :: "string \<Rightarrow> string \<Rightarrow> string \<Rightarrow> int \<Rightarrow> Router \<Rightarrow> Addr option \<times> Router" where
  "RotationTombstone platformID userID account nowNs r =
     (let (ip, c) = lookupTombstone (rotationTombstoneKey platformID userID account) nowNs (ro_tombstones r)
      in (ip, r\<lparr>ro_tombstones := c\<rparr>))"

section \<open>Deciding one sticky lease\<close>

definition tryLeaseHit ::
  "RouteEnv \<Rightarrow> Platform \<Rightarrow> string \<Rightarrow> string \<Rightarrow> Lease \<Rightarrow> (Lease \<times> RouteResult \<times> LeaseEvent) option" where
  "tryLeaseHit env plat userID account current =
     (case GetEntry env (l_NodeHash current) of
        None \<Rightarrow> None
      | Some e \<Rightarrow>
          if \<not> Contains (l_NodeHash current) (pl_view plat) \<or> GetEgressIP e \<noteq> l_EgressIP current then None
          else Some (current\<lparr>l_LastAccessedNs := en_now env\<rparr>,
                     stickyResult (l_NodeHash current) (l_EgressIP current) False [],
                     leaseEvent EvTouch (pl_ID plat) userID account (l_NodeHash current) (l_EgressIP current) 0))"

definition tryLeaseSameIPRotation ::
  "RouteEnv \<Rightarrow> Platform \<Rightarrow> string \<Rightarrow> string \<Rightarrow> Lease \<Rightarrow> string \<Rightarrow> (Lease \<times> RouteResult \<times> LeaseEvent) option" where
  "tryLeaseSameIPRotation env plat userID account current target =
     (case chooseSameIPRotationCandidate env plat (l_EgressIP current) target of
        None \<Rightarrow> None
      | Some bestHash \<Rightarrow>
          Some (current\<lparr>l_NodeHash := bestHash, l_LastAccessedNs := en_now env\<rparr>,
                stickyResult bestHash (l_EgressIP current) False [],
                leaseEvent EvReplace (pl_ID plat) userID account bestHash (l_EgressIP current) 0))"

definition leaseTTL :: "Platform \<Rightarrow> int" where
  "leaseTTL plat = (if pl_StickyTTLNs plat \<le> 0 then 86400000000000 else pl_StickyTTLNs plat)"

definition createLease ::
  "RouteEnv \<Rightarrow> Platform \<Rightarrow> IPLoadStats \<Rightarrow> string \<Rightarrow> string \<Rightarrow> string \<Rightarrow> rotationTombstoneCache \<Rightarrow> rng
     \<Rightarrow> (route_error + (Lease \<times> RouteResult)) \<times> rotationTombstoneCache \<times> rng" where
  "createLease env plat stats userID account target c r =
     (let (avoidIP, c') = rotationAvoidIP plat userID account (en_now env) c in
      case selectLiveRandomRoute env plat stats target avoidIP r of
        (Inl err, r') \<Rightarrow> (Inl err, c', r')
      | (Inr (h, e, fallback), r') \<Rightarrow>
          (Inr (\<lparr>l_NodeHash = h, l_EgressIP = GetEgressIP e, l_CreatedAtNs = en_now env,
                 l_ExpiryNs = wrap64 (en_now env + leaseTTL plat), l_LastAccessedNs = en_now env\<rparr>,
                stickyResult h (GetEgressIP e) True (rotationFallbackEvents fallback)), c', r'))"

definition cleanupPreviousLease ::
  "IPLoadStats \<Rightarrow> Lease option \<Rightarrow> leaseInvalidationReason \<Rightarrow> string \<Rightarrow> string \<Rightarrow> string \<Rightarrow> IPLoadStats \<times> LeaseEvent list" where
  "cleanupPreviousLease stats previous invalidation platformID userID account =
     (case previous of
        None \<Rightarrow> (stats, [])
      | Some lease \<Rightarrow>
          (Dec (l_EgressIP lease) stats,
           (case invalidation of
              InvalidationExpire \<Rightarrow>
                [leaseEvent EvExpire platformID userID account (l_NodeHash lease) (l_EgressIP lease) (l_CreatedAtNs lease)]
            | InvalidationRemove \<Rightarrow>
                [leaseEvent EvRemove platformID userID account (l_NodeHash lease) (l_EgressIP lease) (l_CreatedAtNs lease)]
            | InvalidationNone \<Rightarrow> [])))"

text \<open>What a decision leaves: the lease and the map operation, the result, and the state it touched.\<close>

record decision =
  d_lease :: "Lease option"
  d_op :: ComputeOp
  d_result :: "route_error + RouteResult"
  d_stats :: IPLoadStats
  d_tombstones :: rotationTombstoneCache
  d_events :: "LeaseEvent list"
  d_rng :: rng

definition abortLeaseCreate :: "Lease option \<Rightarrow> Lease option \<times> ComputeOp" where
  "abortLeaseCreate previous = (previous, if previous \<noteq> None then DeleteOp else CancelOp)"

definition createOrAbortStickyLease ::
  "RouteEnv \<Rightarrow> Platform \<Rightarrow> IPLoadStats \<Rightarrow> string \<Rightarrow> string \<Rightarrow> string \<Rightarrow> Lease option \<Rightarrow> leaseInvalidationReason
     \<Rightarrow> rotationTombstoneCache \<Rightarrow> rng \<Rightarrow> decision" where
  "createOrAbortStickyLease env plat stats userID account target previous invalidation c r =
     (let (created, c', r') = createLease env plat stats userID account target c r;
          (stats', events) = cleanupPreviousLease stats previous invalidation (pl_ID plat) userID account
      in case created of
        Inl err \<Rightarrow>
          (let (lease, opn) = abortLeaseCreate previous in
           \<lparr>d_lease = lease, d_op = opn, d_result = Inl err, d_stats = stats', d_tombstones = c', d_events = events, d_rng = r'\<rparr>)
      | Inr (newLease, result) \<Rightarrow>
          \<lparr>d_lease = Some newLease, d_op = UpdateOp, d_result = Inr result,
           d_stats = Inc (l_EgressIP newLease) stats', d_tombstones = c',
           d_events = events @ [leaseEvent EvCreate (pl_ID plat) userID account (l_NodeHash newLease) (l_EgressIP newLease) 0],
           d_rng = r'\<rparr>)"

definition keepLease ::
  "IPLoadStats \<Rightarrow> rotationTombstoneCache \<Rightarrow> rng \<Rightarrow> Lease \<times> RouteResult \<times> LeaseEvent \<Rightarrow> decision" where
  "keepLease stats c r hit =
     (case hit of (lease, result, ev) \<Rightarrow>
        \<lparr>d_lease = Some lease, d_op = UpdateOp, d_result = Inr result, d_stats = stats, d_tombstones = c,
         d_events = [ev], d_rng = r\<rparr>)"

definition decideStickyLease ::
  "RouteEnv \<Rightarrow> Platform \<Rightarrow> IPLoadStats \<Rightarrow> string \<Rightarrow> string \<Rightarrow> string \<Rightarrow> Lease option \<Rightarrow> rotationTombstoneCache \<Rightarrow> rng \<Rightarrow> decision" where
  "decideStickyLease env plat stats userID account target current c r =
     (case current of
        None \<Rightarrow> createOrAbortStickyLease env plat stats userID account target None InvalidationNone c r
      | Some lease \<Rightarrow>
          if IsExpired lease (en_now env)
          then createOrAbortStickyLease env plat stats userID account target current InvalidationExpire c r
          else case tryLeaseHit env plat userID account lease of
            Some hit \<Rightarrow> keepLease stats c r hit
          | None \<Rightarrow>
              (case tryLeaseSameIPRotation env plat userID account lease target of
                 Some rotated \<Rightarrow> keepLease stats c r rotated
               | None \<Rightarrow> createOrAbortStickyLease env plat stats userID account target current InvalidationRemove c r))"

text \<open>\<open>Compute\<close> of the lease map.\<close>

definition computeLease ::
  "leaseOwner \<Rightarrow> Lease option \<Rightarrow> ComputeOp \<Rightarrow> (leaseOwner, Lease) gomap \<Rightarrow> (leaseOwner, Lease) gomap" where
  "computeLease o1 lease opn m =
     (case (opn, lease) of
        (UpdateOp, Some l) \<Rightarrow> AList.update o1 l m
      | (DeleteOp, _) \<Rightarrow> AList.delete o1 m
      | _ \<Rightarrow> m)"

definition applyDecision :: "string \<Rightarrow> leaseOwner \<Rightarrow> decision \<Rightarrow> Router \<Rightarrow> Router" where
  "applyDecision platformID o1 d r =
     (let st = ensurePlatformState platformID r in
      r\<lparr>ro_states := AList.update platformID
           \<lparr>ps_leases = computeLease o1 (d_lease d) (d_op d) (ps_leases st), ps_stats = d_stats d\<rparr> (ro_states r),
        ro_tombstones := d_tombstones d, ro_events := ro_events r @ d_events d\<rparr>)"

definition routeSticky ::
  "RouteEnv \<Rightarrow> Platform \<Rightarrow> string \<Rightarrow> string \<Rightarrow> string \<Rightarrow> rng \<Rightarrow> Router \<Rightarrow> ((route_error + RouteResult) \<times> rng) \<times> Router" where
  "routeSticky env plat userID account target rng r =
     (let st = ensurePlatformState (pl_ID plat) r;
          d = decideStickyLease env plat (ps_stats st) userID account target
                (map_of (ps_leases st) (owner userID account)) (ro_tombstones r) rng
      in ((d_result d, d_rng d), applyDecision (pl_ID plat) (owner userID account) d r))"

section \<open>Requests\<close>

definition resolvePlatform :: "RouterEnv \<Rightarrow> string \<Rightarrow> Platform option" where
  "resolvePlatform rt platName =
     (if platName = [] then rt_GetPlatform rt DefaultPlatformID else rt_GetPlatformByName rt platName)"

definition ResolvePlatformID :: "RouterEnv \<Rightarrow> string \<Rightarrow> string option" where
  "ResolvePlatformID rt platName = map_option pl_ID (resolvePlatform rt platName)"

definition withState :: "string \<Rightarrow> Router \<Rightarrow> Router" where
  "withState platformID r =
     (case map_of (ro_states r) platformID of
        Some _ \<Rightarrow> r
      | None \<Rightarrow> r\<lparr>ro_states := AList.update platformID NewPlatformRoutingState (ro_states r)\<rparr>)"

definition withPlatformContext :: "Platform \<Rightarrow> RouteResult \<Rightarrow> RouteResult" where
  "withPlatformContext plat res = res\<lparr>rr_PlatformID := pl_ID plat, rr_PlatformName := pl_Name plat\<rparr>"

definition finishResult :: "RouterEnv \<Rightarrow> Platform \<Rightarrow> RouteResult \<Rightarrow> RouteResult" where
  "finishResult rt plat res =
     (let res' = withPlatformContext plat res in
      case rt_nodeTag rt of None \<Rightarrow> res' | Some tag \<Rightarrow> res'\<lparr>rr_NodeTag := tag (rr_NodeHash res')\<rparr>)"

definition RouteRequest ::
  "RouterEnv \<Rightarrow> string \<Rightarrow> string \<Rightarrow> string \<Rightarrow> string \<Rightarrow> rng \<Rightarrow> Router \<Rightarrow> ((route_error + RouteResult) \<times> rng) \<times> Router" where
  "RouteRequest rt platName userID account target rng r =
     (case resolvePlatform rt platName of
        None \<Rightarrow> ((Inl PlatformNotFound, rng), r)
      | Some plat \<Rightarrow>
          let domain = rt_extractDomain rt target;
              ((res, rng'), r') =
                (if account = []
                 then (routeRandom (rt_env rt) plat (ps_stats (ensurePlatformState (pl_ID plat) r)) domain rng,
                       withState (pl_ID plat) r)
                 else routeSticky (rt_env rt) plat userID account domain rng r)
          in ((case res of Inl err \<Rightarrow> Inl err | Inr x \<Rightarrow> Inr (finishResult rt plat x), rng'), r'))"

section \<open>Lease administration\<close>

text \<open>A persisted lease row (\<open>model.Lease\<close>).\<close>

record ModelLease =
  ml_PlatformID :: string
  ml_UserID :: string
  ml_Account :: string
  ml_NodeHash :: string
  ml_EgressIP :: string
  ml_CreatedAtNs :: int
  ml_ExpiryNs :: int
  ml_LastAccessedNs :: int

definition ReadLease :: "(Addr \<Rightarrow> string) \<Rightarrow> string \<Rightarrow> string \<Rightarrow> string \<Rightarrow> Router \<Rightarrow> ModelLease option" where
  "ReadLease addrString platformID userID account r =
     (case map_of (ro_states r) platformID of
        None \<Rightarrow> None
      | Some st \<Rightarrow>
          map_option (\<lambda>l. \<lparr>ml_PlatformID = platformID, ml_UserID = userID, ml_Account = account,
              ml_NodeHash = Hex (l_NodeHash l), ml_EgressIP = addrString (l_EgressIP l),
              ml_CreatedAtNs = l_CreatedAtNs l, ml_ExpiryNs = l_ExpiryNs l, ml_LastAccessedNs = l_LastAccessedNs l\<rparr>)
            (GetLease st userID account))"

definition setState :: "string \<Rightarrow> PlatformRoutingState \<Rightarrow> Router \<Rightarrow> Router" where
  "setState platformID st r = r\<lparr>ro_states := AList.update platformID st (ro_states r)\<rparr>"

definition leaseOfRow :: "Hash \<Rightarrow> Addr \<Rightarrow> ModelLease \<Rightarrow> Lease" where
  "leaseOfRow h ip ml = \<lparr>l_NodeHash = h, l_EgressIP = ip, l_CreatedAtNs = ml_CreatedAtNs ml, l_ExpiryNs = ml_ExpiryNs ml,
     l_LastAccessedNs = ml_LastAccessedNs ml\<rparr>"

definition UpsertLease :: "(string \<Rightarrow> Addr option) \<Rightarrow> ModelLease \<Rightarrow> Router \<Rightarrow> (string + unit) \<times> Router" where
  "UpsertLease parseAddr ml r =
     (let platformID = TrimSpace (ml_PlatformID ml); account = TrimSpace (ml_Account ml); userID = TrimSpace (ml_UserID ml) in
      if platformID = [] then (Inl ''platform_id is required'', r)
      else if account = [] then (Inl ''account is required'', r)
      else case ParseHex (ml_NodeHash ml) of
        None \<Rightarrow> (Inl ''parse node_hash'', r)
      | Some h \<Rightarrow>
          (case parseAddr (ml_EgressIP ml) of
             None \<Rightarrow> (Inl ''parse egress_ip'', r)
           | Some ip \<Rightarrow>
               let st = ensurePlatformState platformID r;
                   ty = (case GetLease st userID account of Some _ \<Rightarrow> EvReplace | None \<Rightarrow> EvCreate)
               in (Inr (), emitLeaseEvent (leaseEvent ty platformID userID account h ip 0)
                     (setState platformID (CreateLease userID account (leaseOfRow h ip ml) st) r))))"

definition RestoreLease :: "(string \<Rightarrow> Addr option) \<Rightarrow> ModelLease \<Rightarrow> Router \<Rightarrow> Router" where
  "RestoreLease parseAddr ml r =
     (case ParseHex (ml_NodeHash ml) of
        None \<Rightarrow> r
      | Some h \<Rightarrow>
          (case parseAddr (ml_EgressIP ml) of
             None \<Rightarrow> r
           | Some ip \<Rightarrow>
               setState (ml_PlatformID ml)
                 (CreateLease (ml_UserID ml) (ml_Account ml) (leaseOfRow h ip ml)
                   (ensurePlatformState (ml_PlatformID ml) r)) r))"

definition RestoreLeases :: "(string \<Rightarrow> Addr option) \<Rightarrow> ModelLease list \<Rightarrow> Router \<Rightarrow> Router" where
  "RestoreLeases parseAddr rows r = fold (RestoreLease parseAddr) rows r"

definition SnapshotIPLoad :: "string \<Rightarrow> Router \<Rightarrow> (Addr, int) gomap" where
  "SnapshotIPLoad platformID r =
     (case map_of (ro_states r) platformID of None \<Rightarrow> [] | Some st \<Rightarrow> LoadSnapshot (ps_stats st))"

definition removeEvent :: "string \<Rightarrow> string \<Rightarrow> string \<Rightarrow> Lease \<Rightarrow> LeaseEvent" where
  "removeEvent platformID userID account l =
     leaseEvent EvRemove platformID userID account (l_NodeHash l) (l_EgressIP l) (l_CreatedAtNs l)"

definition DeleteRouterLease :: "string \<Rightarrow> string \<Rightarrow> string \<Rightarrow> Router \<Rightarrow> bool \<times> Router" where
  "DeleteRouterLease platformID userID account r =
     (case map_of (ro_states r) platformID of
        None \<Rightarrow> (False, r)
      | Some st \<Rightarrow>
          (case DeleteLease userID account st of
             (None, _) \<Rightarrow> (False, r)
           | (Some l, st') \<Rightarrow>
               (True, emitLeaseEvent (removeEvent platformID userID account l) (setState platformID st' r))))"

text \<open>\<open>DeleteLeaseIfOlderThan\<close> with the callback that records the tombstone of the removed address.\<close>

definition DeleteRouterLeaseIfOlderThan ::
  "string \<Rightarrow> string \<Rightarrow> string \<Rightarrow> int \<Rightarrow> (Lease \<Rightarrow> rotationTombstoneCache \<Rightarrow> rotationTombstoneCache) \<Rightarrow> Router
     \<Rightarrow> Lease option \<times> Router" where
  "DeleteRouterLeaseIfOlderThan platformID userID account createdBeforeOrAtNs onDelete r =
     (case map_of (ro_states r) platformID of
        None \<Rightarrow> (None, r)
      | Some st \<Rightarrow>
          (case DeleteLeaseIfOlderThan userID account createdBeforeOrAtNs st of
             (None, _) \<Rightarrow> (None, r)
           | (Some l, st') \<Rightarrow>
               (Some l, emitLeaseEvent (removeEvent platformID userID account l)
                  ((setState platformID st' r)\<lparr>ro_tombstones := onDelete l (ro_tombstones r)\<rparr>))))"

definition RotateLease :: "Platform \<Rightarrow> string \<Rightarrow> string \<Rightarrow> int \<Rightarrow> Router \<Rightarrow> bool \<times> Router" where
  "RotateLease plat userID account nowNs r =
     (if account = [] then (False, r)
      else case map_of (ro_states r) (pl_ID plat) of
        None \<Rightarrow> (False, r)
      | Some st \<Rightarrow>
          (case DeleteLease userID account st of
             (None, _) \<Rightarrow> (False, r)
           | (Some l, st') \<Rightarrow>
               (True, emitLeaseEvent (removeEvent (pl_ID plat) userID account l)
                  ((setState (pl_ID plat) st' r)\<lparr>ro_tombstones :=
                     recordRotationTombstone (pl_ID plat) userID account (l_EgressIP l) nowNs
                       (rotationTombstoneTTL (pl_ScheduledRotationIntervalNs plat) (pl_StickyTTLNs plat))
                       (ro_tombstones r)\<rparr>))))"

text \<open>
  The loop of \<open>DeleteAllLeases\<close> and \<open>PurgePlatformState\<close> over the owners that \<open>Range\<close> visits: the lease
  goes, its event is emitted with the account but without the user.
\<close>

fun drainLeases :: "string \<Rightarrow> leaseOwner list \<Rightarrow> PlatformRoutingState \<Rightarrow> nat \<times> LeaseEvent list \<times> PlatformRoutingState" where
  "drainLeases platformID [] st = (0, [], st)"
| "drainLeases platformID (o1 # os) st =
     (case DeleteLease (fst o1) (snd o1) st of
        (None, st') \<Rightarrow> drainLeases platformID os st'
      | (Some l, st') \<Rightarrow>
          let (n, evs, st'') = drainLeases platformID os st'
          in (n + 1, removeEvent platformID [] (snd o1) l # evs, st''))"

definition DeleteAllLeases :: "string \<Rightarrow> Router \<Rightarrow> nat \<times> Router" where
  "DeleteAllLeases platformID r =
     (case map_of (ro_states r) platformID of
        None \<Rightarrow> (0, r)
      | Some st \<Rightarrow>
          let (n, evs, st') = drainLeases platformID (map fst (ps_leases st)) st
          in (n, (setState platformID st' r)\<lparr>ro_events := ro_events r @ evs\<rparr>))"

definition PurgePlatformState :: "string \<Rightarrow> Router \<Rightarrow> nat \<times> Router" where
  "PurgePlatformState platformID r =
     (if platformID = [] then (0, r)
      else case map_of (ro_states r) platformID of
        None \<Rightarrow> (0, r)
      | Some st \<Rightarrow>
          let (n, evs, _) = drainLeases platformID (map fst (ps_leases st)) st
          in (n, r\<lparr>ro_states := AList.delete platformID (ro_states r), ro_events := ro_events r @ evs\<rparr>))"

section \<open>The invariant of the router\<close>

definition router_inv :: "Router \<Rightarrow> bool" where
  "router_inv r \<longleftrightarrow> gm_wf (ro_states r) \<and> tomb_inv (ro_tombstones r) \<and>
     (\<forall>p st. map_of (ro_states r) p = Some st \<longrightarrow> load_inv st)"

lemma router_inv_New [simp]: "router_inv NewRouter"
  by (simp add: router_inv_def NewRouter_def)

lemma router_inv_states: "router_inv r \<Longrightarrow> map_of (ro_states r) p = Some st \<Longrightarrow> load_inv st"
  by (simp add: router_inv_def)

lemma router_inv_tomb: "router_inv r \<Longrightarrow> tomb_inv (ro_tombstones r)"
  by (simp add: router_inv_def)

lemma load_inv_ensure: "router_inv r \<Longrightarrow> load_inv (ensurePlatformState p r)"
  by (auto simp: ensurePlatformState_def router_inv_def split: option.splits)

text \<open>Every operation stores one platform's state, drops one, or appends events.\<close>

lemma router_inv_set:
  "router_inv r \<Longrightarrow> load_inv st \<Longrightarrow> tomb_inv c \<Longrightarrow>
     router_inv (r\<lparr>ro_states := AList.update p st (ro_states r), ro_tombstones := c, ro_events := evs\<rparr>)"
  by (auto simp: router_inv_def gomap_simps)

lemma router_inv_drop:
  "router_inv r \<Longrightarrow> router_inv (r\<lparr>ro_states := AList.delete p (ro_states r)\<rparr>)"
  by (auto simp: router_inv_def gomap_simps split: if_splits)

lemma router_inv_setState: "router_inv r \<Longrightarrow> load_inv st \<Longrightarrow> router_inv (setState p st r)"
  by (auto simp: router_inv_def setState_def gomap_simps)

lemma router_inv_events [simp]: "router_inv (r\<lparr>ro_events := evs\<rparr>) = router_inv r"
  by (simp add: router_inv_def)

lemma router_inv_emit [simp]: "router_inv (emitLeaseEvent ev r) = router_inv r"
  by (simp add: emitLeaseEvent_def)

lemma router_inv_record: "router_inv r \<Longrightarrow> tomb_inv c \<Longrightarrow> router_inv (r\<lparr>ro_tombstones := c\<rparr>)"
  by (simp add: router_inv_def)

lemmas router_invI = router_inv_setState router_inv_record router_inv_tomb

lemma tomb_inv_avoid: "tomb_inv c \<Longrightarrow> tomb_inv (snd (rotationAvoidIP plat u a now c))"
  using lookup_parts(1) [of c "rotationTombstoneKey (pl_ID plat) u a" now]
  by (auto simp: rotationAvoidIP_def split: prod.splits option.splits)

lemma tomb_inv_record: "tomb_inv c \<Longrightarrow> tomb_inv (recordRotationTombstone p u a ip now ttl c)"
  by (simp add: recordRotationTombstone_def store_parts)

text \<open>The three outcomes of a decision.\<close>

definition decided :: "leaseOwner \<Rightarrow> PlatformRoutingState \<Rightarrow> decision \<Rightarrow> PlatformRoutingState" where
  "decided o1 st d = \<lparr>ps_leases = computeLease o1 (d_lease d) (d_op d) (ps_leases st), ps_stats = d_stats d\<rparr>"

lemma createLease_tomb:
  "tomb_inv c \<Longrightarrow> createLease env plat stats u a target c r = (res, c', r') \<Longrightarrow> tomb_inv c'"
  using tomb_inv_avoid [of c plat u a "en_now env"]
  by (auto simp: createLease_def Let_def split: prod.splits sum.splits)

lemma createOrAbort_cases:
  assumes d_def: "d = createOrAbortStickyLease env plat (ps_stats st) u a target (map_of (ps_leases st) o1) inval c r"
  shows "(\<exists>err. d_result d = Inl err \<and> decided o1 st d = (case map_of (ps_leases st) o1 of
        Some l \<Rightarrow> st\<lparr>ps_stats := Dec (l_EgressIP l) (ps_stats st), ps_leases := AList.delete o1 (ps_leases st)\<rparr>
      | None \<Rightarrow> st)) \<or>
    (\<exists>l res. d_result d = Inr res \<and> d_lease d = Some l \<and> d_op d = UpdateOp \<and>
       createLease env plat (ps_stats st) u a target c r = (Inr (l, res), d_tombstones d, d_rng d) \<and>
       decided o1 st d = st\<lparr>ps_stats := Inc (l_EgressIP l)
          (case map_of (ps_leases st) o1 of Some l' \<Rightarrow> Dec (l_EgressIP l') (ps_stats st) | None \<Rightarrow> ps_stats st),
        ps_leases := AList.update o1 l (ps_leases st)\<rparr>)"
proof -
  obtain res c' r' where cl: "createLease env plat (ps_stats st) u a target c r = (res, c', r')"
    by (metis prod_cases3)
  show ?thesis
  proof (cases res)
    case (Inl err)
    then show ?thesis
      using cl by (cases "map_of (ps_leases st) o1")
        (simp_all add: d_def createOrAbortStickyLease_def cleanupPreviousLease_def abortLeaseCreate_def decided_def
          computeLease_def Let_def)
  next
    case (Inr p)
    then show ?thesis
      using cl by (cases "map_of (ps_leases st) o1"; cases p)
        (simp_all add: d_def createOrAbortStickyLease_def cleanupPreviousLease_def decided_def computeLease_def Let_def)
  qed
qed

lemma createOrAbort_inv:
  assumes "load_inv st"
  shows "load_inv (decided o1 st (createOrAbortStickyLease env plat (ps_stats st) u a target (map_of (ps_leases st) o1) inval c r))"
  using createOrAbort_cases [OF refl, of env plat st u a target o1 inval c r]
proof (elim disjE exE conjE)
  fix err
  assume "decided o1 st (createOrAbortStickyLease env plat (ps_stats st) u a target (map_of (ps_leases st) o1) inval c r) =
    (case map_of (ps_leases st) o1 of
        Some l \<Rightarrow> st\<lparr>ps_stats := Dec (l_EgressIP l) (ps_stats st), ps_leases := AList.delete o1 (ps_leases st)\<rparr>
      | None \<Rightarrow> st)"
  then show ?thesis
    using assms load_inv_drop [OF assms] by (simp split: option.splits)
next
  fix l res
  assume "decided o1 st (createOrAbortStickyLease env plat (ps_stats st) u a target (map_of (ps_leases st) o1) inval c r) =
    st\<lparr>ps_stats := Inc (l_EgressIP l)
          (case map_of (ps_leases st) o1 of Some l' \<Rightarrow> Dec (l_EgressIP l') (ps_stats st) | None \<Rightarrow> ps_stats st),
        ps_leases := AList.update o1 l (ps_leases st)\<rparr>"
  then show ?thesis
    using load_inv_store [OF assms, of o1 l] by simp
qed

lemma createOrAbort_tomb:
  "tomb_inv c \<Longrightarrow> tomb_inv (d_tombstones (createOrAbortStickyLease env plat stats u a target prev inval c r))"
  using createLease_tomb [of c env plat stats u a target r]
  by (auto simp: createOrAbortStickyLease_def Let_def abortLeaseCreate_def split: prod.splits sum.splits)

text \<open>A decision keeps the lease with its address, or goes through \<open>createOrAbortStickyLease\<close>.\<close>

lemma decide_cases:
  assumes d_def: "d = decideStickyLease env plat (ps_stats st) u a target (map_of (ps_leases st) o1) c r"
  obtains
    (keep) l l' res ev where "map_of (ps_leases st) o1 = Some l" "\<not> IsExpired l (en_now env)"
      "d = keepLease (ps_stats st) c r (l', res, ev)" "l_EgressIP l' = l_EgressIP l"
      "l_CreatedAtNs l' = l_CreatedAtNs l \<and> l_ExpiryNs l' = l_ExpiryNs l"
      "rr_EgressIP res = l_EgressIP l" "rr_NodeHash res = l_NodeHash l'" "\<not> rr_LeaseCreated res"
      "l_NodeHash l' \<in> {h. hasEgress env (l_EgressIP l) h \<and> (Contains h (pl_view plat) \<or> h \<in> set (viewRange (pl_view plat)))}"
      "ev_PlatformID ev = pl_ID plat \<and> ev_UserID ev = u \<and> ev_Account ev = a \<and> ev_Type ev \<in> {EvTouch, EvReplace}"
  | (create) inval where
      "d = createOrAbortStickyLease env plat (ps_stats st) u a target (map_of (ps_leases st) o1) inval c r"
      "case map_of (ps_leases st) o1 of None \<Rightarrow> inval = InvalidationNone | Some l \<Rightarrow> inval \<noteq> InvalidationNone \<and>
         (IsExpired l (en_now env) \<or> chooseSameIPRotationCandidate env plat (l_EgressIP l) target = None \<and>
            tryLeaseHit env plat u a l = None)"
proof (cases "map_of (ps_leases st) o1")
  case None
  then show thesis
    using create [of InvalidationNone] d_def by (simp add: decideStickyLease_def)
next
  case (Some l)
  show thesis
  proof (cases "IsExpired l (en_now env)")
    case True
    then show thesis
      using create [of InvalidationExpire] d_def Some by (simp add: decideStickyLease_def)
  next
    case False
    consider (hit) l' res ev where "tryLeaseHit env plat u a l = Some (l', res, ev)"
      | (rot) l' res ev where "tryLeaseHit env plat u a l = None" "tryLeaseSameIPRotation env plat u a l target = Some (l', res, ev)"
      | (none) "tryLeaseHit env plat u a l = None" "tryLeaseSameIPRotation env plat u a l target = None"
      by (metis not_None_eq prod_cases3)
    then show thesis
    proof cases
      case hit
      then have "l' = l\<lparr>l_LastAccessedNs := en_now env\<rparr>" "res = stickyResult (l_NodeHash l) (l_EgressIP l) False []"
        "ev = leaseEvent EvTouch (pl_ID plat) u a (l_NodeHash l) (l_EgressIP l) 0"
        "hasEgress env (l_EgressIP l) (l_NodeHash l) \<and> Contains (l_NodeHash l) (pl_view plat)"
        by (auto simp: tryLeaseHit_def hasEgress_def split: option.splits if_splits)
      then show thesis
        using keep [OF Some False, of l' res ev] d_def Some False hit
        by (simp add: decideStickyLease_def stickyResult_def leaseEvent_def)
    next
      case rot
      then obtain h where h: "chooseSameIPRotationCandidate env plat (l_EgressIP l) target = Some h"
        "l' = l\<lparr>l_NodeHash := h, l_LastAccessedNs := en_now env\<rparr>" "res = stickyResult h (l_EgressIP l) False []"
        "ev = leaseEvent EvReplace (pl_ID plat) u a h (l_EgressIP l) 0"
        by (auto simp: tryLeaseSameIPRotation_def split: option.splits)
      then show thesis
        using keep [OF Some False, of l' res ev] d_def Some False rot chooseSameIP_spec [OF h(1)]
        by (simp add: decideStickyLease_def stickyResult_def leaseEvent_def)
    next
      case none
      then have "chooseSameIPRotationCandidate env plat (l_EgressIP l) target = None"
        by (auto simp: tryLeaseSameIPRotation_def split: option.splits)
      then show thesis
        using create [of InvalidationRemove] d_def Some False none by (simp add: decideStickyLease_def)
    qed
  qed
qed

lemma decide_inv:
  assumes "load_inv st" "tomb_inv c"
  shows "load_inv (decided o1 st (decideStickyLease env plat (ps_stats st) u a target (map_of (ps_leases st) o1) c r)) \<and>
    tomb_inv (d_tombstones (decideStickyLease env plat (ps_stats st) u a target (map_of (ps_leases st) o1) c r))"
proof -
  define d where "d = decideStickyLease env plat (ps_stats st) u a target (map_of (ps_leases st) o1) c r"
  have "load_inv (decided o1 st d) \<and> tomb_inv (d_tombstones d)"
    using d_def
  proof (cases rule: decide_cases)
    case (keep l l' res ev)
    have "decided o1 st d = st\<lparr>ps_leases := AList.update o1 l' (ps_leases st)\<rparr>"
      by (simp add: keep decided_def keepLease_def computeLease_def)
    then show ?thesis
      using load_inv_touch [OF assms(1) keep(1,4)] assms(2) by (simp add: keep keepLease_def)
  next
    case (create inval)
    then show ?thesis
      using createOrAbort_inv [OF assms(1)] createOrAbort_tomb [OF assms(2)] by simp
  qed
  then show ?thesis
    by (simp only: d_def)
qed

lemma routeSticky_state:
  "snd (routeSticky env plat u a target rng r) =
     (let st = ensurePlatformState (pl_ID plat) r;
          d = decideStickyLease env plat (ps_stats st) u a target (map_of (ps_leases st) (u, a)) (ro_tombstones r) rng
      in r\<lparr>ro_states := AList.update (pl_ID plat) (decided (u, a) st d) (ro_states r),
           ro_tombstones := d_tombstones d, ro_events := ro_events r @ d_events d\<rparr>)"
  by (simp add: routeSticky_def applyDecision_def decided_def owner_def Let_def)

lemma routeSticky_inv: "router_inv r \<Longrightarrow> router_inv (snd (routeSticky env plat u a target rng r))"
  unfolding routeSticky_state Let_def
  using decide_inv [OF load_inv_ensure router_inv_tomb] by (intro router_inv_set) auto

lemma withState_inv: "router_inv r \<Longrightarrow> router_inv (withState p r)"
  by (auto simp: withState_def router_inv_def gomap_simps split: option.splits)

lemma RouteRequest_inv: "router_inv r \<Longrightarrow> router_inv (snd (RouteRequest rt name u a target rng r))"
  using routeSticky_inv [of r "rt_env rt" _ u a "rt_extractDomain rt target" rng]
  by (auto simp: RouteRequest_def Let_def withState_inv split: option.splits prod.splits if_splits) (metis snd_conv)+

lemmas table_inv = load_inv_CreateLease load_inv_DeleteLease load_inv_DeleteLeaseIfOlderThan load_inv_ensure

lemma UpsertLease_inv: "router_inv r \<Longrightarrow> router_inv (snd (UpsertLease parseAddr ml r))"
  unfolding UpsertLease_def Let_def by (auto split: option.splits intro!: router_invI table_inv)

lemma RestoreLease_inv: "router_inv r \<Longrightarrow> router_inv (RestoreLease parseAddr ml r)"
  unfolding RestoreLease_def by (auto split: option.splits intro!: router_invI table_inv)

lemma RestoreLeases_inv: "router_inv r \<Longrightarrow> router_inv (RestoreLeases parseAddr rows r)"
  unfolding RestoreLeases_def by (induction rows arbitrary: r) (auto intro: RestoreLease_inv)

lemma DeleteLease_Some_inv: "load_inv st \<Longrightarrow> DeleteLease u a st = (res, st') \<Longrightarrow> load_inv st'"
  using load_inv_DeleteLease [of st u a] by simp

lemma DeleteOlder_Some_inv: "load_inv st \<Longrightarrow> DeleteLeaseIfOlderThan u a f st = (res, st') \<Longrightarrow> load_inv st'"
  using load_inv_DeleteLeaseIfOlderThan [of st u a f] by simp

lemma DeleteRouterLease_inv: "router_inv r \<Longrightarrow> router_inv (snd (DeleteRouterLease p u a r))"
  unfolding DeleteRouterLease_def
  by (auto split: option.splits prod.splits
      intro!: router_invI intro: DeleteLease_Some_inv router_inv_states)

lemma DeleteRouterLeaseIfOlderThan_inv:
  "router_inv r \<Longrightarrow> (\<And>l c. tomb_inv c \<Longrightarrow> tomb_inv (f l c)) \<Longrightarrow>
     router_inv (snd (DeleteRouterLeaseIfOlderThan p u a t f r))"
  unfolding DeleteRouterLeaseIfOlderThan_def
  by (auto split: option.splits prod.splits
      intro!: router_invI intro: DeleteOlder_Some_inv router_inv_states)

lemma RotateLease_inv: "router_inv r \<Longrightarrow> router_inv (snd (RotateLease plat u a now r))"
  unfolding RotateLease_def
  by (auto split: option.splits prod.splits
      intro!: router_invI tomb_inv_record intro: DeleteLease_Some_inv router_inv_states)

lemma drainLeases_inv: "load_inv st \<Longrightarrow> load_inv (snd (snd (drainLeases p os st)))"
proof (induction os arbitrary: st)
  case (Cons o1 os)
  then show ?case
    using DeleteLease_Some_inv [OF Cons.prems] by (auto simp: Let_def split: prod.splits option.splits) (metis snd_conv)+
qed simp

lemma DeleteAllLeases_inv: "router_inv r \<Longrightarrow> router_inv (snd (DeleteAllLeases p r))"
proof (cases "map_of (ro_states r) p")
  case (Some st)
  assume inv: "router_inv r"
  then have "load_inv (snd (snd (drainLeases p (map fst (ps_leases st)) st)))"
    using Some by (intro drainLeases_inv) (rule router_inv_states)
  then show ?thesis
    using Some inv by (simp add: DeleteAllLeases_def Let_def split_beta router_inv_setState)
qed (simp add: DeleteAllLeases_def)

lemma PurgePlatformState_inv: "router_inv r \<Longrightarrow> router_inv (snd (PurgePlatformState p r))"
  by (auto simp: PurgePlatformState_def Let_def router_inv_drop split: option.splits prod.splits)

section \<open>What a routed request gets\<close>

lemma selectLive_spec:
  assumes "view_inv (pl_view plat)"
  shows "selectLive env plat stats target avoidIP n fb miss r = (Inr (h, e, fb'), r') \<Longrightarrow>
    (fb \<Longrightarrow> IsValid avoidIP \<and> (\<forall>k\<in>set (viewRange (pl_view plat)). hasEgress env avoidIP k)) \<Longrightarrow>
    h \<in> set (viewRange (pl_view plat)) \<and> GetEntry env h = Some e \<and>
    (if fb' then IsValid avoidIP \<and> (\<forall>k\<in>set (viewRange (pl_view plat)). hasEgress env avoidIP k)
     else IsValid avoidIP \<longrightarrow> GetEgressIP e \<noteq> avoidIP)"
proof (induction n arbitrary: fb miss r)
  case (Suc n)
  obtain res r1 where rr: "randomRouteAvoiding env plat stats target avoidIP r = (res, r1)"
    by fastforce
  with Suc.prems obtain k f where res: "res = Some (k, f)"
    by (auto split: option.splits)
  have spec: "k \<in> set (viewRange (pl_view plat))"
    "f \<Longrightarrow> IsValid avoidIP \<and> (\<forall>k\<in>set (viewRange (pl_view plat)). hasEgress env avoidIP k)"
    "\<not> f \<Longrightarrow> IsValid avoidIP \<longrightarrow> \<not> hasEgress env avoidIP k"
    using randomRouteAvoiding_spec [OF assms rr] res by (auto split: if_splits)
  show ?case
  proof (cases "GetEntry env k")
    case None
    then have "selectLive env plat stats target avoidIP n (fb \<or> f) k r1 = (Inr (h, e, fb'), r')"
      using Suc.prems(1) rr res by simp
    then show ?thesis
      by (rule Suc.IH) (use Suc.prems(2) spec(2) in blast)
  next
    case (Some e1)
    then have "h = k" "e = e1" "fb' = (fb \<or> f)"
      using Suc.prems(1) rr res by auto
    then show ?thesis
      using Some spec Suc.prems(2) by (auto simp: hasEgress_def)
  qed
qed simp

lemma createLease_spec:
  assumes "view_inv (pl_view plat)" "createLease env plat stats u a target c r = (Inr (l, res), c', r')"
  shows "rr_NodeHash res = l_NodeHash l \<and> rr_EgressIP res = l_EgressIP l \<and> rr_LeaseCreated res \<and>
    l_NodeHash l \<in> set (viewRange (pl_view plat)) \<and> hasEgress env (l_EgressIP l) (l_NodeHash l) \<and>
    (let avoidIP = fst (rotationAvoidIP plat u a (en_now env) c) in
     if rr_Events res = [] then IsValid avoidIP \<longrightarrow> l_EgressIP l \<noteq> avoidIP
     else rr_Events res = [RouteEventRotationFallbackSameIP] \<and> IsValid avoidIP \<and>
       (\<forall>k\<in>set (viewRange (pl_view plat)). hasEgress env avoidIP k))"
proof -
  define avoidIP where "avoidIP = fst (rotationAvoidIP plat u a (en_now env) c)"
  obtain out r1 where out: "selectLiveRandomRoute env plat stats target avoidIP r = (out, r1)"
    by fastforce
  obtain h e fb where sel: "selectLiveRandomRoute env plat stats target avoidIP r = (Inr (h, e, fb), r1)"
    and l: "l_NodeHash l = h" "l_EgressIP l = GetEgressIP e"
    and res: "res = stickyResult h (GetEgressIP e) True (rotationFallbackEvents fb)"
    using assms(2) out
    by (cases out) (auto simp: createLease_def avoidIP_def [symmetric] split_beta Let_def)
  from selectLive_spec [OF assms(1) sel [unfolded selectLiveRandomRoute_def]]
  show ?thesis
    unfolding avoidIP_def [symmetric] using l res
    by (auto simp: stickyResult_def hasEgress_def rotationFallbackEvents_def split: if_splits)
qed

text \<open>The lease an owner has after a request that succeeded, and what the request returned.\<close>

lemma routeSticky_result:
  assumes view: "view_inv (pl_view plat)" and res: "fst (fst (routeSticky env plat u a target rng r)) = Inr res"
  shows "\<exists>l. map_of (ps_leases (ensurePlatformState (pl_ID plat) (snd (routeSticky env plat u a target rng r)))) (u, a) = Some l \<and>
    rr_NodeHash res = l_NodeHash l \<and> rr_EgressIP res = l_EgressIP l \<and>
    l_NodeHash l \<in> set (viewRange (pl_view plat)) \<and> hasEgress env (l_EgressIP l) (l_NodeHash l)"
proof -
  define st where "st = ensurePlatformState (pl_ID plat) r"
  define d where "d = decideStickyLease env plat (ps_stats st) u a target (map_of (ps_leases st) (u, a)) (ro_tombstones r) rng"
  have st': "ensurePlatformState (pl_ID plat) (snd (routeSticky env plat u a target rng r)) = decided (u, a) st d"
    unfolding routeSticky_state Let_def by (simp add: gomap_simps st_def d_def ensurePlatformState_def)
  have dres: "d_result d = Inr res"
    using res by (simp add: routeSticky_def d_def st_def owner_def Let_def)
  show ?thesis
    using d_def
  proof (cases rule: decide_cases)
    case (keep l l' res' ev)
    then have "res' = res" "decided (u, a) st d = st\<lparr>ps_leases := AList.update (u, a) l' (ps_leases st)\<rparr>"
      using dres by (simp_all add: keepLease_def decided_def computeLease_def)
    then show ?thesis
      using keep Contains_mem [OF view] by (simp add: st' gomap_simps)
  next
    case (create inval)
    from createOrAbort_cases [OF create(1)] obtain l where
      cl: "createLease env plat (ps_stats st) u a target (ro_tombstones r) rng = (Inr (l, res), d_tombstones d, d_rng d)"
      and dec: "map_of (ps_leases (decided (u, a) st d)) (u, a) = Some l"
      using dres by (auto simp: gomap_simps)
    then show ?thesis
      using createLease_spec [OF view cl] by (simp add: st')
  qed
qed

lemma RouteRequest_sticky:
  "resolvePlatform rt name = Some plat \<Longrightarrow> a \<noteq> [] \<Longrightarrow>
     fst (fst (RouteRequest rt name u a target rng r)) =
       (case fst (fst (routeSticky (rt_env rt) plat u a (rt_extractDomain rt target) rng r)) of
          Inl err \<Rightarrow> Inl err | Inr x \<Rightarrow> Inr (finishResult rt plat x)) \<and>
     snd (RouteRequest rt name u a target rng r) = snd (routeSticky (rt_env rt) plat u a (rt_extractDomain rt target) rng r)"
  by (simp add: RouteRequest_def Let_def split: prod.splits)

lemma finishResult_sel [simp]:
  "rr_NodeHash (finishResult rt plat x) = rr_NodeHash x" "rr_EgressIP (finishResult rt plat x) = rr_EgressIP x"
  "rr_Events (finishResult rt plat x) = rr_Events x" "rr_PlatformID (finishResult rt plat x) = pl_ID plat"
  "rr_LeaseCreated (finishResult rt plat x) = rr_LeaseCreated x"
  by (simp_all add: finishResult_def withPlatformContext_def Let_def split: option.splits)

text \<open>
  C3. A routed request gets a node it can use: whichever platform, tenant, account and random draws, the
  node returned is in the platform's routable view and in the pool, and the egress address returned is
  that node's current one.
\<close>
theorem RouteRequest_live:
  assumes "resolvePlatform rt name = Some plat" "view_inv (pl_view plat)"
    and "fst (fst (RouteRequest rt name u a target rng r)) = Inr res"
  shows "rr_PlatformID res = pl_ID plat \<and> rr_NodeHash res \<in> set (viewRange (pl_view plat)) \<and>
    (\<exists>e. GetEntry (rt_env rt) (rr_NodeHash res) = Some e \<and> GetEgressIP e = rr_EgressIP res)"
proof (cases "a = []")
  case False
  then obtain x where x: "fst (fst (routeSticky (rt_env rt) plat u a (rt_extractDomain rt target) rng r)) = Inr x"
    "res = finishResult rt plat x"
    using assms(3) RouteRequest_sticky [OF assms(1), of a u target rng r] by (auto split: sum.splits)
  from routeSticky_result [OF assms(2) x(1)] show ?thesis
    using x(2) by (auto simp: hasEgress_def split: option.splits)
next
  case True
  obtain out r1 where sel: "selectLiveRandomRoute (rt_env rt) plat (ps_stats (ensurePlatformState (pl_ID plat) r))
      (rt_extractDomain rt target) ZeroAddr rng = (out, r1)"
    by fastforce
  with True assms(1,3) obtain h e fb where out: "out = Inr (h, e, fb)"
    "res = finishResult rt plat (stickyResult h (GetEgressIP e) False (rotationFallbackEvents fb))"
    by (cases out) (auto simp: RouteRequest_def routeRandom_def Let_def)
  from selectLive_spec [OF assms(2) sel [unfolded selectLiveRandomRoute_def out]] show ?thesis
    using out(2) by (simp add: stickyResult_def)
qed

text \<open>Availability: when the nodes of the view are in the pool, a request never fails.\<close>

lemma selectLive_available:
  assumes "view_inv (pl_view plat)" "viewRange (pl_view plat) \<noteq> []"
    "\<And>h. h \<in> set (viewRange (pl_view plat)) \<Longrightarrow> GetEntry env h \<noteq> None"
  shows "\<exists>h e fb r'. selectLiveRandomRoute env plat stats target avoidIP r = (Inr (h, e, fb), r')"
proof -
  obtain res r1 where rr: "randomRouteAvoiding env plat stats target avoidIP r = (res, r1)"
    by fastforce
  then obtain h fb where res: "res = Some (h, fb)" "h \<in> set (viewRange (pl_view plat))"
    using randomRouteAvoiding_spec [OF assms(1) rr] assms(2) by (auto split: option.splits)
  then obtain e where "GetEntry env h = Some e"
    using assms(3) by blast
  then show ?thesis
    using rr res by (simp add: selectLiveRandomRoute_def livePickAttempts_def numeral_2_eq_2)
qed

lemma routeSticky_available:
  assumes "view_inv (pl_view plat)" "viewRange (pl_view plat) \<noteq> []"
    "\<And>h. h \<in> set (viewRange (pl_view plat)) \<Longrightarrow> GetEntry env h \<noteq> None"
  shows "\<exists>res. fst (fst (routeSticky env plat u a target rng r)) = Inr res"
proof -
  define st where "st = ensurePlatformState (pl_ID plat) r"
  define d where "d = decideStickyLease env plat (ps_stats st) u a target (map_of (ps_leases st) (u, a)) (ro_tombstones r) rng"
  have "\<exists>res. d_result d = Inr res"
    using d_def
  proof (cases rule: decide_cases)
    case (keep l l' res ev)
    then show ?thesis
      by (simp add: keepLease_def)
  next
    case (create inval)
    have "\<exists>l res c' r'. createLease env plat (ps_stats st) u a target (ro_tombstones r) rng = (Inr (l, res), c', r')"
      using selectLive_available [OF assms, of "ps_stats st" target "fst (rotationAvoidIP plat u a (en_now env) (ro_tombstones r))" rng]
      by (auto simp: createLease_def split_beta Let_def)
    then show ?thesis
      using create(1) by (auto simp: createOrAbortStickyLease_def Let_def split_beta)
  qed
  then show ?thesis
    by (simp add: routeSticky_def d_def st_def owner_def Let_def)
qed

text \<open>
  C17. Routing does not fail while there is something to route to: if the platform exists, its view is not
  empty and every node of the view is in the pool, then every request is given a node, sticky or not,
  rotated or not, whatever the random draws.
\<close>
theorem RouteRequest_available:
  assumes "resolvePlatform rt name = Some plat" "view_inv (pl_view plat)" "viewRange (pl_view plat) \<noteq> []"
    and "\<And>h. h \<in> set (viewRange (pl_view plat)) \<Longrightarrow> GetEntry (rt_env rt) h \<noteq> None"
  shows "\<exists>res. fst (fst (RouteRequest rt name u a target rng r)) = Inr res"
proof (cases "a = []")
  case False
  then show ?thesis
    using routeSticky_available [OF assms(2-4), of u a "rt_extractDomain rt target" rng r]
      RouteRequest_sticky [OF assms(1) False, of u target rng r] by auto
next
  case True
  then show ?thesis
    using assms(1) selectLive_available [OF assms(2-4), of "ps_stats (ensurePlatformState (pl_ID plat) r)"
        "rt_extractDomain rt target" ZeroAddr rng]
    by (auto simp: RouteRequest_def routeRandom_def Let_def)
qed

section \<open>Tenants and stickiness\<close>

definition leaseAt :: "Router \<Rightarrow> string \<Rightarrow> leaseOwner \<Rightarrow> Lease option" where
  "leaseAt r p o1 = (case map_of (ro_states r) p of None \<Rightarrow> None | Some st \<Rightarrow> map_of (ps_leases st) o1)"

lemma leaseAt_ensure: "leaseAt r p o1 = map_of (ps_leases (ensurePlatformState p r)) o1"
  by (simp add: leaseAt_def ensurePlatformState_def NewPlatformRoutingState_def split: option.splits)

lemma leaseAt_set [simp]:
  "leaseAt (r\<lparr>ro_states := AList.update p st (ro_states r)\<rparr>) p' o1 =
     (if p' = p then map_of (ps_leases st) o1 else leaseAt r p' o1)"
  by (simp add: leaseAt_def gomap_simps)

lemma leaseAt_setState [simp]:
  "leaseAt (setState p st r) p' o1 = (if p' = p then map_of (ps_leases st) o1 else leaseAt r p' o1)"
  by (simp add: leaseAt_def setState_def gomap_simps)

lemma leaseAt_simps [simp]:
  "leaseAt (emitLeaseEvent ev r) = leaseAt r" "leaseAt (r\<lparr>ro_events := evs\<rparr>) = leaseAt r"
  "leaseAt (r\<lparr>ro_tombstones := c\<rparr>) = leaseAt r"
  by (simp_all add: leaseAt_def emitLeaseEvent_def fun_eq_iff)

lemma leaseAt_withState [simp]: "leaseAt (withState p r) = leaseAt r"
  by (auto simp: leaseAt_def withState_def gomap_simps NewPlatformRoutingState_def fun_eq_iff split: option.splits)

lemma decided_other: "o2 \<noteq> o1 \<Longrightarrow> map_of (ps_leases (decided o1 st d)) o2 = map_of (ps_leases st) o2"
  by (simp add: decided_def computeLease_def gomap_simps split: ComputeOp.splits option.splits)

text \<open>
  C20. Tenants do not touch each other's leases: a request of one user for one account on one platform
  leaves the lease of every other user, every other account and every other platform as it was, even when
  two users call their account the same.
\<close>
theorem RouteRequest_isolates_owners:
  assumes "resolvePlatform rt name = Some plat" "(p, o2) \<noteq> (pl_ID plat, (u, a))"
  shows "leaseAt (snd (RouteRequest rt name u a target rng r)) p o2 = leaseAt r p o2"
proof (cases "a = []")
  case False
  have "leaseAt (snd (routeSticky (rt_env rt) plat u a (rt_extractDomain rt target) rng r)) p o2 = leaseAt r p o2"
    using assms(2) by (auto simp: routeSticky_state Let_def decided_other leaseAt_ensure [of r "pl_ID plat"])
  then show ?thesis
    using RouteRequest_sticky [OF assms(1) False, of u target rng r] by simp
next
  case True
  then show ?thesis
    using assms(1) by (simp add: RouteRequest_def Let_def split: prod.splits)
qed

text \<open>
  C21. A sticky lease keeps its address. While an owner's lease has not expired and some node of the
  platform's view still leaves through the lease's egress address, a request of that owner is routed
  through that very address, no new lease is created, and the lease keeps its creation and expiry times.
\<close>
theorem sticky_lease_keeps_egress_ip:
  assumes "resolvePlatform rt name = Some plat" "view_inv (pl_view plat)" "a \<noteq> []"
    and "leaseAt r (pl_ID plat) (u, a) = Some l" "\<not> IsExpired l (en_now (rt_env rt))"
    and "h \<in> set (viewRange (pl_view plat))" "hasEgress (rt_env rt) (l_EgressIP l) h" "h \<noteq> Zero"
  shows "\<exists>res l'. fst (fst (RouteRequest rt name u a target rng r)) = Inr res \<and>
    rr_EgressIP res = l_EgressIP l \<and> \<not> rr_LeaseCreated res \<and>
    leaseAt (snd (RouteRequest rt name u a target rng r)) (pl_ID plat) (u, a) = Some l' \<and>
    l_EgressIP l' = l_EgressIP l \<and> l_CreatedAtNs l' = l_CreatedAtNs l \<and> l_ExpiryNs l' = l_ExpiryNs l"
proof -
  let ?env = "rt_env rt" and ?target = "rt_extractDomain rt target"
  define st where "st = ensurePlatformState (pl_ID plat) r"
  define d where "d = decideStickyLease ?env plat (ps_stats st) u a ?target (map_of (ps_leases st) (u, a)) (ro_tombstones r) rng"
  have l: "map_of (ps_leases st) (u, a) = Some l"
    using assms(4) by (simp add: leaseAt_ensure st_def)
  have res: "fst (fst (routeSticky ?env plat u a ?target rng r)) = d_result d"
    and lease: "leaseAt (snd (routeSticky ?env plat u a ?target rng r)) (pl_ID plat) (u, a) = map_of (ps_leases (decided (u, a) st d)) (u, a)"
    by (simp_all add: routeSticky_state Let_def d_def st_def) (simp add: routeSticky_def owner_def Let_def)
  have "\<exists>x l'. d_result d = Inr x \<and> rr_EgressIP x = l_EgressIP l \<and> \<not> rr_LeaseCreated x \<and>
      map_of (ps_leases (decided (u, a) st d)) (u, a) = Some l' \<and>
      l_EgressIP l' = l_EgressIP l \<and> l_CreatedAtNs l' = l_CreatedAtNs l \<and> l_ExpiryNs l' = l_ExpiryNs l"
    using d_def
  proof (cases rule: decide_cases)
    case (keep l0 l' x ev)
    then show ?thesis
      using l by (simp add: keepLease_def decided_def computeLease_def gomap_simps)
  next
    case (create inval)
    then have "chooseSameIPRotationCandidate ?env plat (l_EgressIP l) ?target = None"
      using l assms(5) by simp
    from chooseSameIP_None [OF this] show ?thesis
      using assms(6-8) by blast
  qed
  then show ?thesis
    using RouteRequest_sticky [OF assms(1,3), of u target rng r] res lease by auto
qed

text \<open>What \<open>RotateLease\<close> leaves for the next lease of the owner.\<close>

lemma RotateLease_spec:
  assumes inv: "router_inv r" and l: "leaseAt r (pl_ID plat) (u, a) = Some l" and a: "a \<noteq> []" and ip: "IsValid (l_EgressIP l)"
    and ttl: "0 < rotationTombstoneTTL (pl_ScheduledRotationIntervalNs plat) (pl_StickyTTLNs plat)"
  shows "fst (RotateLease plat u a now r) \<and> leaseAt (snd (RotateLease plat u a now r)) (pl_ID plat) (u, a) = None \<and>
    ro_tombstones (snd (RotateLease plat u a now r)) =
      storeTombstone (rotationTombstoneKey (pl_ID plat) u a) (l_EgressIP l)
        (wrap64 (now + rotationTombstoneTTL (pl_ScheduledRotationIntervalNs plat) (pl_StickyTTLNs plat))) (ro_tombstones r)"
proof -
  obtain st where st: "map_of (ro_states r) (pl_ID plat) = Some st" "map_of (ps_leases st) (u, a) = Some l"
    using l by (auto simp: leaseAt_def split: option.splits)
  then obtain st' where del: "DeleteLease u a st = (Some l, st')"
    by (simp add: DeleteLease_def owner_def)
  then have "map_of (ps_leases st') (u, a) = None"
    using leases_DeleteLease [of u a st] by (simp add: gomap_simps)
  then show ?thesis
    using a ip ttl st(1) del by (simp add: RotateLease_def recordRotationTombstone_def) (simp add: emitLeaseEvent_def)
qed


section \<open>A small deployment\<close>

text \<open>One platform with two nodes behind different addresses.\<close>

definition exampleHash2 :: Hash where
  "exampleHash2 = ''fedcba9876543210''"

definition exampleView :: RoutableView where
  "exampleView = Add exampleHash2 (Add exampleHash NewRoutableView)"

definition exampleEnv :: "int \<Rightarrow> RouteEnv" where
  "exampleEnv now =
     \<lparr>en_nodes = [(exampleHash, exampleEntry (IPv4 1)), (exampleHash2, exampleEntry (IPv4 2))], en_authorities = [],
      en_window = 100, en_now = now, en_domainKey = length\<rparr>"

definition exampleRt :: "int \<Rightarrow> RouterEnv" where
  "exampleRt now =
     \<lparr>rt_env = exampleEnv now, rt_GetPlatform = (\<lambda>_. None),
      rt_GetPlatformByName = (\<lambda>n. if n = ''P'' then Some (examplePlatform exampleView) else None),
      rt_extractDomain = (\<lambda>t. t), rt_nodeTag = None\<rparr>"

definition exampleLease :: Lease where
  "exampleLease = \<lparr>l_NodeHash = exampleHash, l_EgressIP = IPv4 1, l_CreatedAtNs = 0, l_ExpiryNs = 1000, l_LastAccessedNs = 0\<rparr>"

definition exampleRouter :: Router where
  "exampleRouter =
     \<lparr>ro_states = [(''p'', CreateLease ''u'' ''acc'' exampleLease NewPlatformRoutingState)],
      ro_tombstones = newRotationTombstoneCache 4, ro_events = []\<rparr>"

lemma exampleView_inv: "view_inv exampleView"
  by (simp add: exampleView_def Add_inv)

lemma exampleRouter_inv: "router_inv exampleRouter"
  by (simp add: exampleRouter_def router_inv_def load_inv_CreateLease)

definition exampleResult :: "Hash \<Rightarrow> Addr \<Rightarrow> bool \<Rightarrow> RouteResult" where
  "exampleResult h ip created =
     \<lparr>rr_PlatformID = ''p'', rr_PlatformName = ''P'', rr_NodeHash = h, rr_EgressIP = ip, rr_NodeTag = [],
      rr_LeaseCreated = created, rr_Events = []\<rparr>"

lemma example_resolve: "resolvePlatform (exampleRt now) ''P'' = Some (examplePlatform exampleView)"
  by (simp add: resolvePlatform_def exampleRt_def)

lemma example_view: "pl_view (examplePlatform exampleView) = exampleView" "pl_ID (examplePlatform exampleView) = ''p''"
  "pl_RotationAvoidPreviousIP (examplePlatform exampleView)"
  by (simp_all add: examplePlatform_def)

lemma example_range: "set (viewRange exampleView) = {exampleHash, exampleHash2}"
  by (auto simp: exampleView_def set_Add Add_inv viewRange_New)

theorem RouteRequest_live_witness:
  "fst (fst (RouteRequest (exampleRt 5) ''P'' ''v'' ''acc'' ''t'' (\<lambda>_. 0) exampleRouter)) =
     Inr (exampleResult exampleHash2 (IPv4 2) True) \<and> exampleHash2 \<in> set (viewRange exampleView)"
proof -
  have res: "fst (fst (RouteRequest (exampleRt 5) ''P'' ''v'' ''acc'' ''t'' (\<lambda>_. 0) exampleRouter)) =
     Inr (exampleResult exampleHash2 (IPv4 2) True)"
    by code_simp
  then show ?thesis
    using RouteRequest_live [OF example_resolve _ res] exampleView_inv by (simp add: example_view exampleResult_def)
qed

theorem RouteRequest_available_witness:
  "viewRange exampleView \<noteq> [] \<and> (\<exists>res. fst (fst (RouteRequest (exampleRt 5) ''P'' ''v'' [] ''t'' (\<lambda>_. 7) NewRouter)) = Inr res)"
proof -
  have "viewRange exampleView \<noteq> []"
    using example_range by (metis empty_iff insertI1 list.set(1))
  moreover have "GetEntry (rt_env (exampleRt 5)) h \<noteq> None" if "h \<in> set (viewRange exampleView)" for h
    using that by (auto simp: example_range exampleRt_def exampleEnv_def GetEntry_def)
  ultimately show ?thesis
    using RouteRequest_available [OF example_resolve, of 5 "''v''" "[]" "''t''" "\<lambda>_. 7" NewRouter] exampleView_inv
    by (simp only: example_view) blast
qed

theorem RouteRequest_isolates_owners_witness:
  "leaseAt (snd (RouteRequest (exampleRt 5) ''P'' ''v'' ''acc'' ''t'' (\<lambda>_. 0) exampleRouter)) ''p'' (''u'', ''acc'') = Some exampleLease \<and>
   leaseAt (snd (RouteRequest (exampleRt 5) ''P'' ''v'' ''acc'' ''t'' (\<lambda>_. 0) exampleRouter)) ''p'' (''v'', ''acc'') \<noteq> None"
proof -
  have "leaseAt exampleRouter ''p'' (''u'', ''acc'') = Some exampleLease"
    by code_simp
  moreover have "leaseAt (snd (RouteRequest (exampleRt 5) ''P'' ''v'' ''acc'' ''t'' (\<lambda>_. 0) exampleRouter)) ''p'' (''v'', ''acc'') \<noteq> None"
    by code_simp
  ultimately show ?thesis
    using RouteRequest_isolates_owners [OF example_resolve, of "''p''" "(''u'', ''acc'')" "''v''" "''acc''" 5 "''t''" "\<lambda>_. 0" exampleRouter]
    by simp
qed

theorem sticky_lease_keeps_egress_ip_witness:
  "\<exists>res l'. fst (fst (RouteRequest (exampleRt 5) ''P'' ''u'' ''acc'' ''t'' (\<lambda>_. 0) exampleRouter)) = Inr res \<and>
     rr_EgressIP res = IPv4 1 \<and> leaseAt (snd (RouteRequest (exampleRt 5) ''P'' ''u'' ''acc'' ''t'' (\<lambda>_. 0) exampleRouter)) ''p'' (''u'', ''acc'') = Some l' \<and>
     l_ExpiryNs l' = 1000"
proof -
  have "leaseAt exampleRouter ''p'' (''u'', ''acc'') = Some exampleLease" "\<not> IsExpired exampleLease (en_now (rt_env (exampleRt 5)))"
    "hasEgress (rt_env (exampleRt 5)) (l_EgressIP exampleLease) exampleHash" "exampleHash \<noteq> Zero"
    by code_simp+
  then show ?thesis
    using sticky_lease_keeps_egress_ip [OF example_resolve, of "''acc''" exampleRouter "''u''" exampleLease 5 exampleHash "''t''" "\<lambda>_. 0"]
      exampleView_inv example_range unfolding example_view by (auto simp: exampleLease_def)
qed


end
