(* ===== verification/Lease_Maintenance.thy ===== *)
theory Lease_Maintenance
  imports Router
begin

text \<open>
  The background work on leases (\<open>internal/routing/lease_cleaner.go\<close>, \<open>scheduled_rotator.go\<close>) and the runs of
  the whole router: requests, administration, sweeps and rotations in any order.

  A sweep visits the leases it finds in the table and decides about each inside \<open>Compute\<close>; these
  decisions are the steps \<open>expireOne\<close> and \<open>rotateOne\<close>, which also occur alone in a run, between steps of
  other callers. The stop signal and the worker pool of the code only choose which steps happen.

  The theory shows: in every run the load of an address is the number of leases on it; every
  operation but two announces each lease it changes under its owner; a sweep removes exactly the
  expired leases and a rotation exactly those that are old enough.
\<close>

section \<open>The cleaner\<close>

definition expireOne :: "string \<Rightarrow> int \<Rightarrow> leaseOwner \<Rightarrow> Router \<Rightarrow> Router" where
  "expireOne platID nowNs o1 r =
     (case map_of (ro_states r) platID of
        None \<Rightarrow> r
      | Some st \<Rightarrow>
          (case map_of (ps_leases st) o1 of
             None \<Rightarrow> r
           | Some current \<Rightarrow>
               if l_ExpiryNs current < nowNs
               then emitLeaseEvent
                 (leaseEvent EvExpire platID (fst o1) (snd o1) (l_NodeHash current) (l_EgressIP current) (l_CreatedAtNs current))
                 (setState platID (st\<lparr>ps_stats := Dec (l_EgressIP current) (ps_stats st),
                     ps_leases := AList.delete o1 (ps_leases st)\<rparr>) r)
               else r))"

definition sweepPlatformState :: "int \<Rightarrow> string \<Rightarrow> Router \<Rightarrow> Router" where
  "sweepPlatformState nowNs platID r =
     fold (\<lambda>(o1, l). if l_ExpiryNs l < nowNs then expireOne platID nowNs o1 else (\<lambda>r. r))
       (ps_leases (ensurePlatformState platID r)) r"

definition sweepLeases :: "int \<Rightarrow> Router \<Rightarrow> Router" where
  "sweepLeases nowNs r = fold (sweepPlatformState nowNs) (map fst (ro_states r)) r"

section \<open>The rotator\<close>

definition rotateOne :: "string \<Rightarrow> int \<Rightarrow> int \<Rightarrow> int \<Rightarrow> leaseOwner \<Rightarrow> Router \<Rightarrow> Router" where
  "rotateOne platID floorNs tombstoneTTL nowNs o1 r =
     snd (DeleteRouterLeaseIfOlderThan platID (fst o1) (snd o1) floorNs
       (\<lambda>removed. recordRotationTombstone platID (fst o1) (snd o1) (l_EgressIP removed) nowNs tombstoneTTL) r)"

definition rotatePlatformLeases :: "string \<Rightarrow> int \<Rightarrow> int \<Rightarrow> int \<Rightarrow> Router \<Rightarrow> Router" where
  "rotatePlatformLeases platID interval stickyTTLNs nowNs r =
     (let candidates = map fst (filter (\<lambda>(o1, l). wrap64 (nowNs - l_CreatedAtNs l) \<ge> interval)
            (ps_leases (ensurePlatformState platID r)));
          floorNs = wrap64 (nowNs - interval)
      in fold (rotateOne platID floorNs (rotationTombstoneTTL interval stickyTTLNs) nowNs) candidates r)"

definition rotateSweep :: "Platform list \<Rightarrow> int \<Rightarrow> Router \<Rightarrow> Router" where
  "rotateSweep plats nowNs r =
     (let infos = filter (\<lambda>p. pl_ScheduledRotationEnabled p \<and> pl_ScheduledRotationIntervalNs p > 0 \<and>
            map_of (ro_states r) (pl_ID p) \<noteq> None) plats
      in fold (\<lambda>p. rotatePlatformLeases (pl_ID p) (pl_ScheduledRotationIntervalNs p) (pl_StickyTTLNs p) nowNs) infos r)"

section \<open>Runs of the router\<close>

datatype router_op =
    OpRoute RouterEnv string string string string rng
  | OpUpsert "string \<Rightarrow> Addr option" ModelLease
  | OpRestore "string \<Rightarrow> Addr option" "ModelLease list"
  | OpDelete string string string
  | OpRotate Platform string string int
  | OpExpire string int leaseOwner
  | OpSweep int
  | OpRotateOne string int int int leaseOwner
  | OpRotateSweep "Platform list" int
  | OpDeleteAll string
  | OpPurge string
  | OpTombstone string string string int

fun router_step :: "router_op \<Rightarrow> Router \<Rightarrow> Router" where
  "router_step (OpRoute rt name u a target rng) r = snd (RouteRequest rt name u a target rng r)"
| "router_step (OpUpsert parseAddr ml) r = snd (UpsertLease parseAddr ml r)"
| "router_step (OpRestore parseAddr rows) r = RestoreLeases parseAddr rows r"
| "router_step (OpDelete p u a) r = snd (DeleteRouterLease p u a r)"
| "router_step (OpRotate plat u a now) r = snd (RotateLease plat u a now r)"
| "router_step (OpExpire p now o1) r = expireOne p now o1 r"
| "router_step (OpSweep now) r = sweepLeases now r"
| "router_step (OpRotateOne p floorNs ttl now o1) r = rotateOne p floorNs ttl now o1 r"
| "router_step (OpRotateSweep plats now) r = rotateSweep plats now r"
| "router_step (OpDeleteAll p) r = snd (DeleteAllLeases p r)"
| "router_step (OpPurge p) r = snd (PurgePlatformState p r)"
| "router_step (OpTombstone p u a now) r = snd (RotationTombstone p u a now r)"

lemma expireOne_inv: "router_inv r \<Longrightarrow> router_inv (expireOne p now o1 r)"
  by (auto simp: expireOne_def split: option.splits intro!: router_invI intro: load_inv_drop router_inv_states)

lemma rotateOne_inv: "router_inv r \<Longrightarrow> router_inv (rotateOne p floorNs ttl now o1 r)"
  unfolding rotateOne_def by (rule DeleteRouterLeaseIfOlderThan_inv) (auto intro: tomb_inv_record)

lemma fold_inv: "(\<And>x s. x \<in> set xs \<Longrightarrow> P s \<Longrightarrow> P (f x s)) \<Longrightarrow> P s \<Longrightarrow> P (fold f xs s)"
  by (induction xs arbitrary: s) auto

lemma sweepPlatformState_inv: "router_inv r \<Longrightarrow> router_inv (sweepPlatformState now p r)"
  unfolding sweepPlatformState_def by (rule fold_inv) (auto intro: expireOne_inv)

lemma rotatePlatformLeases_inv: "router_inv r \<Longrightarrow> router_inv (rotatePlatformLeases p interval ttl now r)"
  unfolding rotatePlatformLeases_def Let_def by (rule fold_inv) (auto intro: rotateOne_inv)

lemma RotationTombstone_inv: "router_inv r \<Longrightarrow> router_inv (snd (RotationTombstone p u a now r))"
  using lookup_parts(1) [OF router_inv_tomb, of r]
  by (auto simp: RotationTombstone_def Let_def split_beta intro: router_inv_record)

interpretation router_machine: state_machine router_step router_inv
proof (unfold_locales, goal_cases)
  case (1 r op)
  then show ?case
    by (cases op)
      (simp_all add: RouteRequest_inv UpsertLease_inv RestoreLeases_inv DeleteRouterLease_inv RotateLease_inv expireOne_inv
        rotateOne_inv DeleteAllLeases_inv PurgePlatformState_inv RotationTombstone_inv sweepLeases_def rotateSweep_def
        Let_def fold_inv sweepPlatformState_inv rotatePlatformLeases_inv)
qed

section \<open>Load\<close>

lemma leasesOn_card:
  assumes "gm_wf m"
  shows "leasesOn ip m = int (card {o1. \<exists>l. map_of m o1 = Some l \<and> l_EgressIP l = ip})"
proof -
  have "leasesOn ip m = (\<Sum>k\<in>gm_keys m. if l_EgressIP (the (map_of m k)) = ip then 1 else 0)"
    unfolding leasesOn_def by (rule gm_sum_set [OF assms])
  also have "\<dots> = int (card {k \<in> gm_keys m. l_EgressIP (the (map_of m k)) = ip})"
    by (subst sum.inter_filter [symmetric]) simp_all
  also have "{k \<in> gm_keys m. l_EgressIP (the (map_of m k)) = ip} = {o1. \<exists>l. map_of m o1 = Some l \<and> l_EgressIP l = ip}"
    using map_of_eq_None_iff [of m] by (auto simp: dom_map_of_conv_image_fst [symmetric] dom_def)
  finally show ?thesis .
qed

text \<open>
  C15. The load the router balances by is real: after any sequence of requests, administrative changes,
  sweeps and rotations of any tenants, the load reported for an address of a platform is the number of
  leases of that platform that use the address, and no address without leases is reported.
\<close>
theorem load_matches_leases:
  "let r = fold router_step ops NewRouter; m = SnapshotIPLoad p r;
       n = (if IsValid ip then card {o1. \<exists>l. leaseAt r p o1 = Some l \<and> l_EgressIP l = ip} else 0)
   in map_of m ip = (if n = 0 then None else Some (int n))"
proof -
  let ?r = "fold router_step ops NewRouter"
  have inv: "router_inv ?r"
    by (rule router_machine.inv_run) simp
  show ?thesis
  proof (cases "map_of (ro_states ?r) p")
    case None
    then show ?thesis
      by (simp add: SnapshotIPLoad_def leaseAt_def)
  next
    case (Some st)
    then have st: "load_inv st"
      using inv by (rule router_inv_states [rotated])
    then have get: "IsValid ip \<Longrightarrow> gm_get (ps_stats st) ip 0 =
        int (card {o1. \<exists>l. map_of (ps_leases st) o1 = Some l \<and> l_EgressIP l = ip})"
      by (simp add: load_inv_def leasesOn_card)
    have "map_of (LoadSnapshot (ps_stats st)) ip =
        (case map_of (ps_stats st) ip of None \<Rightarrow> None | Some n \<Rightarrow> if IsValid ip \<and> 0 < n then Some n else None)"
      using st unfolding LoadSnapshot_def load_inv_def by (intro map_of_gm_filter) simp
    then show ?thesis
      using Some get by (auto simp: SnapshotIPLoad_def leaseAt_def gm_get_def Let_def split: option.splits if_splits)
  qed
qed

section \<open>Announcements\<close>

text \<open>
  Persistence follows the router through its events alone: \<open>OnLeaseEvent\<close> of the runtime marks the
  owner of an event as changed, and as deleted when the event is a removal or an expiry. So every change
  of a lease has to be announced under its owner, and the last announcement has to tell whether the
  lease is gone.
\<close>

definition eventsOf :: "string \<Rightarrow> leaseOwner \<Rightarrow> LeaseEvent list \<Rightarrow> LeaseEvent list" where
  "eventsOf p o1 evs = filter (\<lambda>ev. ev_PlatformID ev = p \<and> (ev_UserID ev, ev_Account ev) = o1) evs"

definition marksDelete :: "LeaseEvent \<Rightarrow> bool" where
  "marksDelete ev \<longleftrightarrow> ev_Type ev = EvRemove \<or> ev_Type ev = EvExpire"

definition follows :: "LeaseEvent list \<Rightarrow> Lease option \<Rightarrow> Lease option \<Rightarrow> bool" where
  "follows evs old new \<longleftrightarrow> (if evs = [] then new = old else (new = None \<longleftrightarrow> marksDelete (last evs)))"

definition announced :: "Router \<Rightarrow> Router \<Rightarrow> bool" where
  "announced r r' \<longleftrightarrow> (\<exists>evs. ro_events r' = ro_events r @ evs \<and>
     (\<forall>p o1. follows (eventsOf p o1 evs) (leaseAt r p o1) (leaseAt r' p o1)))"

lemma announced_same: "ro_events r' = ro_events r \<Longrightarrow> leaseAt r' = leaseAt r \<Longrightarrow> announced r r'"
  by (auto simp: announced_def follows_def eventsOf_def)

lemma announced_refl [simp]: "announced r r"
  by (rule announced_same) simp_all

lemma announced_trans:
  assumes "announced r1 r2" "announced r2 r3"
  shows "announced r1 r3"
proof -
  obtain e1 where e1: "ro_events r2 = ro_events r1 @ e1" "\<And>p o1. follows (eventsOf p o1 e1) (leaseAt r1 p o1) (leaseAt r2 p o1)"
    using assms(1) unfolding announced_def by blast
  obtain e2 where e2: "ro_events r3 = ro_events r2 @ e2" "\<And>p o1. follows (eventsOf p o1 e2) (leaseAt r2 p o1) (leaseAt r3 p o1)"
    using assms(2) unfolding announced_def by blast
  have "follows (eventsOf p o1 (e1 @ e2)) (leaseAt r1 p o1) (leaseAt r3 p o1)" for p o1
    using e1(2) [of p o1] e2(2) [of p o1] by (auto simp: follows_def eventsOf_def split: if_splits)
  then show ?thesis
    unfolding announced_def using e1(1) e2(1) by (intro exI [of _ "e1 @ e2"]) simp
qed

text \<open>A step of one owner: its events name the owner, and no other lease changes.\<close>

lemma announced_one:
  assumes "ro_events r' = ro_events r @ evs"
    and "\<And>ev. ev \<in> set evs \<Longrightarrow> ev_PlatformID ev = p \<and> (ev_UserID ev, ev_Account ev) = o1"
    and "\<And>p' o2. (p', o2) \<noteq> (p, o1) \<Longrightarrow> leaseAt r' p' o2 = leaseAt r p' o2"
    and "follows evs (leaseAt r p o1) (leaseAt r' p o1)"
  shows "announced r r'"
proof -
  have "follows (eventsOf p' o2 evs) (leaseAt r p' o2) (leaseAt r' p' o2)" for p' o2
  proof (cases "(p', o2) = (p, o1)")
    case True
    have "eventsOf p o1 evs = evs"
      unfolding eventsOf_def by (rule filter_True) (use assms(2) in blast)
    then show ?thesis
      using True assms(4) by simp
  next
    case False
    have "eventsOf p' o2 evs = []"
      unfolding eventsOf_def by (rule filter_False) (use assms(2) False in blast)
    then show ?thesis
      using assms(3) [OF False] by (simp add: follows_def)
  qed
  then show ?thesis
    unfolding announced_def using assms(1) by blast
qed

lemma announced_fold: "(\<And>x r. announced r (f x r)) \<Longrightarrow> announced r (fold f xs r)"
proof (induction xs arbitrary: r)
  case (Cons x xs)
  then show ?case
    by (simp add: announced_trans [of r "f x r"])
qed simp

lemma createOrAbort_follows:
  assumes "d = createOrAbortStickyLease env plat stats u a target previous inval c r"
    and "case previous of None \<Rightarrow> inval = InvalidationNone | Some l \<Rightarrow> inval \<noteq> InvalidationNone"
  shows "(\<forall>ev\<in>set (d_events d). ev_PlatformID ev = pl_ID plat \<and> (ev_UserID ev, ev_Account ev) = (u, a)) \<and>
    follows (d_events d) previous (case d_op d of UpdateOp \<Rightarrow> d_lease d | DeleteOp \<Rightarrow> None | CancelOp \<Rightarrow> previous) \<and>
    (d_op d = UpdateOp \<longrightarrow> d_lease d \<noteq> None)"
proof -
  obtain res c' r' where cl: "createLease env plat stats u a target c r = (res, c', r')"
    by (metis prod_cases3)
  show ?thesis
    using cl assms(2) by (cases previous; cases res; cases inval)
      (auto simp: assms(1) createOrAbortStickyLease_def cleanupPreviousLease_def abortLeaseCreate_def leaseEvent_def
        follows_def marksDelete_def Let_def)
qed

lemma announced_routeSticky: "announced r (snd (routeSticky env plat u a target rng r))"
proof -
  define st where "st = ensurePlatformState (pl_ID plat) r"
  define d where "d = decideStickyLease env plat (ps_stats st) u a target (map_of (ps_leases st) (u, a)) (ro_tombstones r) rng"
  have d: "(\<forall>ev\<in>set (d_events d). ev_PlatformID ev = pl_ID plat \<and> (ev_UserID ev, ev_Account ev) = (u, a)) \<and>
    follows (d_events d) (map_of (ps_leases st) (u, a)) (map_of (ps_leases (decided (u, a) st d)) (u, a))"
    using d_def
  proof (cases rule: decide_cases)
    case (keep l l' res ev)
    then show ?thesis
      by (auto simp: keepLease_def decided_def computeLease_def gomap_simps follows_def marksDelete_def)
  next
    case (create inval)
    have inval: "case map_of (ps_leases st) (u, a) of None \<Rightarrow> inval = InvalidationNone | Some l \<Rightarrow> inval \<noteq> InvalidationNone"
      using create(2) by (simp split: option.splits)
    show ?thesis
      using createOrAbort_follows [OF create(1) inval]
      by (auto simp: decided_def computeLease_def gomap_simps split: ComputeOp.splits option.splits)
  qed
  have st: "leaseAt r (pl_ID plat) o2 = map_of (ps_leases st) o2" for o2
    by (simp add: st_def leaseAt_ensure)
  have run: "snd (routeSticky env plat u a target rng r) =
      r\<lparr>ro_states := AList.update (pl_ID plat) (decided (u, a) st d) (ro_states r),
        ro_tombstones := d_tombstones d, ro_events := ro_events r @ d_events d\<rparr>"
    by (simp add: routeSticky_state st_def d_def Let_def)
  show ?thesis
    unfolding run by (rule announced_one [of _ _ "d_events d" "pl_ID plat" "(u, a)"]) (use d in \<open>auto simp: st decided_other\<close>)
qed

lemma announced_route: "announced r (snd (RouteRequest rt name u a target rng r))"
proof (cases "resolvePlatform rt name")
  case None
  then show ?thesis
    by (simp add: RouteRequest_def)
next
  case (Some plat)
  have "ro_events (withState p r) = ro_events r" for p
    by (simp add: withState_def split: option.splits)
  then show ?thesis
    using Some announced_routeSticky [of r "rt_env rt" plat u a "rt_extractDomain rt target" rng]
    by (auto simp: RouteRequest_def Let_def split_beta intro: announced_same)
qed

text \<open>The operations that drop one lease and announce it.\<close>

lemma announced_drop:
  assumes st: "map_of (ro_states r) p = Some st"
    and ev: "ev_PlatformID ev = p" "(ev_UserID ev, ev_Account ev) = ow" "marksDelete ev"
    and st': "ps_leases st' = AList.delete ow (ps_leases st)"
    and r': "r' = emitLeaseEvent ev ((setState p st' r)\<lparr>ro_tombstones := c\<rparr>)"
  shows "announced r r'"
proof (rule announced_one [of _ _ "[ev]" p ow])
  show "ro_events r' = ro_events r @ [ev]"
    by (simp add: r' emitLeaseEvent_def setState_def)
  show "leaseAt r' p' o2 = leaseAt r p' o2" if "(p', o2) \<noteq> (p, ow)" for p' o2
    using that st st' by (auto simp: r' leaseAt_def gomap_simps emitLeaseEvent_def setState_def)
  show "follows [ev] (leaseAt r p ow) (leaseAt r' p ow)"
    using ev(3) st' by (simp add: r' follows_def gomap_simps)
qed (use ev in auto)

lemma removeEvent_sel [simp]:
  "ev_PlatformID (removeEvent p u a l) = p" "ev_UserID (removeEvent p u a l) = u" "ev_Account (removeEvent p u a l) = a"
  "marksDelete (removeEvent p u a l)"
  by (simp_all add: removeEvent_def leaseEvent_def marksDelete_def)

lemma DeleteLease_Some: "DeleteLease u a st = (Some l, st') \<Longrightarrow> ps_leases st' = AList.delete (u, a) (ps_leases st)"
  using leases_DeleteLease [of u a st] by simp

lemma DeleteOlder_Some: "DeleteLeaseIfOlderThan u a f st = (Some l, st') \<Longrightarrow>
   map_of (ps_leases st) (u, a) = Some l \<and> l_CreatedAtNs l \<le> f \<and> ps_leases st' = AList.delete (u, a) (ps_leases st)"
  by (auto simp: DeleteLeaseIfOlderThan_def owner_def Let_def split: option.splits if_splits)

lemma DeleteOlder_None: "DeleteLeaseIfOlderThan u a f st = (None, st') \<Longrightarrow>
   st' = st \<and> (case map_of (ps_leases st) (u, a) of None \<Rightarrow> True | Some l \<Rightarrow> f < l_CreatedAtNs l)"
  by (auto simp: DeleteLeaseIfOlderThan_def owner_def Let_def split: option.splits if_splits)

lemma setState_tomb_same: "(setState p st r)\<lparr>ro_tombstones := ro_tombstones r\<rparr> = setState p st r"
  by (simp add: setState_def)

lemma announced_DeleteRouterLease: "announced r (snd (DeleteRouterLease p u a r))"
  unfolding DeleteRouterLease_def
  by (auto split: option.splits prod.splits
      intro!: announced_drop [where c = "ro_tombstones r" and p = p and ow = "(u, a)" and ev = "removeEvent p u a l" for l]
      dest: DeleteLease_Some simp: setState_tomb_same)

lemma announced_rotateOne: "announced r (rotateOne p floorNs ttl now o1 r)"
  unfolding rotateOne_def DeleteRouterLeaseIfOlderThan_def
  by (cases o1) (auto split: option.splits prod.splits
      intro!: announced_drop [where p = p and ow = o1 and ev = "removeEvent p (fst o1) (snd o1) l" for l]
      dest: DeleteOlder_Some)

lemma announced_RotateLease: "announced r (snd (RotateLease plat u a now r))"
  unfolding RotateLease_def
  by (auto split: option.splits prod.splits
      intro!: announced_drop [where p = "pl_ID plat" and ow = "(u, a)" and ev = "removeEvent (pl_ID plat) u a l" for l]
      dest: DeleteLease_Some)

lemma announced_expireOne: "announced r (expireOne p now o1 r)"
  unfolding expireOne_def
  by (auto split: option.splits simp: leaseEvent_def marksDelete_def setState_tomb_same
      intro!: announced_drop [where c = "ro_tombstones r" and p = p and ow = o1])

lemma announced_UpsertLease: "announced r (snd (UpsertLease parseAddr ml r))"
proof -
  have "announced r (emitLeaseEvent (leaseEvent ty p u a h ip 0) (setState p (CreateLease u a l (ensurePlatformState p r)) r))"
    if "ty = EvReplace \<or> ty = EvCreate" for ty p u a h ip l
    by (rule announced_one [of _ _ "[leaseEvent ty p u a h ip 0]" p "(u, a)"])
      (use that in \<open>auto simp: emitLeaseEvent_def setState_def leaseEvent_def follows_def marksDelete_def leases_CreateLease
        gomap_simps leaseAt_ensure [of r p]\<close>)
  then show ?thesis
    by (simp add: UpsertLease_def Let_def split: option.splits)
qed

text \<open>Every operation but the restore at boot and the two that clear a platform.\<close>

fun announcing :: "router_op \<Rightarrow> bool" where
  "announcing (OpRestore parseAddr rows) = False"
| "announcing (OpDeleteAll p) = False"
| "announcing (OpPurge p) = False"
| "announcing _ = True"

lemma announced_sweepPlatform: "announced r (sweepPlatformState now p r)"
  unfolding sweepPlatformState_def by (rule announced_fold) (auto simp: announced_expireOne)

lemma announced_rotatePlatform: "announced r (rotatePlatformLeases p interval ttl now r)"
  unfolding rotatePlatformLeases_def Let_def by (rule announced_fold) (rule announced_rotateOne)

lemma announced_step: "announcing op \<Longrightarrow> announced r (router_step op r)"
  by (cases op)
    (simp_all add: announced_route announced_UpsertLease announced_DeleteRouterLease announced_RotateLease announced_expireOne
      announced_rotateOne sweepLeases_def rotateSweep_def Let_def announced_fold announced_sweepPlatform
      announced_rotatePlatform announced_same RotationTombstone_def split_beta)



text \<open>Clearing a platform removes the leases, but its events carry the empty user.\<close>

lemma drain_events: "drainLeases p os st = (n, evs, st') \<Longrightarrow> ev \<in> set evs \<Longrightarrow> ev_UserID ev = []"
  by (induction p os st arbitrary: n evs st' rule: drainLeases.induct) (auto split: option.splits prod.splits)

lemma drain_leases:
  "drainLeases p os st = (n, evs, st') \<Longrightarrow> map_of (ps_leases st') o1 = (if o1 \<in> set os then None else map_of (ps_leases st) o1)"
proof (induction p os st arbitrary: n evs st' rule: drainLeases.induct)
  case (2 p o2 os st)
  obtain res st2 where del: "DeleteLease (fst o2) (snd o2) st = (res, st2)"
    by fastforce
  have st2: "ps_leases st2 = AList.delete o2 (ps_leases st)"
    using leases_DeleteLease [of "fst o2" "snd o2" st] del by simp
  obtain n3 evs3 st3 where rest: "drainLeases p os st2 = (n3, evs3, st3)"
    by (metis prod_cases3)
  have "st' = st3"
    using 2(3) del rest by (auto split: option.splits)
  moreover have "map_of (ps_leases st3) o1 = (if o1 \<in> set os then None else map_of (ps_leases st2) o1)"
    using 2(1,2) del rest by (cases res) auto
  ultimately show ?case
    by (auto simp: st2 gomap_simps)
qed simp

text \<open>
  Clearing a platform is announced under the wrong owner: \<open>DeleteAllLeases\<close> removes the lease of every
  user, but no event it emits names a user, so for a lease with a user nothing tells the persistence
  that follows the events to delete its row.
\<close>
theorem DeleteAllLeases_loses_the_owner:
  assumes "leaseAt r p (u, a) = Some l" "u \<noteq> []"
  shows "\<exists>evs. ro_events (snd (DeleteAllLeases p r)) = ro_events r @ evs \<and> eventsOf p (u, a) evs = [] \<and>
    leaseAt (snd (DeleteAllLeases p r)) p (u, a) = None"
proof -
  obtain st where st: "map_of (ro_states r) p = Some st" "map_of (ps_leases st) (u, a) = Some l"
    using assms(1) by (auto simp: leaseAt_def split: option.splits)
  obtain n evs st' where dr: "drainLeases p (map fst (ps_leases st)) st = (n, evs, st')"
    by (metis prod_cases3)
  have "(u, a) \<in> set (map fst (ps_leases st))"
    using map_of_SomeD [OF st(2)] by force
  then have gone: "map_of (ps_leases st') (u, a) = None"
    using drain_leases [OF dr, of "(u, a)"] by simp
  have "eventsOf p (u, a) evs = []"
    unfolding eventsOf_def by (rule filter_False) (use drain_events [OF dr] assms(2) in fastforce)
  then show ?thesis
    using st(1) dr gone by (simp add: DeleteAllLeases_def)
qed

theorem DeleteAllLeases_loses_the_owner_witness:
  "leaseAt exampleRouter ''p'' (''u'', ''acc'') = Some exampleLease \<and>
   leaseAt (snd (DeleteAllLeases ''p'' exampleRouter)) ''p'' (''u'', ''acc'') = None"
proof -
  have "leaseAt exampleRouter ''p'' (''u'', ''acc'') = Some exampleLease"
    by code_simp
  then show ?thesis
    using DeleteAllLeases_loses_the_owner [of exampleRouter "''p''" "''u''" "''acc''" exampleLease] by auto
qed

section \<open>What a sweep removes\<close>

definition keepIf :: "(Lease \<Rightarrow> bool) \<Rightarrow> Lease option \<Rightarrow> Lease option" where
  "keepIf P x = (case x of Some l \<Rightarrow> if P l then Some l else None | None \<Rightarrow> None)"

lemma keepIf_simps [simp]: "keepIf P None = None" "keepIf P (Some l) = (if P l then Some l else None)"
  "keepIf P (keepIf P x) = keepIf P x"
  by (simp_all add: keepIf_def split: option.splits)

lemma leaseAt_fold:
  assumes "\<And>x r q o2. leaseAt (f x r) q o2 = (if q = p \<and> o2 = x then keepIf P (leaseAt r q o2) else leaseAt r q o2)"
  shows "leaseAt (fold f xs r) q o2 = (if q = p \<and> o2 \<in> set xs then keepIf P (leaseAt r q o2) else leaseAt r q o2)"
  by (induction xs arbitrary: r) (auto simp: assms)

lemma leaseAt_expireOne:
  "leaseAt (expireOne p now o1 r) q o2 =
     (if q = p \<and> o2 = o1 then keepIf (\<lambda>l. \<not> l_ExpiryNs l < now) (leaseAt r q o2) else leaseAt r q o2)"
  by (auto simp: expireOne_def leaseAt_def gomap_simps emitLeaseEvent_def setState_def split: option.splits)

lemma leaseAt_rotateOne:
  "leaseAt (rotateOne p floorNs ttl now o1 r) q o2 =
     (if q = p \<and> o2 = o1 then keepIf (\<lambda>l. floorNs < l_CreatedAtNs l) (leaseAt r q o2) else leaseAt r q o2)"
proof (cases "map_of (ro_states r) p")
  case None
  then show ?thesis
    by (simp add: rotateOne_def DeleteRouterLeaseIfOlderThan_def leaseAt_def)
next
  case (Some st)
  obtain res st' where del: "DeleteLeaseIfOlderThan (fst o1) (snd o1) floorNs st = (res, st')"
    by fastforce
  then show ?thesis
  proof (cases res)
    case None
    then show ?thesis
      using DeleteOlder_None [of "fst o1" "snd o1" floorNs st st'] del Some
      by (auto simp: rotateOne_def DeleteRouterLeaseIfOlderThan_def leaseAt_def split: option.splits)
  next
    case (Some l)
    then show ?thesis
      using DeleteOlder_Some [of "fst o1" "snd o1" floorNs st l st'] del \<open>map_of (ro_states r) p = Some st\<close>
      by (auto simp: rotateOne_def DeleteRouterLeaseIfOlderThan_def leaseAt_def emitLeaseEvent_def setState_def gomap_simps)
  qed
qed

lemma fold_if: "fold (\<lambda>(k, v). if c v then f k else (\<lambda>r. r)) xs r = fold f (map fst (filter (\<lambda>(k, v). c v) xs)) r"
  by (induction xs arbitrary: r) auto

lemma collected:
  assumes "leaseAt r p ow = Some l" "P l"
  shows "ow \<in> set (map fst (filter (\<lambda>(k, v). P v) (ps_leases (ensurePlatformState p r))))"
proof -
  have "(ow, l) \<in> set (filter (\<lambda>(k, v). P v) (ps_leases (ensurePlatformState p r)))"
    using assms by (auto simp: leaseAt_ensure dest: map_of_SomeD)
  then show ?thesis
    by (auto intro: rev_image_eqI)
qed

lemma leaseAt_sweepPlatform:
  "leaseAt (sweepPlatformState now p r) q o2 =
     (if q = p then keepIf (\<lambda>l. \<not> l_ExpiryNs l < now) (leaseAt r q o2) else leaseAt r q o2)"
proof (cases "leaseAt r p o2")
  case None
  then show ?thesis
    unfolding sweepPlatformState_def fold_if by (subst leaseAt_fold [OF leaseAt_expireOne]) auto
next
  case (Some l)
  have "o2 \<in> set (map fst (filter (\<lambda>(k, v). l_ExpiryNs v < now) (ps_leases (ensurePlatformState p r))))" if "l_ExpiryNs l < now"
    by (rule collected) (use Some that in auto)
  then show ?thesis
    unfolding sweepPlatformState_def fold_if by (subst leaseAt_fold [OF leaseAt_expireOne]) (use Some in auto)
qed

text \<open>
  A sweep is exact: after a sweep at time \<open>now\<close> a lease is gone if its expiry lies before \<open>now\<close> and is
  unchanged otherwise, on every platform and for every owner.
\<close>
theorem sweep_removes_exactly_the_expired:
  "leaseAt (sweepLeases now r) p o1 =
     (case leaseAt r p o1 of None \<Rightarrow> None | Some l \<Rightarrow> if l_ExpiryNs l < now then None else Some l)"
proof -
  have run: "leaseAt (fold (sweepPlatformState now) ps r) p o1 =
      (if p \<in> set ps then keepIf (\<lambda>l. \<not> l_ExpiryNs l < now) (leaseAt r p o1) else leaseAt r p o1)" for ps
    by (induction ps arbitrary: r) (auto simp: leaseAt_sweepPlatform)
  have "leaseAt r p o1 = None" if "p \<notin> set (map fst (ro_states r))"
    using that by (simp add: leaseAt_def map_of_eq_None_iff [THEN iffD2])
  then show ?thesis
    unfolding sweepLeases_def run by (auto simp: keepIf_def split: option.splits)
qed

text \<open>
  A scheduled rotation is exact: at times an \<open>int64\<close> can hold, it removes a lease of the platform exactly
  when the lease is at least one interval old, although the age is computed twice, once when the
  candidates are collected and once, as a floor on the creation time, when each is deleted. Other
  platforms keep their leases.
\<close>
theorem rotation_removes_exactly_the_old:
  assumes "0 \<le> now" "in64 now" "0 < interval" "in64 interval"
    and "\<And>ow l. leaseAt r p ow = Some l \<Longrightarrow> 0 \<le> l_CreatedAtNs l \<and> in64 (l_CreatedAtNs l)"
  shows "leaseAt (rotatePlatformLeases p interval ttl now r) q o1 =
     (if q = p then (case leaseAt r p o1 of None \<Rightarrow> None
        | Some l \<Rightarrow> if now - l_CreatedAtNs l \<ge> interval then None else Some l)
      else leaseAt r q o1)"
proof (cases "leaseAt r p o1")
  case None
  then show ?thesis
    unfolding rotatePlatformLeases_def Let_def by (subst leaseAt_fold [OF leaseAt_rotateOne]) auto
next
  case (Some l)
  have age: "wrap64 (now - l_CreatedAtNs l) = now - l_CreatedAtNs l" "wrap64 (now - interval) = now - interval"
    using assms(1-4) assms(5) [OF Some] by (auto intro!: wrap64_id simp: in64_def)
  have "o1 \<in> set (map fst (filter (\<lambda>(o1, l). wrap64 (now - l_CreatedAtNs l) \<ge> interval) (ps_leases (ensurePlatformState p r))))"
    if "now - l_CreatedAtNs l \<ge> interval"
    by (rule collected) (use Some that age in auto)
  then show ?thesis
    unfolding rotatePlatformLeases_def Let_def by (subst leaseAt_fold [OF leaseAt_rotateOne]) (use Some age in auto)
qed

lemma exampleRouter_leases: "leaseAt exampleRouter p ow = Some l \<Longrightarrow> p = ''p'' \<and> ow = (''u'', ''acc'') \<and> l = exampleLease"
  by (auto simp: leaseAt_def exampleRouter_def leases_CreateLease NewPlatformRoutingState_def split: if_splits option.splits)

theorem rotation_removes_exactly_the_old_witness:
  "leaseAt (rotatePlatformLeases ''p'' 10 100 10 exampleRouter) ''p'' (''u'', ''acc'') = None \<and>
   leaseAt (rotatePlatformLeases ''p'' 10 100 9 exampleRouter) ''p'' (''u'', ''acc'') = Some exampleLease"
proof -
  have l: "leaseAt exampleRouter ''p'' (''u'', ''acc'') = Some exampleLease"
    by code_simp
  have created: "0 \<le> l_CreatedAtNs l \<and> in64 (l_CreatedAtNs l)" if "leaseAt exampleRouter ''p'' ow = Some l" for ow l
    using exampleRouter_leases [OF that] by (simp add: exampleLease_def in64_def)
  show ?thesis
    using rotation_removes_exactly_the_old [of 10 10 exampleRouter "''p''" 100 "''p''" "(''u'', ''acc'')"]
      rotation_removes_exactly_the_old [of 9 10 exampleRouter "''p''" 100 "''p''" "(''u'', ''acc'')"] created l
    by (simp add: in64_def exampleLease_def)
qed

section \<open>Leases across a restart\<close>

lemma leaseAt_RestoreLease:
  assumes "ParseHex (ml_NodeHash ml) = Some h" "parseAddr (ml_EgressIP ml) = Some ip"
  shows "leaseAt (RestoreLease parseAddr ml r) p ow =
    (if p = ml_PlatformID ml \<and> ow = (ml_UserID ml, ml_Account ml) then Some (leaseOfRow h ip ml) else leaseAt r p ow)"
  using assms by (auto simp: RestoreLease_def leases_CreateLease gomap_simps leaseAt_ensure [of r "ml_PlatformID ml"])

lemma restore_row:
  assumes "leaseAt r0 p (u, a) = Some l" "is_hash (l_NodeHash l)" "parseAddr (addrString (l_EgressIP l)) = Some (l_EgressIP l)"
  shows "\<exists>ml. ReadLease addrString p u a r0 = Some ml \<and> (\<forall>r q ow. leaseAt (RestoreLease parseAddr ml r) q ow =
    (if q = p \<and> ow = (u, a) then leaseAt r0 p (u, a) else leaseAt r q ow))"
proof -
  obtain st where st: "map_of (ro_states r0) p = Some st" "map_of (ps_leases st) (u, a) = Some l"
    using assms(1) by (auto simp: leaseAt_def split: option.splits)
  let ?ml = "\<lparr>ml_PlatformID = p, ml_UserID = u, ml_Account = a, ml_NodeHash = Hex (l_NodeHash l),
    ml_EgressIP = addrString (l_EgressIP l), ml_CreatedAtNs = l_CreatedAtNs l, ml_ExpiryNs = l_ExpiryNs l,
    ml_LastAccessedNs = l_LastAccessedNs l\<rparr>"
  have "ReadLease addrString p u a r0 = Some ?ml"
    using st by (simp add: ReadLease_def GetLease_def owner_def)
  moreover have "leaseOfRow (l_NodeHash l) (l_EgressIP l) ?ml = l"
    by (simp add: leaseOfRow_def)
  ultimately show ?thesis
    using leaseAt_RestoreLease [of ?ml "l_NodeHash l" parseAddr "l_EgressIP l"] ParseHex_Hex [OF assms(2)] assms(1,3)
    by (intro exI [of _ ?ml]) simp
qed

lemma ReadLease_None: "leaseAt r0 p (u, a) = None \<Longrightarrow> ReadLease addrString p u a r0 = None"
  by (auto simp: ReadLease_def GetLease_def owner_def leaseAt_def split: option.splits)

text \<open>
  C24. Leases survive a restart: when the persisted rows are what \<open>ReadLease\<close> returns for a set of keys that
  covers the owners of all leases, in any order and with any repetition, then restoring them into a
  fresh router gives every owner exactly the lease it had, provided the addresses print and parse back.
\<close>
theorem leases_survive_restart:
  assumes rows: "\<And>p ow l. leaseAt r p ow = Some l \<Longrightarrow>
      is_hash (l_NodeHash l) \<and> parseAddr (addrString (l_EgressIP l)) = Some (l_EgressIP l)"
    and keys: "\<And>p u a. leaseAt r p (u, a) \<noteq> None \<Longrightarrow> (p, u, a) \<in> set ks"
  shows "leaseAt (RestoreLeases parseAddr (List.map_filter (\<lambda>(p, u, a). ReadLease addrString p u a r) ks) NewRouter) = leaseAt r"
proof -
  have run: "leaseAt (RestoreLeases parseAddr (List.map_filter (\<lambda>(p, u, a). ReadLease addrString p u a r) ks) r0) p (u, a) =
      (if (p, u, a) \<in> set ks \<and> leaseAt r p (u, a) \<noteq> None then leaseAt r p (u, a) else leaseAt r0 p (u, a))" for r0 p u a
  proof (induction ks arbitrary: r0)
    case (Cons k ks)
    obtain p' u' a' where k: "k = (p', u', a')"
      by (cases k)
    show ?case
    proof (cases "leaseAt r p' (u', a')")
      case None
      then show ?thesis
        using Cons by (auto simp: k ReadLease_None map_filter_simps)
    next
      case (Some l)
      obtain ml where "ReadLease addrString p' u' a' r = Some ml" "\<And>r1 q ow. leaseAt (RestoreLease parseAddr ml r1) q ow =
          (if q = p' \<and> ow = (u', a') then leaseAt r p' (u', a') else leaseAt r1 q ow)"
        using restore_row [OF Some] rows [OF Some] by blast
      then show ?thesis
        using Cons [of "RestoreLease parseAddr ml r0"] Some by (auto simp: k map_filter_simps RestoreLeases_def)
    qed
  qed (simp add: map_filter_simps RestoreLeases_def)
  have "leaseAt NewRouter p ow = None" for p ow
    by (simp add: leaseAt_def NewRouter_def)
  then have "leaseAt (RestoreLeases parseAddr (List.map_filter (\<lambda>(p, u, a). ReadLease addrString p u a r) ks) NewRouter) p (u, a) =
      leaseAt r p (u, a)" for p u a
    using run [of NewRouter p u a] keys [of p u a] by metis
  then show ?thesis
    by (simp add: fun_eq_iff)
qed

theorem leases_survive_restart_witness:
  "leaseAt (RestoreLeases (\<lambda>s. if s = ''0.0.0.1'' then Some (IPv4 1) else None)
      (List.map_filter (\<lambda>(p, u, a). ReadLease (\<lambda>_. ''0.0.0.1'') p u a exampleRouter) [(''p'', ''u'', ''acc'')]) NewRouter)
     ''p'' (''u'', ''acc'') = Some exampleLease"
proof -
  have l: "leaseAt exampleRouter ''p'' (''u'', ''acc'') = Some exampleLease"
    by code_simp
  have h: "is_hash (l_NodeHash exampleLease)" "l_EgressIP exampleLease = IPv4 1"
    by code_simp+
  have "leaseAt (RestoreLeases (\<lambda>s. if s = ''0.0.0.1'' then Some (IPv4 1) else None)
      (List.map_filter (\<lambda>(p, u, a). ReadLease (\<lambda>_. ''0.0.0.1'') p u a exampleRouter) [(''p'', ''u'', ''acc'')]) NewRouter)
    = leaseAt exampleRouter"
    by (rule leases_survive_restart) (use exampleRouter_leases h in fastforce)+
  then show ?thesis
    using l by simp
qed

end
