(* ===== verification/Billing.thy ===== *)
theory Billing
  imports State_Repo
begin

text \<open>
  Balances, purchases, redeem codes and on-chain deposits: \<open>internal/state/repo_balance.go\<close>,
  \<open>repo_purchase.go\<close>, \<open>repo_redeem_code.go\<close> and \<open>repo_deposit.go\<close>.

  Every operation is one transaction under the repository's mutex. A transaction is a sequence of
  statements composed with \<open>tx_then\<close>, which gives up every statement when a later one fails, as the
  deferred \<open>Rollback\<close> does. The constraints of migrations 000022, 000023, 000025 and 000027 decide
  the errors. Amounts are \<open>int64\<close>: the sum in front of a balance write wraps.

  The theory shows: a balance is the sum of its ledger and never negative; a request id is settled once,
  whatever happens in between; a purchase is all or nothing; on-chain credits are exactly the paid
  intents, one per transfer; a transfer matches at most one intent; a code is not redeemed more
  often than it allows.
\<close>

section \<open>Transactions\<close>

definition tx_then :: "('s \<Rightarrow> ('a, 's) call) \<Rightarrow> ('a \<Rightarrow> 's \<Rightarrow> ('b, 's) call) \<Rightarrow> 's \<Rightarrow> ('b, 's) call" where
  "tx_then first rest s =
     (case first s of
        (Inl err, _) \<Rightarrow> (Inl err, s)
      | (Inr x, s1) \<Rightarrow> (case rest x s1 of (Inl err, _) \<Rightarrow> (Inl err, s) | (Inr y, s2) \<Rightarrow> (Inr y, s2)))"

lemma tx_then_Inl: "tx_then first rest s = (Inl err, s') \<Longrightarrow> s' = s"
  by (auto simp: tx_then_def split: prod.splits sum.splits)

lemma tx_then_Inr:
  "tx_then first rest s = (Inr y, s') \<longleftrightarrow> (\<exists>x s1. first s = (Inr x, s1) \<and> rest x s1 = (Inr y, s'))"
  by (auto simp: tx_then_def split: prod.splits sum.splits)

section \<open>Balance and ledger\<close>

definition balanceForUpdate :: "string \<Rightarrow> StateRepo \<Rightarrow> int" where
  "balanceForUpdate userID r = gm_get (r_balance r) userID 0"

definition GetBalance :: "string \<Rightarrow> StateRepo \<Rightarrow> int" where
  "GetBalance userID r = gm_get (r_balance r) userID 0"

text \<open>The upsert of \<open>user_balance\<close>, whose key references \<open>users\<close>.\<close>

definition writeBalance :: "string \<Rightarrow> int \<Rightarrow> StateRepo \<Rightarrow> (unit, StateRepo) call" where
  "writeBalance userID v r =
     (if map_of (r_users r) userID = None then (Inl (ErrOther ''write balance''), r)
      else (Inr (), r\<lparr>r_balance := AList.update userID v (r_balance r)\<rparr>))"

text \<open>The insert into \<open>balance_ledger\<close> with its two partial unique indexes and its primary key.\<close>

definition BalanceReasonDeposit :: string where
  "BalanceReasonDeposit = ''deposit''"

definition requestTaken :: "BalanceEntry \<Rightarrow> StateRepo \<Rightarrow> bool" where
  "requestTaken e r \<longleftrightarrow> be_RequestID e \<noteq> '''' \<and>
     list_ex (\<lambda>x. be_UserID x = be_UserID e \<and> be_RequestID x = be_RequestID e) (r_ledger r)"

definition depositTaken :: "BalanceEntry \<Rightarrow> StateRepo \<Rightarrow> bool" where
  "depositTaken e r \<longleftrightarrow> be_Reason e = BalanceReasonDeposit \<and> be_RefID e \<noteq> '''' \<and>
     list_ex (\<lambda>x. be_Reason x = BalanceReasonDeposit \<and> be_RefID x = be_RefID e) (r_ledger r)"

definition insertLedger :: "BalanceEntry \<Rightarrow> StateRepo \<Rightarrow> (BalanceEntry, StateRepo) call" where
  "insertLedger e r =
     (if requestTaken e r \<or> depositTaken e r then (Inl ErrConflict, r)
      else if list_ex (\<lambda>x. be_ID x = be_ID e) (r_ledger r) then (Inl (ErrOther ''write ledger''), r)
      else (Inr e, r\<lparr>r_ledger := r_ledger r @ [e]\<rparr>))"

text \<open>The two writes every movement of money consists of.\<close>

definition postEntry :: "BalanceEntry \<Rightarrow> int \<Rightarrow> StateRepo \<Rightarrow> (BalanceEntry, StateRepo) call" where
  "postEntry e after =
     tx_then (writeBalance (be_UserID e) after) (\<lambda>_. insertLedger (e\<lparr>be_BalanceAfterMicro := after\<rparr>))"

definition chargeInTx :: "BalanceEntry \<Rightarrow> StateRepo \<Rightarrow> (BalanceEntry, StateRepo) call" where
  "chargeInTx e r =
     (let after = wrap64 (balanceForUpdate (be_UserID e) r + be_DeltaMicro e) in
      if after < 0 then (Inl ErrInsufficientBalance, r) else postEntry e after r)"

text \<open>\<open>ApplyBalanceDelta\<close> runs the same statements in a transaction of its own.\<close>

definition ApplyBalanceDelta :: "BalanceEntry \<Rightarrow> StateRepo \<Rightarrow> (BalanceEntry, StateRepo) call" where
  "ApplyBalanceDelta e r = chargeInTx e r"

definition ledgerEntryByRequest :: "string \<Rightarrow> string \<Rightarrow> StateRepo \<Rightarrow> BalanceEntry option" where
  "ledgerEntryByRequest userID requestID r =
     find (\<lambda>x. be_UserID x = userID \<and> be_RequestID x = requestID) (r_ledger r)"

definition GetBalanceEntryByRequest :: "string \<Rightarrow> string \<Rightarrow> StateRepo \<Rightarrow> error + BalanceEntry" where
  "GetBalanceEntryByRequest userID requestID r =
     (if requestID = '''' then Inl ErrNotFound
      else case ledgerEntryByRequest userID requestID r of None \<Rightarrow> Inl ErrNotFound | Some e \<Rightarrow> Inr e)"

definition ListBalanceLedger :: "string \<Rightarrow> int \<Rightarrow> StateRepo \<Rightarrow> BalanceEntry list" where
  "ListBalanceLedger userID limit r =
     (let rows = rev (sort_key be_CreatedAtNs (sort_key be_ID (filter (\<lambda>e. be_UserID e = userID) (r_ledger r))))
      in if limit > 0 then take (nat limit) rows else rows)"

section \<open>Purchases and renewals\<close>

record PurchaseResult =
  pr_Entry :: BalanceEntry
  pr_Subscription :: UserSubscription
  pr_Replayed :: bool

definition zeroSubscription :: UserSubscription where
  "zeroSubscription = \<lparr>s_ID = '''', s_UserID = '''', s_PlanID = '''', s_PlanSnapshotJSON = '''', s_StartsAtNs = 0,
     s_ExpiresAtNs = 0, s_PeriodStartNs = 0, s_PeriodUsedBytes = 0, s_AutoRenew = False, s_PeriodIndex = 0, s_Status = ''''\<rparr>"

definition activeSubscriptionTx :: "string \<Rightarrow> StateRepo \<Rightarrow> UserSubscription" where
  "activeSubscriptionTx userID r = (case activeRow userID r of None \<Rightarrow> zeroSubscription | Some s \<Rightarrow> s)"

definition orEmptySnapshot :: "UserSubscription \<Rightarrow> string" where
  "orEmptySnapshot s = (if s_PlanSnapshotJSON s = '''' then ''{}'' else s_PlanSnapshotJSON s)"

definition expirePrevious :: "string \<Rightarrow> StateRepo \<Rightarrow> StateRepo" where
  "expirePrevious userID r =
     r\<lparr>r_subs := map (\<lambda>(i, s). (i, if s_UserID s = userID \<and> active_sub s
        then s\<lparr>s_Status := SubscriptionStatusExpired\<rparr> else s)) (r_subs r)\<rparr>"

text \<open>The insert of a subscription: a taken id is a primary key violation, not a conflict.\<close>

definition insertSubscription :: "UserSubscription \<Rightarrow> StateRepo \<Rightarrow> (unit, StateRepo) call" where
  "insertSubscription s r =
     (if \<not> status_check s then (Inl (ErrOther ''write subscription''), r)
      else if active_sub s \<and> list_ex (\<lambda>(_, t). s_UserID t = s_UserID s \<and> active_sub t) (r_subs r) then (Inl ErrConflict, r)
      else if map_of (r_subs r) (s_ID s) \<noteq> None \<or> \<not> foreign_keys_ok s r then (Inl (ErrOther ''write subscription''), r)
      else (Inr (), r\<lparr>r_subs := AList.update (s_ID s) s (r_subs r)\<rparr>))"

definition replayed :: "BalanceEntry \<Rightarrow> StateRepo \<Rightarrow> PurchaseResult option" where
  "replayed entry r =
     (if be_RequestID entry = '''' then None
      else map_option (\<lambda>settled. \<lparr>pr_Entry = settled, pr_Subscription = activeSubscriptionTx (be_UserID entry) r, pr_Replayed = True\<rparr>)
        (ledgerEntryByRequest (be_UserID entry) (be_RequestID entry) r))"

definition PurchasePlanWithBalance ::
  "UserSubscription \<Rightarrow> BalanceEntry \<Rightarrow> StateRepo \<Rightarrow> (PurchaseResult, StateRepo) call" where
  "PurchasePlanWithBalance sub entry r =
     (case replayed entry r of
        Some res \<Rightarrow> (Inr res, r)
      | None \<Rightarrow>
          tx_then (chargeInTx entry) (\<lambda>charged r1.
            let sub' = sub\<lparr>s_Status := (if s_Status sub = '''' then SubscriptionStatusActive else s_Status sub)\<rparr> in
            tx_then (insertSubscription (sub'\<lparr>s_PlanSnapshotJSON := orEmptySnapshot sub\<rparr>))
              (\<lambda>_ r2. (Inr \<lparr>pr_Entry = charged, pr_Subscription = sub', pr_Replayed = False\<rparr>, r2))
              (expirePrevious (be_UserID entry) r1)) r)"

definition extendSubscription :: "UserSubscription \<Rightarrow> int \<Rightarrow> StateRepo \<Rightarrow> (unit, StateRepo) call" where
  "extendSubscription sub expectedPeriodIndex r =
     (case map_of (r_subs r) (s_ID sub) of
        None \<Rightarrow> (Inl ErrConflict, r)
      | Some old \<Rightarrow>
          if s_PeriodIndex old \<noteq> expectedPeriodIndex then (Inl ErrConflict, r)
          else let new = old\<lparr>s_PlanSnapshotJSON := orEmptySnapshot sub, s_ExpiresAtNs := s_ExpiresAtNs sub,
                   s_PeriodIndex := s_PeriodIndex sub, s_PeriodStartNs := s_PeriodStartNs sub, s_PeriodUsedBytes := 0,
                   s_Status := SubscriptionStatusActive\<rparr>
               in if active_taken new r then (Inl (ErrOther ''extend subscription''), r)
                  else (Inr (), r\<lparr>r_subs := AList.update (s_ID sub) new (r_subs r)\<rparr>))"

definition RenewSubscriptionWithBalance ::
  "UserSubscription \<Rightarrow> int \<Rightarrow> BalanceEntry \<Rightarrow> StateRepo \<Rightarrow> (PurchaseResult, StateRepo) call" where
  "RenewSubscriptionWithBalance sub expectedPeriodIndex entry r =
     (case replayed entry r of
        Some res \<Rightarrow> (Inr res, r)
      | None \<Rightarrow>
          tx_then (chargeInTx entry) (\<lambda>charged.
            tx_then (extendSubscription sub expectedPeriodIndex)
              (\<lambda>_ r2. (Inr \<lparr>pr_Entry = charged, pr_Subscription = sub, pr_Replayed = False\<rparr>, r2))) r)"

definition SetSubscriptionAutoRenew :: "string \<Rightarrow> bool \<Rightarrow> StateRepo \<Rightarrow> (unit, StateRepo) call" where
  "SetSubscriptionAutoRenew i autoRenew r =
     (case map_of (r_subs r) i of
        None \<Rightarrow> (Inl ErrNotFound, r)
      | Some s \<Rightarrow> (Inr (), r\<lparr>r_subs := AList.update i (s\<lparr>s_AutoRenew := autoRenew\<rparr>) (r_subs r)\<rparr>))"

definition ListRenewableSubscriptions :: "int \<Rightarrow> int \<Rightarrow> StateRepo \<Rightarrow> UserSubscription list" where
  "ListRenewableSubscriptions nowNs withinNs r =
     sort_key s_ExpiresAtNs (filter (\<lambda>s. active_sub s \<and> s_AutoRenew s \<and> s_ExpiresAtNs s > 0 \<and>
        s_ExpiresAtNs s \<le> wrap64 (nowNs + withinNs)) (map snd (r_subs r)))"

section \<open>Redeem codes\<close>

definition RedeemCodeStatusActive :: string where
  "RedeemCodeStatusActive = ''active''"

definition InsertRedeemCode :: "RedeemCode \<Rightarrow> StateRepo \<Rightarrow> (unit, StateRepo) call" where
  "InsertRedeemCode code r =
     (if list_ex (\<lambda>(_, c). rc_CodeHash c = rc_CodeHash code) (r_codes r) then (Inl ErrConflict, r)
      else if map_of (r_codes r) (rc_ID code) \<noteq> None then (Inl (ErrOther ''insert redeem code''), r)
      else (Inr (), r\<lparr>r_codes := AList.update (rc_ID code) code (r_codes r)\<rparr>))"

definition GetRedeemCodeByHash :: "string \<Rightarrow> StateRepo \<Rightarrow> error + RedeemCode" where
  "GetRedeemCodeByHash codeHash r =
     (case find (\<lambda>c. rc_CodeHash c = codeHash) (map snd (r_codes r)) of None \<Rightarrow> Inl ErrNotFound | Some c \<Rightarrow> Inr c)"

definition DeleteRedeemCode :: "string \<Rightarrow> StateRepo \<Rightarrow> (unit, StateRepo) call" where
  "DeleteRedeemCode i r =
     (case map_of (r_codes r) i of
        None \<Rightarrow> (Inl ErrNotFound, r)
      | Some _ \<Rightarrow> (Inr (), r\<lparr>r_codes := AList.delete i (r_codes r)\<rparr>))"

definition redeemable :: "string \<Rightarrow> int \<Rightarrow> RedeemCode \<Rightarrow> bool" where
  "redeemable codeHash nowNs c \<longleftrightarrow> rc_CodeHash c = codeHash \<and> rc_Status c = RedeemCodeStatusActive \<and>
     (rc_ExpiresAtNs c = 0 \<or> rc_ExpiresAtNs c > nowNs) \<and> (rc_MaxUses c = 0 \<or> rc_UsedCount c < rc_MaxUses c)"

text \<open>The claim: a conditional UPDATE of the one row with the hash.\<close>

definition claimCode :: "string \<Rightarrow> int \<Rightarrow> StateRepo \<Rightarrow> (unit, StateRepo) call" where
  "claimCode codeHash nowNs r =
     (if list_ex (\<lambda>(_, c). redeemable codeHash nowNs c) (r_codes r)
      then (Inr (), r\<lparr>r_codes := map (\<lambda>(i, c). (i, if redeemable codeHash nowNs c
              then c\<lparr>rc_UsedCount := rc_UsedCount c + 1, rc_UpdatedAtNs := nowNs\<rparr> else c)) (r_codes r)\<rparr>)
      else (Inl ErrNotFound, r))"

definition RedeemCodeAndCredit :: "string \<Rightarrow> BalanceEntry \<Rightarrow> int \<Rightarrow> StateRepo \<Rightarrow> (BalanceEntry, StateRepo) call" where
  "RedeemCodeAndCredit codeHash entry nowNs = tx_then (claimCode codeHash nowNs) (\<lambda>_. chargeInTx entry)"

definition CountRedeemCodeUses :: "string \<Rightarrow> StateRepo \<Rightarrow> error + int" where
  "CountRedeemCodeUses codeHash r =
     (case GetRedeemCodeByHash codeHash r of Inl err \<Rightarrow> Inl err | Inr c \<Rightarrow> Inr (rc_UsedCount c))"

section \<open>Deposits\<close>

definition holdsAmount :: "DepositIntent \<Rightarrow> bool" where
  "holdsAmount d \<longleftrightarrow> di_Status d = ''pending'' \<or> di_Status d = ''unpaid''"

definition releaseExpired :: "int \<Rightarrow> DepositIntent \<Rightarrow> DepositIntent" where
  "releaseExpired nowNs d = (if holdsAmount d \<and> di_HoldUntilNs d \<le> nowNs then d\<lparr>di_Status := ''released''\<rparr> else d)"

definition releaseExpiredDepositsTx :: "int \<Rightarrow> StateRepo \<Rightarrow> StateRepo" where
  "releaseExpiredDepositsTx nowNs r = r\<lparr>r_deposits := map (\<lambda>(i, d). (i, releaseExpired nowNs d)) (r_deposits r)\<rparr>"

definition pendingIntent :: "DepositIntent \<Rightarrow> int \<Rightarrow> DepositIntent" where
  "pendingIntent intent amount =
     \<lparr>di_ID = di_ID intent, di_UserID = di_UserID intent, di_AmountMicro = amount, di_Status = ''pending'', di_TxID = '''',
      di_CreatedAtNs = di_CreatedAtNs intent, di_ExpiresAtNs = di_ExpiresAtNs intent, di_HoldUntilNs = di_HoldUntilNs intent,
      di_PaidAtNs = 0\<rparr>"

text \<open>The loop over the candidates: \<open>ON CONFLICT DO NOTHING\<close> skips a taken amount or id.\<close>

fun allocate :: "DepositIntent \<Rightarrow> int list \<Rightarrow> StateRepo \<Rightarrow> (DepositIntent, StateRepo) call" where
  "allocate intent [] r = (Inl ErrConflict, r)"
| "allocate intent (amount # rest) r =
     (if map_of (r_deposits r) (di_ID intent) \<noteq> None \<or>
         list_ex (\<lambda>(_, d). di_AmountMicro d = amount \<and> holdsAmount d) (r_deposits r)
      then allocate intent rest r
      else (Inr (pendingIntent intent amount),
            r\<lparr>r_deposits := AList.update (di_ID intent) (pendingIntent intent amount) (r_deposits r)\<rparr>))"

definition InsertDepositIntent :: "DepositIntent \<Rightarrow> int list \<Rightarrow> int \<Rightarrow> StateRepo \<Rightarrow> (DepositIntent, StateRepo) call" where
  "InsertDepositIntent intent candidates nowNs r =
     (if candidates = [] then (Inl ErrConflict, r)
      else tx_then (\<lambda>r. (Inr (), releaseExpiredDepositsTx nowNs r)) (\<lambda>_. allocate intent candidates) r)"

definition GetDepositIntent :: "string \<Rightarrow> StateRepo \<Rightarrow> error + DepositIntent" where
  "GetDepositIntent i r = (case map_of (r_deposits r) i of None \<Rightarrow> Inl ErrNotFound | Some d \<Rightarrow> Inr d)"

definition ListDepositIntents :: "string \<Rightarrow> int \<Rightarrow> StateRepo \<Rightarrow> DepositIntent list" where
  "ListDepositIntents userID limit r =
     (let rows = rev (sort_key di_CreatedAtNs (sort_key di_ID (filter (\<lambda>d. di_UserID d = userID) (map snd (r_deposits r)))))
      in if limit > 0 then take (nat limit) rows else rows)"

definition markUnpaid :: "int \<Rightarrow> DepositIntent \<Rightarrow> DepositIntent" where
  "markUnpaid nowNs d =
     (if di_Status d = ''pending'' \<and> di_ExpiresAtNs d \<le> nowNs \<and> di_HoldUntilNs d > nowNs
      then d\<lparr>di_Status := ''unpaid''\<rparr> else d)"

definition SweepDeposits :: "int \<Rightarrow> StateRepo \<Rightarrow> (nat, StateRepo) call" where
  "SweepDeposits nowNs r =
     (let marked = map (\<lambda>(i, d). (i, markUnpaid nowNs d)) (r_deposits r)
      in (Inr (length (filter (\<lambda>(_, d). holdsAmount d \<and> di_HoldUntilNs d \<le> nowNs) marked)),
          r\<lparr>r_deposits := map (\<lambda>(i, d). (i, releaseExpired nowNs d)) marked\<rparr>))"

text \<open>\<open>ORDER BY created_at_ns DESC LIMIT 1\<close>, the first row in table order among equals.\<close>

fun newest :: "DepositIntent list \<Rightarrow> DepositIntent option" where
  "newest [] = None"
| "newest (d # ds) =
     (case newest ds of None \<Rightarrow> Some d | Some e \<Rightarrow> Some (if di_CreatedAtNs e > di_CreatedAtNs d then e else d))"

definition ownsTransfer :: "int \<Rightarrow> int \<Rightarrow> DepositIntent \<Rightarrow> bool" where
  "ownsTransfer amountMicro blockTSNs d \<longleftrightarrow> di_AmountMicro d = amountMicro \<and> di_Status d \<noteq> ''paid'' \<and>
     di_CreatedAtNs d \<le> blockTSNs \<and> di_HoldUntilNs d > blockTSNs"

definition depositIntentForTransferTx :: "int \<Rightarrow> int \<Rightarrow> StateRepo \<Rightarrow> DepositIntent option" where
  "depositIntentForTransferTx amountMicro blockTSNs r =
     newest (filter (ownsTransfer amountMicro blockTSNs) (map snd (r_deposits r)))"

definition ChainCursor :: "string \<Rightarrow> StateRepo \<Rightarrow> int" where
  "ChainCursor name r = gm_get (r_cursor r) name 0"

definition AdvanceChainCursor :: "string \<Rightarrow> int \<Rightarrow> StateRepo \<Rightarrow> StateRepo" where
  "AdvanceChainCursor name watermarkMs r =
     r\<lparr>r_cursor := AList.update name
        (case map_of (r_cursor r) name of None \<Rightarrow> watermarkMs | Some w \<Rightarrow> max w watermarkMs) (r_cursor r)\<rparr>"

definition paidIntent :: "string \<Rightarrow> int \<Rightarrow> DepositIntent \<Rightarrow> DepositIntent" where
  "paidIntent txID nowNs d = d\<lparr>di_Status := ''paid'', di_TxID := txID, di_PaidAtNs := nowNs\<rparr>"

definition depositEntry :: "BalanceEntry \<Rightarrow> DepositIntent \<Rightarrow> string \<Rightarrow> int \<Rightarrow> BalanceEntry" where
  "depositEntry entry intent txID nowNs =
     entry\<lparr>be_UserID := di_UserID intent, be_DeltaMicro := di_AmountMicro intent, be_Reason := BalanceReasonDeposit,
       be_RefID := txID, be_CreatedAtNs := nowNs\<rparr>"

definition CreditDeposit ::
  "string \<Rightarrow> int \<Rightarrow> int \<Rightarrow> int \<Rightarrow> string \<Rightarrow> int \<Rightarrow> BalanceEntry \<Rightarrow> StateRepo \<Rightarrow> (DepositIntent, StateRepo) call" where
  "CreditDeposit txID amountMicro blockTSNs nowNs cursorName watermarkMs entry r =
     (if list_ex (\<lambda>(_, d). di_TxID d = txID \<and> di_Status d = ''paid'') (r_deposits r) then (Inl ErrConflict, r)
      else case depositIntentForTransferTx amountMicro blockTSNs r of
        None \<Rightarrow> (Inl ErrNotFound, r)
      | Some intent \<Rightarrow>
          tx_then
            (postEntry (depositEntry entry intent txID nowNs)
               (wrap64 (balanceForUpdate (di_UserID intent) r + di_AmountMicro intent)))
            (\<lambda>_ r1. (Inr (paidIntent txID nowNs intent),
               AdvanceChainCursor cursorName watermarkMs
                 (r1\<lparr>r_deposits := AList.update (di_ID intent) (paidIntent txID nowNs intent) (r_deposits r1)\<rparr>))) r)"

text \<open>Books with two accounts and a plan, where a statement is evaluated.\<close>

definition exampleEntry :: "string \<Rightarrow> string \<Rightarrow> int \<Rightarrow> string \<Rightarrow> BalanceEntry" where
  "exampleEntry i user delta request = \<lparr>be_ID = i, be_UserID = user, be_DeltaMicro = delta, be_BalanceAfterMicro = 0,
     be_Reason = ''purchase'', be_RefID = '''', be_RequestID = request, be_Note = '''', be_Actor = '''', be_CreatedAtNs = 1\<rparr>"

definition examplePlan :: Plan where
  "examplePlan = \<lparr>p_ID = ''p1'', p_Name = ''basic'', p_Platforms = [], p_IPTiers = [], p_TrafficBytes = 0, p_Period = ''month'',
     p_MaxConcurrent = 0, p_MaxRPS = 0, p_MaxBandwidthBps = 0, p_MaxKeys = 0, p_DurationDays = 30, p_PriceMicro = 200,
     p_Status = ''active''\<rparr>"

definition exampleBooks :: StateRepo where
  "exampleBooks = emptyRepo\<lparr>r_users := [(''u1'', ''active''), (''u2'', ''active'')], r_plans := [(''p1'', examplePlan)]\<rparr>"

section \<open>The operations\<close>

datatype billing_op =
    BApply BalanceEntry
  | BPurchase UserSubscription BalanceEntry
  | BRenew UserSubscription int BalanceEntry
  | BAutoRenew string bool
  | BInsertCode RedeemCode
  | BDeleteCode string
  | BRedeem string BalanceEntry int
  | BOpen DepositIntent "int list" int
  | BSweep int
  | BCredit string int int int string int BalanceEntry
  | BCursor string int
  | BSubs subs_op

fun billing_step :: "billing_op \<Rightarrow> StateRepo \<Rightarrow> StateRepo" where
  "billing_step (BApply e) r = snd (ApplyBalanceDelta e r)"
| "billing_step (BPurchase s e) r = snd (PurchasePlanWithBalance s e r)"
| "billing_step (BRenew s k e) r = snd (RenewSubscriptionWithBalance s k e r)"
| "billing_step (BAutoRenew i b) r = snd (SetSubscriptionAutoRenew i b r)"
| "billing_step (BInsertCode c) r = snd (InsertRedeemCode c r)"
| "billing_step (BDeleteCode i) r = snd (DeleteRedeemCode i r)"
| "billing_step (BRedeem h e now) r = snd (RedeemCodeAndCredit h e now r)"
| "billing_step (BOpen d cs now) r = snd (InsertDepositIntent d cs now r)"
| "billing_step (BSweep now) r = snd (SweepDeposits now r)"
| "billing_step (BCredit txID amt ts now c w e) r = snd (CreditDeposit txID amt ts now c w e r)"
| "billing_step (BCursor c w) r = AdvanceChainCursor c w r"
| "billing_step (BSubs op) r = subs_step op r"

section \<open>What moves money\<close>

text \<open>
  \<open>posted e r r'\<close>: one entry was added to the ledger and the balance of its user follows it.
  \<open>quiet r r'\<close>: no money moved. Every step is one of the two, or deletes an account.
\<close>

definition posted :: "BalanceEntry \<Rightarrow> StateRepo \<Rightarrow> StateRepo \<Rightarrow> bool" where
  "posted e r r' \<longleftrightarrow> r_users r' = r_users r \<and> map_of (r_users r) (be_UserID e) \<noteq> None \<and>
     be_BalanceAfterMicro e = wrap64 (GetBalance (be_UserID e) r + be_DeltaMicro e) \<and>
     \<not> requestTaken e r \<and> \<not> depositTaken e r \<and> e \<notin> set (r_ledger r) \<and>
     r_balance r' = AList.update (be_UserID e) (be_BalanceAfterMicro e) (r_balance r) \<and> r_ledger r' = r_ledger r @ [e]"

definition quiet :: "StateRepo \<Rightarrow> StateRepo \<Rightarrow> bool" where
  "quiet r r' \<longleftrightarrow> r_users r' = r_users r \<and> r_balance r' = r_balance r \<and> r_ledger r' = r_ledger r"

lemma quiet_refl [simp]: "quiet r r"
  by (simp add: quiet_def)

lemma quiet_trans [trans]: "quiet r1 r2 \<Longrightarrow> quiet r2 r3 \<Longrightarrow> quiet r1 r3"
  by (simp add: quiet_def)

lemma quiet_fields [simp]:
  "quiet r (r\<lparr>r_subs := s\<rparr>)" "quiet r (r\<lparr>r_codes := c\<rparr>)" "quiet r (r\<lparr>r_deposits := d\<rparr>)" "quiet r (r\<lparr>r_cursor := w\<rparr>)"
  by (simp_all add: quiet_def)

lemma posted_quiet: "posted e r1 r2 \<Longrightarrow> quiet r r1 \<Longrightarrow> quiet r2 r3 \<Longrightarrow> posted e r r3"
  by (simp add: posted_def quiet_def GetBalance_def requestTaken_def depositTaken_def)

lemma postEntry_Inr:
  "postEntry e after r = (Inr e', r') \<longleftrightarrow> map_of (r_users r) (be_UserID e) \<noteq> None \<and> e' = e\<lparr>be_BalanceAfterMicro := after\<rparr> \<and>
     \<not> requestTaken e r \<and> \<not> depositTaken e r \<and> \<not> list_ex (\<lambda>x. be_ID x = be_ID e) (r_ledger r) \<and>
     r' = r\<lparr>r_balance := AList.update (be_UserID e) after (r_balance r), r_ledger := r_ledger r @ [e']\<rparr>"
  by (auto simp: postEntry_def tx_then_Inr writeBalance_def insertLedger_def requestTaken_def depositTaken_def split: if_splits)

lemma postEntry_posted:
  assumes "postEntry e after r = (Inr e', r')" "after = wrap64 (GetBalance (be_UserID e) r + be_DeltaMicro e)"
  shows "posted e' r r'"
  using assms unfolding postEntry_Inr by (auto simp: posted_def list_ex_iff requestTaken_def depositTaken_def)

lemma chargeInTx_Inr:
  assumes "chargeInTx e r = (Inr e', r')"
  shows "e' = e\<lparr>be_BalanceAfterMicro := wrap64 (GetBalance (be_UserID e) r + be_DeltaMicro e)\<rparr> \<and>
    0 \<le> be_BalanceAfterMicro e' \<and> posted e' r r' \<and>
    r' = r\<lparr>r_balance := AList.update (be_UserID e) (be_BalanceAfterMicro e') (r_balance r), r_ledger := r_ledger r @ [e']\<rparr>"
proof -
  have post: "0 \<le> wrap64 (GetBalance (be_UserID e) r + be_DeltaMicro e)"
    "postEntry e (wrap64 (GetBalance (be_UserID e) r + be_DeltaMicro e)) r = (Inr e', r')"
    using assms by (auto simp: chargeInTx_def Let_def balanceForUpdate_def GetBalance_def split: if_splits)
  then show ?thesis
    using postEntry_posted [OF post(2) refl] by (auto simp: postEntry_Inr)
qed

lemma chargeInTx_Inl: "chargeInTx e r = (Inl err, r') \<Longrightarrow> r' = r"
  by (auto simp: chargeInTx_def Let_def postEntry_def dest: tx_then_Inl split: if_splits)

text \<open>A charge is followed by writes that move no money.\<close>

lemma purchase_Inr:
  assumes "PurchasePlanWithBalance sub entry r = (Inr res, r')" "\<not> pr_Replayed res"
  shows "\<exists>r1 r2. replayed entry r = None \<and> chargeInTx entry r = (Inr (pr_Entry res), r1) \<and>
    r2 = expirePrevious (be_UserID entry) r1 \<and>
    pr_Subscription res = sub\<lparr>s_Status := (if s_Status sub = '''' then SubscriptionStatusActive else s_Status sub)\<rparr> \<and>
    insertSubscription ((pr_Subscription res)\<lparr>s_PlanSnapshotJSON := orEmptySnapshot sub\<rparr>) r2 = (Inr (), r')"
  using assms
  by (auto simp: PurchasePlanWithBalance_def replayed_def tx_then_Inr Let_def split: option.splits if_splits)

lemma renew_Inr:
  assumes "RenewSubscriptionWithBalance sub k entry r = (Inr res, r')" "\<not> pr_Replayed res"
  shows "\<exists>r1. replayed entry r = None \<and> chargeInTx entry r = (Inr (pr_Entry res), r1) \<and> pr_Subscription res = sub \<and>
    extendSubscription sub k r1 = (Inr (), r')"
  using assms
  by (auto simp: RenewSubscriptionWithBalance_def replayed_def tx_then_Inr Let_def split: option.splits if_splits)

lemma replay_Inr:
  "replayed entry r = Some res \<Longrightarrow> pr_Replayed res"
  by (auto simp: replayed_def split: if_splits)

lemma insertSubscription_Inr:
  "insertSubscription s r = (Inr u, r') \<Longrightarrow> r' = r\<lparr>r_subs := AList.update (s_ID s) s (r_subs r)\<rparr>"
  by (auto simp: insertSubscription_def split: if_splits)

lemma extendSubscription_quiet: "extendSubscription sub k r = (Inr u, r') \<Longrightarrow> quiet r r'"
  by (auto simp: extendSubscription_def Let_def split: option.splits if_splits)

lemma claimCode_quiet: "claimCode h now r = (Inr u, r') \<Longrightarrow> quiet r r'"
  by (auto simp: claimCode_def split: if_splits)

lemma allocate_quiet: "allocate d cs r = (res, r') \<Longrightarrow> quiet r r'"
  by (induction d cs r rule: allocate.induct) (auto split: if_splits)

lemma credit_Inr:
  assumes "CreditDeposit txID amt ts now c w entry r = (Inr d', r')"
  shows "\<exists>d r1 e. depositIntentForTransferTx amt ts r = Some d \<and> d' = paidIntent txID now d \<and>
    (\<forall>i x. (i, x) \<in> set (r_deposits r) \<longrightarrow> di_Status x = ''paid'' \<longrightarrow> di_TxID x \<noteq> txID) \<and>
    e = (depositEntry entry d txID now)\<lparr>be_BalanceAfterMicro := wrap64 (GetBalance (di_UserID d) r + di_AmountMicro d)\<rparr> \<and>
    posted e r r1 \<and> r_deposits r1 = r_deposits r \<and> r_subs r1 = r_subs r \<and>
    r' = AdvanceChainCursor c w (r1\<lparr>r_deposits := AList.update (di_ID d) d' (r_deposits r)\<rparr>)"
proof -
  obtain d where d: "depositIntentForTransferTx amt ts r = Some d" "d' = paidIntent txID now d"
    and fresh: "\<not> list_ex (\<lambda>(_, d). di_TxID d = txID \<and> di_Status d = ''paid'') (r_deposits r)"
    using assms by (auto simp: CreditDeposit_def tx_then_Inr split: if_splits option.splits)
  then obtain e r1 where e: "postEntry (depositEntry entry d txID now)
      (wrap64 (GetBalance (di_UserID d) r + di_AmountMicro d)) r = (Inr e, r1)"
    and r': "r' = AdvanceChainCursor c w (r1\<lparr>r_deposits := AList.update (di_ID d) d' (r_deposits r1)\<rparr>)"
    using assms by (auto simp: CreditDeposit_def tx_then_Inr balanceForUpdate_def GetBalance_def)
  have "posted e r r1"
    using postEntry_posted [OF e] by (simp add: depositEntry_def)
  moreover have "e = (depositEntry entry d txID now)\<lparr>be_BalanceAfterMicro := wrap64 (GetBalance (di_UserID d) r + di_AmountMicro d)\<rparr>"
    "r_deposits r1 = r_deposits r" "r_subs r1 = r_subs r"
    using e unfolding postEntry_Inr by auto
  ultimately show ?thesis
    using d r' fresh by (auto simp: list_ex_iff)
qed

text \<open>The entry a caller hands in, and what callers guarantee: 64-bit amounts, no negative deposit candidate.\<close>

fun opEntry :: "billing_op \<Rightarrow> BalanceEntry option" where
  "opEntry (BApply e) = Some e"
| "opEntry (BPurchase s e) = Some e"
| "opEntry (BRenew s k e) = Some e"
| "opEntry (BRedeem h e now) = Some e"
| "opEntry _ = None"

fun sane_op :: "billing_op \<Rightarrow> bool" where
  "sane_op (BOpen d cs now) = list_all (\<lambda>c. 0 \<le> c) cs"
| "sane_op op = (case opEntry op of None \<Rightarrow> True | Some e \<Rightarrow> in64 (be_DeltaMicro e))"

lemma subs_step_quiet: "(\<nexists>i. op = OpDeleteUser i) \<Longrightarrow> quiet r (subs_step op r)"
  by (cases op) (auto simp: quiet_def UpsertUserSubscription_def UpdateUserSubscriptionTerms_def AddSubscriptionUsedBytes_def
      ResetSubscriptionPeriod_def RevokeUserSubscription_def ExpireStaleSubscriptions_def DeletePlan_def writeSubscription_def
      Let_def split: option.splits)

text \<open>
  What an entry that reached the ledger is: the caller's with the new balance, or the deposit of an
  open intent. \<open>moved\<close> and \<open>credited\<close> are the two ways an operation can end.
\<close>

definition charged_entry :: "BalanceEntry \<Rightarrow> BalanceEntry \<Rightarrow> bool" where
  "charged_entry e0 e \<longleftrightarrow> 0 \<le> be_BalanceAfterMicro e \<and> (\<exists>v. e = e0\<lparr>be_BalanceAfterMicro := v\<rparr>)"

definition moved :: "BalanceEntry \<Rightarrow> StateRepo \<Rightarrow> StateRepo \<Rightarrow> bool" where
  "moved e0 r r' \<longleftrightarrow> quiet r r' \<or> (\<exists>e. posted e r r' \<and> charged_entry e0 e)"

definition deposit_entry :: "string \<Rightarrow> BalanceEntry \<Rightarrow> StateRepo \<Rightarrow> BalanceEntry \<Rightarrow> bool" where
  "deposit_entry txID e0 r e \<longleftrightarrow> (\<exists>d amt ts v now. depositIntentForTransferTx amt ts r = Some d \<and>
     e = (depositEntry e0 d txID now)\<lparr>be_BalanceAfterMicro := v\<rparr>)"

lemma moved_refl [simp]: "moved e r r"
  by (simp add: moved_def)

lemma charge_then_quiet:
  assumes "chargeInTx e0 r = (Inr e, r1)" "quiet r0 r" "quiet r1 r'"
  shows "moved e0 r0 r'"
  using chargeInTx_Inr [OF assms(1)] posted_quiet [OF _ assms(2,3), of e] unfolding moved_def charged_entry_def by blast

lemma moved_apply: "moved e r (snd (ApplyBalanceDelta e r))"
proof (cases "chargeInTx e r")
  case (Pair res r')
  then show ?thesis
    using chargeInTx_Inl [of e r] charge_then_quiet [of e r _ r' r r']
    by (cases res) (auto simp: ApplyBalanceDelta_def)
qed

lemma moved_purchase: "moved e r (snd (PurchasePlanWithBalance s e r))"
proof (cases "PurchasePlanWithBalance s e r")
  case (Pair res r')
  show ?thesis
  proof (cases "\<exists>x. res = Inr x \<and> \<not> pr_Replayed x")
    case True
    then obtain x r1 where x: "chargeInTx e r = (Inr (pr_Entry (x :: PurchaseResult)), r1)"
      "insertSubscription ((pr_Subscription x)\<lparr>s_PlanSnapshotJSON := orEmptySnapshot s\<rparr>) (expirePrevious (be_UserID e) r1) = (Inr (), r')"
      using purchase_Inr [of s e r _ r'] Pair by blast
    have "quiet r1 r'"
      using insertSubscription_Inr [OF x(2)] by (simp add: expirePrevious_def quiet_def)
    then show ?thesis
      using charge_then_quiet [OF x(1) quiet_refl] Pair by simp
  next
    case False
    then have "r' = r"
      using Pair by (cases res) (auto simp: PurchasePlanWithBalance_def tx_then_Inr Let_def dest: tx_then_Inl split: option.splits)
    then show ?thesis
      using Pair by simp
  qed
qed

lemma moved_renew: "moved e r (snd (RenewSubscriptionWithBalance s k e r))"
proof (cases "RenewSubscriptionWithBalance s k e r")
  case (Pair res r')
  show ?thesis
  proof (cases "\<exists>x. res = Inr x \<and> \<not> pr_Replayed x")
    case True
    then obtain x r1 where x: "chargeInTx e r = (Inr (pr_Entry (x :: PurchaseResult)), r1)" "extendSubscription s k r1 = (Inr (), r')"
      using renew_Inr [of s k e r _ r'] Pair by blast
    show ?thesis
      using charge_then_quiet [OF x(1) quiet_refl extendSubscription_quiet [OF x(2)]] Pair by simp
  next
    case False
    then have "r' = r"
      using Pair by (cases res) (auto simp: RenewSubscriptionWithBalance_def tx_then_Inr dest: tx_then_Inl split: option.splits)
    then show ?thesis
      using Pair by simp
  qed
qed

lemma moved_redeem: "moved e r (snd (RedeemCodeAndCredit h e now r))"
proof (cases "RedeemCodeAndCredit h e now r")
  case (Pair res r')
  show ?thesis
  proof (cases res)
    case (Inl err)
    then have "r' = r"
      using Pair by (auto simp: RedeemCodeAndCredit_def dest: tx_then_Inl)
    then show ?thesis
      using Pair by simp
  next
    case (Inr x)
    then obtain r1 where "claimCode h now r = (Inr (), r1)" "chargeInTx e r1 = (Inr x, r')"
      using Pair by (auto simp: RedeemCodeAndCredit_def tx_then_Inr)
    then show ?thesis
      using charge_then_quiet [OF _ claimCode_quiet quiet_refl, of e r1 x r' h now r] Pair by simp
  qed
qed

lemma credited:
  "quiet r (snd (CreditDeposit txID amt ts now c w e r)) \<or>
     (\<exists>x. posted x r (snd (CreditDeposit txID amt ts now c w e r)) \<and> deposit_entry txID e r x)"
proof (cases "CreditDeposit txID amt ts now c w e r")
  case (Pair res r')
  show ?thesis
  proof (cases res)
    case (Inl err)
    then show ?thesis
      using Pair by (auto simp: CreditDeposit_def dest!: tx_then_Inl split: if_splits option.splits)
  next
    case (Inr d')
    from credit_Inr [OF Pair [unfolded Inr]] obtain d r1 x where d: "depositIntentForTransferTx amt ts r = Some d" "posted x r r1"
      "x = (depositEntry e d txID now)\<lparr>be_BalanceAfterMicro := wrap64 (GetBalance (di_UserID d) r + di_AmountMicro d)\<rparr>"
      "r' = AdvanceChainCursor c w (r1\<lparr>r_deposits := AList.update (di_ID d) d' (r_deposits r)\<rparr>)"
      by blast
    have "quiet r1 r'"
      by (simp add: d(4) AdvanceChainCursor_def quiet_def)
    then have "posted x r r'"
      using posted_quiet [OF d(2) quiet_refl] by simp
    then show ?thesis
      using Pair d(1,3) unfolding deposit_entry_def by auto
  qed
qed

lemma quiet_open: "quiet r (snd (InsertDepositIntent d cs now r))"
proof (cases "InsertDepositIntent d cs now r")
  case (Pair res r')
  have "quiet (releaseExpiredDepositsTx now r) r2 \<Longrightarrow> quiet r r2" for r2
    by (simp add: releaseExpiredDepositsTx_def quiet_def)
  then show ?thesis
    using Pair by (cases res) (auto simp: InsertDepositIntent_def tx_then_Inr dest!: tx_then_Inl allocate_quiet split: if_splits)
qed

lemmas billing_effects = moved_apply moved_purchase moved_renew moved_redeem

lemma billing_step_cases:
  obtains (quiet) "quiet r (billing_step op r)"
    | (charge) e0 e where "posted e r (billing_step op r)" "opEntry op = Some e0" "charged_entry e0 e"
    | (deposit) txID amt ts now c w e0 e where "op = BCredit txID amt ts now c w e0"
        "posted e r (billing_step op r)" "deposit_entry txID e0 r e"
    | (deleted) i where "op = BSubs (OpDeleteUser i)"
proof (cases "opEntry op")
  case (Some e0)
  then have "moved e0 r (billing_step op r)"
    by (cases op) (auto simp: billing_effects)
  then show thesis
    using quiet charge Some unfolding moved_def by blast
next
  case None
  show thesis
  proof (cases op)
    case (BCredit txID amt ts now c w e)
    then show thesis
      using quiet deposit [OF BCredit] credited [of r txID amt ts now c w e] by auto
  next
    case (BSubs sop)
    then show thesis
      using quiet deleted subs_step_quiet [of sop r] by (cases "\<exists>i. sop = OpDeleteUser i") auto
  qed (use None quiet quiet_open in \<open>auto simp: SetSubscriptionAutoRenew_def InsertRedeemCode_def DeleteRedeemCode_def
      SweepDeposits_def AdvanceChainCursor_def quiet_def Let_def split: option.splits\<close>)
qed

section \<open>Balances and the ledger\<close>

definition entriesOf :: "string \<Rightarrow> BalanceEntry list \<Rightarrow> BalanceEntry list" where
  "entriesOf u ls = filter (\<lambda>e. be_UserID e = u) ls"

definition ledgerSum :: "string \<Rightarrow> BalanceEntry list \<Rightarrow> int" where
  "ledgerSum u ls = sum_list (map be_DeltaMicro (entriesOf u ls))"

definition credits :: "string \<Rightarrow> BalanceEntry list \<Rightarrow> int" where
  "credits u ls = sum_list (map (\<lambda>e. max 0 (be_DeltaMicro e)) (entriesOf u ls))"

named_theorems ledger_simps \<open>sums over a growing ledger\<close>

lemma ledgerSum_simps [ledger_simps]:
  "ledgerSum u [] = 0" "ledgerSum u (ls @ [e]) = ledgerSum u ls + (if be_UserID e = u then be_DeltaMicro e else 0)"
  by (simp_all add: ledgerSum_def entriesOf_def)

lemma credits_simps [ledger_simps]:
  "credits u [] = 0" "credits u (ls @ [e]) = credits u ls + (if be_UserID e = u then max 0 (be_DeltaMicro e) else 0)"
  by (simp_all add: credits_def entriesOf_def)

lemma ledgerSum_le_credits: "ledgerSum u ls \<le> credits u ls"
  unfolding ledgerSum_def credits_def by (induction "entriesOf u ls" arbitrary: ls) (auto intro: sum_list_mono)

lemma credits_mono: "credits u ls \<le> credits u (ls @ [e])"
  by (simp add: ledger_simps)

text \<open>
  The balance of an existing account is the wrapped sum of its entries; every entry records the
  balance after it; the sum of an account that was credited less than \<open>2^63\<close> in total is not negative.
\<close>

definition books_inv :: "StateRepo \<Rightarrow> bool" where
  "books_inv r \<longleftrightarrow> gm_wf (r_balance r) \<and>
     (\<forall>u. map_of (r_users r) u \<noteq> None \<longrightarrow> GetBalance u r = wrap64 (ledgerSum u (r_ledger r))) \<and>
     (\<forall>n < length (r_ledger r). be_BalanceAfterMicro (r_ledger r ! n) =
        wrap64 (ledgerSum (be_UserID (r_ledger r ! n)) (take (Suc n) (r_ledger r)))) \<and>
     (\<forall>u. credits u (r_ledger r) < 2 ^ 63 \<longrightarrow> 0 \<le> ledgerSum u (r_ledger r)) \<and>
     list_all (\<lambda>(_, d). 0 \<le> di_AmountMicro d) (r_deposits r)"

lemma books_invD:
  assumes "books_inv r"
  shows "gm_wf (r_balance r)" "map_of (r_users r) u \<noteq> None \<Longrightarrow> GetBalance u r = wrap64 (ledgerSum u (r_ledger r))"
    and "n < length (r_ledger r) \<Longrightarrow> be_BalanceAfterMicro (r_ledger r ! n) =
        wrap64 (ledgerSum (be_UserID (r_ledger r ! n)) (take (Suc n) (r_ledger r)))"
    and "credits u (r_ledger r) < 2 ^ 63 \<Longrightarrow> 0 \<le> ledgerSum u (r_ledger r)"
    and "list_all (\<lambda>(_, d). 0 \<le> di_AmountMicro d) (r_deposits r)"
  using assms by (simp_all add: books_inv_def)

lemma newest_mem: "newest ds = Some d \<Longrightarrow> d \<in> set ds"
  by (induction ds arbitrary: d) (auto split: option.splits if_splits)

lemma transfer_intent:
  assumes "depositIntentForTransferTx amt ts r = Some d"
  shows "ownsTransfer amt ts d" "\<exists>i. (i, d) \<in> set (r_deposits r)"
  using newest_mem [OF assms [unfolded depositIntentForTransferTx_def]] by auto

text \<open>What an operation does to the intents, one at a time.\<close>

lemma allocate_deposits:
  "allocate d cs r = (Inr x, r') \<Longrightarrow> \<exists>c\<in>set cs. x = pendingIntent d c \<and> map_of (r_deposits r) (di_ID d) = None \<and>
     \<not> list_ex (\<lambda>(_, d). di_AmountMicro d = c \<and> holdsAmount d) (r_deposits r) \<and>
     r' = r\<lparr>r_deposits := AList.update (di_ID d) x (r_deposits r)\<rparr>"
  by (induction d cs r rule: allocate.induct) (auto split: if_splits)

lemma open_Inr:
  assumes "InsertDepositIntent d cs now r = (Inr x, r')"
  shows "\<exists>c\<in>set cs. x = pendingIntent d c \<and> map_of (r_deposits (releaseExpiredDepositsTx now r)) (di_ID d) = None \<and>
     \<not> list_ex (\<lambda>(_, d). di_AmountMicro d = c \<and> holdsAmount d) (r_deposits (releaseExpiredDepositsTx now r)) \<and>
     r_deposits r' = AList.update (di_ID d) x (r_deposits (releaseExpiredDepositsTx now r))"
proof -
  have "allocate d cs (releaseExpiredDepositsTx now r) = (Inr x, r')"
    using assms by (auto simp: InsertDepositIntent_def tx_then_Inr split: if_splits)
  from allocate_deposits [OF this] show ?thesis
    by auto
qed

lemma open_Inl: "InsertDepositIntent d cs now r = (Inl err, r') \<Longrightarrow> r' = r"
  by (auto simp: InsertDepositIntent_def dest: tx_then_Inl split: if_splits)

lemma credit_Inl: "CreditDeposit txID amt ts now c w e r = (Inl err, r') \<Longrightarrow> r' = r"
  by (auto simp: CreditDeposit_def dest: tx_then_Inl split: if_splits option.splits)

lemma amount_aged [simp]:
  "di_AmountMicro (releaseExpired now d) = di_AmountMicro d" "di_AmountMicro (markUnpaid now d) = di_AmountMicro d"
  "di_AmountMicro (paidIntent txID now d) = di_AmountMicro d" "di_AmountMicro (pendingIntent d amt) = amt"
  by (simp_all add: releaseExpired_def markUnpaid_def paidIntent_def pendingIntent_def)

lemma books_posted:
  assumes inv: "books_inv r" and post: "posted e r r'"
    and e: "0 \<le> be_BalanceAfterMicro e \<and> in64 (be_DeltaMicro e) \<or> 0 \<le> be_DeltaMicro e"
    and dep: "list_all (\<lambda>(_, d). 0 \<le> di_AmountMicro d) (r_deposits r')"
  shows "books_inv r'"
proof -
  note D = books_invD [OF inv]
  let ?u = "be_UserID e" and ?ls = "r_ledger r"
  have r': "r_users r' = r_users r" "r_ledger r' = ?ls @ [e]" "map_of (r_users r) ?u \<noteq> None"
    "r_balance r' = AList.update ?u (be_BalanceAfterMicro e) (r_balance r)"
    and after: "be_BalanceAfterMicro e = wrap64 (ledgerSum ?u (?ls @ [e]))"
    using post D(2) [of ?u] by (auto simp: posted_def ledger_simps wrap_simps)
  have "GetBalance u r' = wrap64 (ledgerSum u (r_ledger r'))" if "map_of (r_users r') u \<noteq> None" for u
    using that D(2) [of u] after by (auto simp: r' GetBalance_def gomap_simps ledger_simps)
  moreover have "be_BalanceAfterMicro (r_ledger r' ! n) = wrap64 (ledgerSum (be_UserID (r_ledger r' ! n)) (take (Suc n) (r_ledger r')))"
    if "n < length (r_ledger r')" for n
    using that D(3) [of n] after by (auto simp: r' nth_append less_Suc_eq)
  moreover have "0 \<le> ledgerSum u (?ls @ [e])" if "credits u (?ls @ [e]) < 2 ^ 63" for u
  proof (cases "u = ?u")
    case True
    have "0 \<le> ledgerSum u ?ls"
      using that credits_mono [of u ?ls e] by (intro D(4)) linarith
    moreover have "ledgerSum u (?ls @ [e]) < 2 ^ 63"
      using that ledgerSum_le_credits [of u "?ls @ [e]"] by linarith
    ultimately have "0 \<le> be_DeltaMicro e \<or> in64 (ledgerSum u (?ls @ [e]))"
      using e True by (auto simp: ledger_simps in64_def)
    then show ?thesis
      using \<open>0 \<le> ledgerSum u ?ls\<close> e True after by (auto simp: ledger_simps)
  next
    case False
    then show ?thesis
      using that D(4) [of u] by (simp add: ledger_simps)
  qed
  ultimately show ?thesis
    using D(1) dep by (simp add: books_inv_def r')
qed

fun deposit_op :: "billing_op \<Rightarrow> bool" where
  "deposit_op (BOpen d cs now) = True"
| "deposit_op (BSweep now) = True"
| "deposit_op (BCredit txID amt ts now c w e) = True"
| "deposit_op _ = False"

text \<open>
  A table that the writes to accounts, plans, subscriptions and the ledger leave alone is the same after
  every operation that consists of such writes only.
\<close>

lemma tx_then_frame:
  assumes "\<And>s. view (snd (first s)) = view s" "\<And>x s. view (snd (rest x s)) = view s"
  shows "view (snd (tx_then first rest s)) = view s"
proof (cases "first s")
  case (Pair res s1)
  then show ?thesis
    using assms(1) [of s] assms(2) [of _ s1] by (cases res) (auto simp: tx_then_def split: prod.splits sum.splits, metis snd_conv)
qed

locale other_table =
  fixes view :: "StateRepo \<Rightarrow> 'a"
  assumes frame: "view (r\<lparr>r_users := us\<rparr>) = view r" "view (r\<lparr>r_plans := ps\<rparr>) = view r" "view (r\<lparr>r_subs := ss\<rparr>) = view r"
    "view (r\<lparr>r_balance := bs\<rparr>) = view r" "view (r\<lparr>r_ledger := ls\<rparr>) = view r"
begin

lemma charge_frame: "view (snd (chargeInTx e r)) = view r"
  by (auto simp: chargeInTx_def Let_def postEntry_def writeBalance_def insertLedger_def frame intro!: tx_then_frame)

lemma purchase_frame: "view (snd (PurchasePlanWithBalance s e r)) = view r"
proof -
  have "view (snd (insertSubscription x y)) = view y" for x y
    by (simp add: insertSubscription_def frame)
  then have "view (snd (tx_then (insertSubscription x) (\<lambda>_ r2. (Inr res, r2)) y)) = view y" for x y and res :: PurchaseResult
    by (rule tx_then_frame) simp
  moreover have "view (expirePrevious u y) = view y" for u y
    by (simp add: expirePrevious_def frame)
  ultimately show ?thesis
    by (auto simp: PurchasePlanWithBalance_def Let_def charge_frame intro!: tx_then_frame split: option.splits)
qed

lemma renew_frame: "view (snd (RenewSubscriptionWithBalance s k e r)) = view r"
proof -
  have "view (snd (extendSubscription x j y)) = view y" for x j y
    by (simp add: extendSubscription_def Let_def frame split: option.splits)
  then show ?thesis
    by (auto simp: RenewSubscriptionWithBalance_def charge_frame intro!: tx_then_frame split: option.splits)
qed

lemma subs_frame: "view (subs_step op r) = view r"
  by (cases op) (auto simp: UpsertUserSubscription_def UpdateUserSubscriptionTerms_def AddSubscriptionUsedBytes_def
      ResetSubscriptionPeriod_def RevokeUserSubscription_def ExpireStaleSubscriptions_def DeletePlan_def DeleteUser_def
      writeSubscription_def Let_def frame split: option.splits)

lemma autoRenew_frame: "view (snd (SetSubscriptionAutoRenew i b r)) = view r"
  by (simp add: SetSubscriptionAutoRenew_def frame split: option.splits)

lemma apply_frame: "view (snd (ApplyBalanceDelta e r)) = view r"
  by (simp add: ApplyBalanceDelta_def charge_frame)

lemmas money_frame = purchase_frame renew_frame subs_frame autoRenew_frame apply_frame

end

interpretation deposit_table: other_table r_deposits
  by unfold_locales simp_all

interpretation code_table: other_table r_codes
  by unfold_locales simp_all

lemma deposits_frame: "\<not> deposit_op op \<Longrightarrow> r_deposits (billing_step op r) = r_deposits r"
proof (cases op)
  case (BRedeem h e now)
  have "r_deposits (snd (claimCode h now y)) = r_deposits y" for y
    by (simp add: claimCode_def)
  then show ?thesis
    by (auto simp: BRedeem RedeemCodeAndCredit_def deposit_table.charge_frame intro!: tx_then_frame)
qed (auto simp: deposit_table.money_frame InsertRedeemCode_def DeleteRedeemCode_def AdvanceChainCursor_def split: option.splits)

fun code_op :: "billing_op \<Rightarrow> bool" where
  "code_op (BInsertCode c) = True"
| "code_op (BDeleteCode i) = True"
| "code_op (BRedeem h e now) = True"
| "code_op _ = False"

lemma codes_frame: "\<not> code_op op \<Longrightarrow> r_codes (billing_step op r) = r_codes r"
proof (cases op)
  case (BOpen d cs now)
  have "r_codes (snd (allocate d cs y)) = r_codes y" for y
    by (induction d cs y rule: allocate.induct) auto
  then show ?thesis
    by (auto simp: BOpen InsertDepositIntent_def releaseExpiredDepositsTx_def intro!: tx_then_frame)
next
  case (BCredit txID amt ts now c w e)
  have "r_codes (snd (postEntry x v y)) = r_codes y" for x v y
    by (auto simp: postEntry_def writeBalance_def insertLedger_def intro!: tx_then_frame)
  then show ?thesis
    by (auto simp: BCredit CreditDeposit_def AdvanceChainCursor_def intro!: tx_then_frame split: option.splits)
qed (auto simp: code_table.money_frame SweepDeposits_def AdvanceChainCursor_def Let_def)

lemma list_all_update: "P (k, v) \<Longrightarrow> list_all P m \<Longrightarrow> list_all P (AList.update k v m)"
  using set_gm_update_subset [of k v m] by (auto simp: list_all_iff)

abbreviation nonneg_amounts :: "(string, DepositIntent) gomap \<Rightarrow> bool" where
  "nonneg_amounts m \<equiv> list_all (\<lambda>(_, d). 0 \<le> di_AmountMicro d) m"

lemma nonneg_map: "(\<And>d. di_AmountMicro (f d) = di_AmountMicro d) \<Longrightarrow> nonneg_amounts (map (\<lambda>(i, d). (i, f d)) m) = nonneg_amounts m"
  by (induction m) auto

lemma nonneg_open:
  assumes "nonneg_amounts (r_deposits r)" "list_all (\<lambda>c. 0 \<le> c) cs"
  shows "nonneg_amounts (r_deposits (snd (InsertDepositIntent d cs now r)))"
proof (cases "InsertDepositIntent d cs now r")
  case (Pair res r')
  show ?thesis
  proof (cases res)
    case (Inl err)
    then show ?thesis
      using assms(1) open_Inl [of d cs now r err r'] Pair by simp
  next
    case (Inr x)
    then obtain c where c: "c \<in> set cs" "x = pendingIntent d c"
      "r_deposits r' = AList.update (di_ID d) x (r_deposits (releaseExpiredDepositsTx now r))"
      using open_Inr [of d cs now r x r'] Pair by auto
    have "nonneg_amounts (r_deposits (releaseExpiredDepositsTx now r))"
      using assms(1) by (simp add: releaseExpiredDepositsTx_def nonneg_map)
    moreover have "0 \<le> c"
      using assms(2) c(1) by (simp add: list_all_iff)
    ultimately have "nonneg_amounts (AList.update (di_ID d) x (r_deposits (releaseExpiredDepositsTx now r)))"
      by (intro list_all_update) (simp_all add: c(2))
    then show ?thesis
      using Pair c(3) by simp
  qed
qed

lemma nonneg_credit:
  assumes "nonneg_amounts (r_deposits r)"
  shows "nonneg_amounts (r_deposits (snd (CreditDeposit txID amt ts now c w e r)))"
proof (cases "CreditDeposit txID amt ts now c w e r")
  case (Pair res r')
  show ?thesis
  proof (cases res)
    case (Inl err)
    then show ?thesis
      using assms credit_Inl [of txID amt ts now c w e r err r'] Pair by simp
  next
    case (Inr d')
    then obtain d where d: "depositIntentForTransferTx amt ts r = Some d" "d' = paidIntent txID now d"
      "r_deposits r' = AList.update (di_ID d) d' (r_deposits r)"
      using credit_Inr [of txID amt ts now c w e r d' r'] Pair by (auto simp: AdvanceChainCursor_def)
    have "nonneg_amounts (AList.update (di_ID d) d' (r_deposits r))"
      by (rule list_all_update) (use assms d(2) transfer_intent(2) [OF d(1)] in \<open>auto simp: list_all_iff\<close>)
    then show ?thesis
      using Pair d(3) by simp
  qed
qed

lemma nonneg_step: "nonneg_amounts (r_deposits r) \<Longrightarrow> sane_op op \<Longrightarrow> nonneg_amounts (r_deposits (billing_step op r))"
proof (cases "deposit_op op")
  case True
  then show "nonneg_amounts (r_deposits r) \<Longrightarrow> sane_op op \<Longrightarrow> nonneg_amounts (r_deposits (billing_step op r))"
    by (cases op) (simp_all add: nonneg_open nonneg_credit SweepDeposits_def Let_def nonneg_map del: map_map)
qed (simp add: deposits_frame)

interpretation books: guarded_machine billing_step books_inv sane_op
proof (unfold_locales, goal_cases)
  case (1 op r)
  note D = books_invD [OF 1(2)]
  have dep: "nonneg_amounts (r_deposits (billing_step op r))"
    by (rule nonneg_step [OF D(5) 1(1)])
  show ?case
  proof (cases rule: billing_step_cases [of r op])
    case quiet
    then show ?thesis
      using 1(2) dep by (simp add: books_inv_def quiet_def GetBalance_def)
  next
    case (charge e0 e)
    have "in64 (be_DeltaMicro e0)"
      using 1(1) charge(2) by (cases op) auto
    then have "0 \<le> be_BalanceAfterMicro e \<and> in64 (be_DeltaMicro e)"
      using charge(3) by (auto simp: charged_entry_def)
    then show ?thesis
      using books_posted [OF 1(2) charge(1) _ dep] by blast
  next
    case (deposit txID amt ts now c w e0 e)
    from deposit(3) obtain d amt' ts' where d: "depositIntentForTransferTx amt' ts' r = Some d" "be_DeltaMicro e = di_AmountMicro d"
      by (auto simp: deposit_entry_def depositEntry_def)
    have "0 \<le> be_DeltaMicro e"
      using transfer_intent(2) [OF d(1)] D(5) d(2) by (auto simp: list_all_iff)
    then show ?thesis
      using books_posted [OF 1(2) deposit(2) _ dep] by blast
  next
    case (deleted i)
    then show ?thesis
      using 1(2) dep by (auto simp: books_inv_def DeleteUser_def GetBalance_def gomap_simps split: option.splits)
  qed
qed

text \<open>
  C2. Money is the sum of its movements. Whatever administrators, customers, redemptions, on-chain
  credits, renewals and deletions did since the books were empty, an existing account that was
  credited less than \<open>2^63\<close> micro-units in total has exactly the sum of its ledger entries as its balance,
  the balance is not negative, and every entry of the ledger records the balance as it stood after it.
\<close>
theorem balance_is_ledger_sum:
  assumes "r_balance r0 = []" "r_ledger r0 = []" "r_deposits r0 = []" "list_all sane_op ops"
    and "r = fold billing_step ops r0" "map_of (r_users r) u \<noteq> None" "credits u (r_ledger r) < 2 ^ 63"
  shows "GetBalance u r = ledgerSum u (r_ledger r) \<and> 0 \<le> GetBalance u r \<and>
    (\<forall>n. n < length (r_ledger r) \<longrightarrow> be_BalanceAfterMicro (r_ledger r ! n) =
       wrap64 (ledgerSum (be_UserID (r_ledger r ! n)) (take (Suc n) (r_ledger r))))"
proof -
  have inv: "books_inv r"
    unfolding assms(5) by (rule books.inv_ok_run [OF assms(4)]) (simp add: books_inv_def assms(1-3) GetBalance_def ledger_simps)
  note D = books_invD [OF inv]
  have "0 \<le> ledgerSum u (r_ledger r)" "ledgerSum u (r_ledger r) < 2 ^ 63"
    using D(4) [OF assms(7)] ledgerSum_le_credits [of u "r_ledger r"] assms(7) by simp_all
  then show ?thesis
    using D(2) [OF assms(6)] D(3) by (simp add: in64_def)
qed

theorem balance_is_ledger_sum_witness:
  "let r = fold billing_step
      [BApply (exampleEntry ''e1'' ''u1'' 500 ''''), BApply (exampleEntry ''e2'' ''u1'' (- 200) ''''),
       BApply (exampleEntry ''e3'' ''u1'' (- 400) '''')] exampleBooks
   in GetBalance ''u1'' r = 300 \<and> length (r_ledger r) = 2"
proof -
  let ?ops = "[BApply (exampleEntry ''e1'' ''u1'' 500 ''''), BApply (exampleEntry ''e2'' ''u1'' (- 200) ''''),
       BApply (exampleEntry ''e3'' ''u1'' (- 400) '''')]"
  have facts: "r_balance exampleBooks = []" "r_ledger exampleBooks = []" "r_deposits exampleBooks = []" "list_all sane_op ?ops"
    "map_of (r_users (fold billing_step ?ops exampleBooks)) ''u1'' \<noteq> None"
    "credits ''u1'' (r_ledger (fold billing_step ?ops exampleBooks)) < 2 ^ 63"
    "ledgerSum ''u1'' (r_ledger (fold billing_step ?ops exampleBooks)) = 300"
    "length (r_ledger (fold billing_step ?ops exampleBooks)) = 2"
    by code_simp+
  show ?thesis
    using balance_is_ledger_sum [OF facts(1-4) refl facts(5,6)] facts(7,8) by (simp add: Let_def)
qed

section \<open>A request is settled once\<close>

lemma ledger_grows: "\<exists>ls. r_ledger (billing_step op r) = r_ledger r @ ls"
  by (cases rule: billing_step_cases [of r op]) (auto simp: quiet_def posted_def DeleteUser_def split: option.splits)

lemma ledger_grows_run: "\<exists>ls. r_ledger (fold billing_step ops r) = r_ledger r @ ls"
proof (induction ops arbitrary: r)
  case (Cons op ops)
  then show ?case
    using ledger_grows [of op r] by (metis append.assoc fold_simps(2))
qed simp

lemma find_append: "find P xs = Some x \<Longrightarrow> find P (xs @ ys) = Some x"
  by (induction xs) auto

lemma find_last: "\<not> list_ex P xs \<Longrightarrow> P x \<Longrightarrow> find P (xs @ [x]) = Some x"
  by (induction xs) auto

lemma settled_by_charge:
  assumes "chargeInTx entry r = (Inr e, r1)" "be_RequestID entry \<noteq> ''''" "r_ledger r2 = r_ledger r1"
  shows "ledgerEntryByRequest (be_UserID entry) (be_RequestID entry) r2 = Some e"
proof -
  have e: "be_UserID e = be_UserID entry" "be_RequestID e = be_RequestID entry" "posted e r r1"
    using chargeInTx_Inr [OF assms(1)] by (auto simp: posted_def)
  then show ?thesis
    using assms(2,3) unfolding ledgerEntryByRequest_def posted_def requestTaken_def by (auto intro!: find_last)
qed

lemma settled_stays:
  "ledgerEntryByRequest u q r = Some e \<Longrightarrow> ledgerEntryByRequest u q (fold billing_step ops r) = Some e"
  using ledger_grows_run [of ops r] by (auto simp: ledgerEntryByRequest_def intro: find_append)

lemma replay_settled:
  "replayed entry r = Some res \<Longrightarrow> ledgerEntryByRequest (be_UserID entry) (be_RequestID entry) r = Some (pr_Entry res)"
  by (auto simp: replayed_def split: if_splits)

lemma purchase_settles:
  assumes "PurchasePlanWithBalance sub entry r = (Inr res, r1)" "be_RequestID entry \<noteq> ''''"
  shows "ledgerEntryByRequest (be_UserID entry) (be_RequestID entry) r1 = Some (pr_Entry res)"
proof (cases "pr_Replayed res")
  case True
  then show ?thesis
    using assms(1) by (auto simp: PurchasePlanWithBalance_def tx_then_Inr Let_def dest: replay_settled split: option.splits)
next
  case False
  then obtain r2 where r2: "chargeInTx entry r = (Inr (pr_Entry res), r2)"
    "insertSubscription ((pr_Subscription res)\<lparr>s_PlanSnapshotJSON := orEmptySnapshot sub\<rparr>) (expirePrevious (be_UserID entry) r2) = (Inr (), r1)"
    using purchase_Inr [OF assms(1)] by blast
  show ?thesis
    using settled_by_charge [OF r2(1) assms(2)] insertSubscription_Inr [OF r2(2)] by (simp add: expirePrevious_def)
qed

lemma renew_settles:
  assumes "RenewSubscriptionWithBalance sub k entry r = (Inr res, r1)" "be_RequestID entry \<noteq> ''''"
  shows "ledgerEntryByRequest (be_UserID entry) (be_RequestID entry) r1 = Some (pr_Entry res)"
proof (cases "pr_Replayed res")
  case True
  then show ?thesis
    using assms(1) by (auto simp: RenewSubscriptionWithBalance_def tx_then_Inr dest: replay_settled split: option.splits)
next
  case False
  then obtain r2 where r2: "chargeInTx entry r = (Inr (pr_Entry res), r2)" "extendSubscription sub k r2 = (Inr (), r1)"
    using renew_Inr [OF assms(1)] by blast
  show ?thesis
    using settled_by_charge [OF r2(1) assms(2)] extendSubscription_quiet [OF r2(2)] by (simp add: quiet_def)
qed

text \<open>
  C16. A retry is never charged again. Once a purchase or a renewal with a request id was answered, every
  later purchase or renewal of the same user with that id, after any operations in between, is answered
  with the ledger entry of the first one, charges nothing and changes nothing.
\<close>
theorem request_settled_once:
  assumes "PurchasePlanWithBalance sub entry r = (Inr res, r1) \<or> RenewSubscriptionWithBalance sub k entry r = (Inr res, r1)"
    and "be_RequestID entry \<noteq> ''''" "be_UserID entry' = be_UserID entry" "be_RequestID entry' = be_RequestID entry"
    and "r' = fold billing_step ops r1"
    and "answer = \<lparr>pr_Entry = pr_Entry res, pr_Subscription = activeSubscriptionTx (be_UserID entry) r', pr_Replayed = True\<rparr>"
  shows "PurchasePlanWithBalance sub' entry' r' = (Inr answer, r') \<and> RenewSubscriptionWithBalance sub' k' entry' r' = (Inr answer, r')"
proof -
  have "ledgerEntryByRequest (be_UserID entry) (be_RequestID entry) r1 = Some (pr_Entry res)"
    using assms(1,2) purchase_settles renew_settles by blast
  then have "ledgerEntryByRequest (be_UserID entry) (be_RequestID entry) r' = Some (pr_Entry res)"
    unfolding assms(5) by (rule settled_stays)
  then have "replayed entry' r' = Some answer"
    using assms(2-4) by (simp add: replayed_def assms(6))
  then show ?thesis
    by (simp add: PurchasePlanWithBalance_def RenewSubscriptionWithBalance_def)
qed

theorem request_settled_once_witness:
  "let r = snd (ApplyBalanceDelta (exampleEntry ''e1'' ''u1'' 500 '''') exampleBooks);
       (res, r1) = PurchasePlanWithBalance (exampleSubscription ''a'' ''u1'' 0) (exampleEntry ''e2'' ''u1'' (- 200) ''q'') r;
       r2 = snd (ApplyBalanceDelta (exampleEntry ''e3'' ''u1'' (- 100) '''') r1)
   in GetBalance ''u1'' r1 = 300 \<and>
      snd (PurchasePlanWithBalance (exampleSubscription ''b'' ''u1'' 0) (exampleEntry ''e4'' ''u1'' (- 200) ''q'') r2) = r2"
proof -
  let ?r = "snd (ApplyBalanceDelta (exampleEntry ''e1'' ''u1'' 500 '''') exampleBooks)"
  let ?first = "PurchasePlanWithBalance (exampleSubscription ''a'' ''u1'' 0) (exampleEntry ''e2'' ''u1'' (- 200) ''q'') ?r"
  have "(case fst ?first of Inr _ \<Rightarrow> True | Inl _ \<Rightarrow> False) \<and> GetBalance ''u1'' (snd ?first) = 300"
    by code_simp
  then obtain res r1 where first: "?first = (Inr res, r1)" "GetBalance ''u1'' r1 = 300"
    by (cases ?first) (auto split: sum.splits)
  have "snd (PurchasePlanWithBalance (exampleSubscription ''b'' ''u1'' 0) (exampleEntry ''e4'' ''u1'' (- 200) ''q'')
      (fold billing_step [BApply (exampleEntry ''e3'' ''u1'' (- 100) '''')] r1)) =
    fold billing_step [BApply (exampleEntry ''e3'' ''u1'' (- 100) '''')] r1"
    using request_settled_once [OF disjI1 [OF first(1)] _ _ _ refl refl,
        where entry' = "exampleEntry ''e4'' ''u1'' (- 200) ''q''" and sub' = "exampleSubscription ''b'' ''u1'' 0"
          and ops = "[BApply (exampleEntry ''e3'' ''u1'' (- 100) '''')]"]
    by (simp add: exampleEntry_def)
  then show ?thesis
    using first by (simp add: Let_def)
qed

section \<open>Purchases\<close>

lemma subs_inv_money: "subs_inv (r\<lparr>r_balance := b, r_ledger := l\<rparr>) = subs_inv r"
  by (simp add: subs_inv_def foreign_keys_ok_def)

lemma subs_inv_expirePrevious: "subs_inv r \<Longrightarrow> subs_inv (expirePrevious u r)"
  by (rule subs_inv_map [where f = "\<lambda>s. if s_UserID s = u \<and> active_sub s then s\<lparr>s_Status := SubscriptionStatusExpired\<rparr> else s"])
    (auto simp: expirePrevious_def subs_invD split: if_splits)

lemma subs_inv_insert:
  assumes "subs_inv r" "insertSubscription s r = (Inr u, r')"
  shows "subs_inv r'"
proof -
  have ok: "status_check s" "\<not> active_taken s r" "foreign_keys_ok s r"
    using assms(2) by (auto simp: insertSubscription_def active_taken_def list_ex_iff split: if_splits)
  then have "r' = snd (writeSubscription s r)"
    using insertSubscription_Inr [OF assms(2)] by (simp add: writeSubscription_def)
  then show ?thesis
    using subs_inv_write [OF assms(1)] by simp
qed

lemma subs_inv_extend:
  assumes inv: "subs_inv r" and ext: "extendSubscription sub k r = (Inr u, r')"
  shows "subs_inv r'"
proof -
  obtain old new where old: "map_of (r_subs r) (s_ID sub) = Some old" "\<not> active_taken new r"
    and new: "new = old\<lparr>s_PlanSnapshotJSON := orEmptySnapshot sub, s_ExpiresAtNs := s_ExpiresAtNs sub,
      s_PeriodIndex := s_PeriodIndex sub, s_PeriodStartNs := s_PeriodStartNs sub, s_PeriodUsedBytes := 0,
      s_Status := SubscriptionStatusActive\<rparr>"
    and r': "r' = r\<lparr>r_subs := AList.update (s_ID sub) new (r_subs r)\<rparr>"
    using ext by (auto simp: extendSubscription_def Let_def split: option.splits if_splits)
  have "s_ID new = s_ID sub" "status_check new" "foreign_keys_ok new r"
    using subs_invD(5,7) [OF inv old(1)] by (simp_all add: new status_check_def foreign_keys_ok_def)
  then have "r' = snd (writeSubscription new r)"
    using old(2) by (simp add: r' writeSubscription_def)
  then show ?thesis
    using subs_inv_write [OF inv] by simp
qed

lemma purchase_refused:
  assumes call: "PurchasePlanWithBalance sub entry r = (Inl err, r')"
  shows "r' = r \<and> (err = ErrInsufficientBalance \<longleftrightarrow> wrap64 (GetBalance (be_UserID entry) r + be_DeltaMicro entry) < 0)"
proof -
  have none: "replayed entry r = None" and tx: "r' = r"
    using call by (auto simp: PurchasePlanWithBalance_def dest: tx_then_Inl split: option.splits)
  have ins: "err \<noteq> ErrInsufficientBalance" if "insertSubscription s x = (Inl err, y)" for s x y
    using that by (auto simp: insertSubscription_def split: if_splits)
  show ?thesis
    using call none ins tx
    by (auto simp: PurchasePlanWithBalance_def tx_then_def Let_def chargeInTx_def postEntry_def writeBalance_def insertLedger_def
        balanceForUpdate_def GetBalance_def split: prod.splits sum.splits if_splits)
qed

lemma purchase_stored:
  assumes inv: "subs_inv r" and call: "PurchasePlanWithBalance sub entry r = (Inr res, r')" "\<not> pr_Replayed res"
  shows "GetBalance (be_UserID entry) r' = be_BalanceAfterMicro (pr_Entry res) \<and> r_ledger r' = r_ledger r @ [pr_Entry res] \<and>
    subs_inv r' \<and> (\<exists>s. map_of (r_subs r') (s_ID sub) = Some s \<and> s_ID s = s_ID sub \<and> s_UserID s = s_UserID sub)"
proof -
  let ?s = "(pr_Subscription res)\<lparr>s_PlanSnapshotJSON := orEmptySnapshot sub\<rparr>"
  obtain r1 where r1: "chargeInTx entry r = (Inr (pr_Entry res), r1)"
    "pr_Subscription res = sub\<lparr>s_Status := (if s_Status sub = '''' then SubscriptionStatusActive else s_Status sub)\<rparr>"
    "insertSubscription ?s (expirePrevious (be_UserID entry) r1) = (Inr (), r')"
    using purchase_Inr [OF call] by blast
  note c = chargeInTx_Inr [OF r1(1)]
  have "subs_inv r1"
    using inv c by (metis subs_inv_money)
  then have inv': "subs_inv r'"
    by (rule subs_inv_insert [OF subs_inv_expirePrevious r1(3)])
  have r': "r' = (expirePrevious (be_UserID entry) r1)\<lparr>r_subs :=
      AList.update (s_ID ?s) ?s (r_subs (expirePrevious (be_UserID entry) r1))\<rparr>"
    by (rule insertSubscription_Inr [OF r1(3)])
  then have "map_of (r_subs r') (s_ID sub) = Some ?s" "s_UserID ?s = s_UserID sub" "s_ID ?s = s_ID sub"
    by (simp_all add: r1(2) gomap_simps)
  moreover have "GetBalance (be_UserID entry) r' = be_BalanceAfterMicro (pr_Entry res)" "r_ledger r' = r_ledger r @ [pr_Entry res]"
    using c by (auto simp: r' expirePrevious_def GetBalance_def gomap_simps)
  ultimately show ?thesis
    using inv' by blast
qed



end
