(* ===== verification/Deposits.thy ===== *)
theory Deposits
  imports Billing
begin

text \<open>
  What the operations of \<open>Billing\<close> guarantee about on-chain deposits and redeem codes.

  The deposit entries of the ledger are exactly the paid intents, each transfer once. When time does
  not run backwards, a transfer falls into the window of at most one unpaid intent with its amount, so
  the owner of a transfer does not depend on the order of the rows. A code is never redeemed more often
  than it allows.
\<close>

section \<open>The rows of the deposit table\<close>

definition intents_wf :: "StateRepo \<Rightarrow> bool" where
  "intents_wf r \<longleftrightarrow> gm_wf (r_deposits r) \<and> (\<forall>i d. map_of (r_deposits r) i = Some d \<longrightarrow> di_ID d = i)"

lemma intents_wfD:
  assumes "intents_wf r"
  shows "gm_wf (r_deposits r)" "map_of (r_deposits r) i = Some d \<Longrightarrow> di_ID d = i"
    "(i, d) \<in> set (r_deposits r) \<longleftrightarrow> map_of (r_deposits r) i = Some d"
proof -
  show wf: "gm_wf (r_deposits r)"
    using assms by (simp add: intents_wf_def)
  show "map_of (r_deposits r) i = Some d \<Longrightarrow> di_ID d = i"
    using assms by (simp add: intents_wf_def)
  show "(i, d) \<in> set (r_deposits r) \<longleftrightarrow> map_of (r_deposits r) i = Some d"
    by (rule gm_mem_iff [OF wf])
qed

lemma id_aged [simp]:
  "di_ID (releaseExpired now d) = di_ID d" "di_ID (markUnpaid now d) = di_ID d"
  "di_ID (paidIntent txID now d) = di_ID d" "di_ID (pendingIntent d amt) = di_ID d"
  by (simp_all add: releaseExpired_def markUnpaid_def paidIntent_def pendingIntent_def)

text \<open>
  The ways a step changes an intent: it ages, one is opened under a free id and amount, or the
  intent that owns a transfer is paid.
\<close>

definition aged :: "int \<Rightarrow> DepositIntent \<Rightarrow> DepositIntent \<Rightarrow> bool" where
  "aged now d d' \<longleftrightarrow> d' = d \<or> d' = releaseExpired now d \<or> d' = releaseExpired now (markUnpaid now d)"

lemma aged_sel:
  assumes "aged now d d'"
  shows "di_ID d' = di_ID d" "di_UserID d' = di_UserID d" "di_AmountMicro d' = di_AmountMicro d" "di_TxID d' = di_TxID d"
    "di_CreatedAtNs d' = di_CreatedAtNs d" "di_HoldUntilNs d' = di_HoldUntilNs d"
    "di_Status d' = ''paid'' \<longleftrightarrow> di_Status d = ''paid''"
    "di_Status d' \<noteq> di_Status d \<Longrightarrow> holdsAmount d \<and> (holdsAmount d' \<or> di_Status d' = ''released'' \<and> di_HoldUntilNs d \<le> now)"
  using assms by (auto simp: aged_def releaseExpired_def markUnpaid_def holdsAmount_def split: if_splits)

definition ages_to :: "int \<Rightarrow> (string, DepositIntent) gomap \<Rightarrow> (string, DepositIntent) gomap \<Rightarrow> bool" where
  "ages_to now m m' \<longleftrightarrow> (\<exists>f. (\<forall>d. aged now d (f d)) \<and> m' = map (\<lambda>(i, d). (i, f d)) m)"

lemma ages_to_lookup:
  assumes "ages_to now m m'"
  shows "map fst m' = map fst m"
    "map_of m' i = Some d' \<Longrightarrow> \<exists>d. map_of m i = Some d \<and> aged now d d'"
    "map_of m i = Some d \<Longrightarrow> \<exists>d'. map_of m' i = Some d' \<and> aged now d d'"
    "map_of m' i = None \<longleftrightarrow> map_of m i = None"
proof -
  obtain f where f: "\<And>d. aged now d (f d)" "m' = map (\<lambda>(i, d). (i, f d)) m"
    using assms unfolding ages_to_def by blast
  then have look: "map_of m' i = map_option f (map_of m i)" for i
    by (simp add: map_of_map)
  show "map fst m' = map fst m"
    by (simp add: f(2) comp_def split_def)
  show "map_of m' i = Some d' \<Longrightarrow> \<exists>d. map_of m i = Some d \<and> aged now d d'"
    "map_of m i = Some d \<Longrightarrow> \<exists>d'. map_of m' i = Some d' \<and> aged now d d'" "map_of m' i = None \<longleftrightarrow> map_of m i = None"
    unfolding look using f(1) by auto
qed

lemma ages_to_refl: "ages_to now m m"
  unfolding ages_to_def by (rule exI [of _ "\<lambda>d. d"]) (simp add: aged_def)

lemma ages_to_release: "ages_to now (r_deposits r) (r_deposits (releaseExpiredDepositsTx now r))"
  unfolding ages_to_def releaseExpiredDepositsTx_def by (rule exI [of _ "releaseExpired now"]) (simp add: aged_def)

lemma ages_to_sweep: "ages_to now (r_deposits r) (r_deposits (snd (SweepDeposits now r)))"
  unfolding ages_to_def SweepDeposits_def Let_def
  by (rule exI [of _ "\<lambda>d. releaseExpired now (markUnpaid now d)"]) (auto simp: aged_def)

lemma released_holds: "(i, x) \<in> set (r_deposits (releaseExpiredDepositsTx now r)) \<Longrightarrow> holdsAmount x \<Longrightarrow> now < di_HoldUntilNs x"
  by (auto simp: releaseExpiredDepositsTx_def releaseExpired_def holdsAmount_def split: if_splits)

text \<open>The new ledger entry of a step that pays no intent is the caller's.\<close>

definition callers_entry :: "billing_op \<Rightarrow> StateRepo \<Rightarrow> StateRepo \<Rightarrow> bool" where
  "callers_entry op r r' \<longleftrightarrow> r_ledger r' = r_ledger r \<or>
     (\<exists>e0 e. opEntry op = Some e0 \<and> r_ledger r' = r_ledger r @ [e] \<and> be_Reason e = be_Reason e0)"

lemma callers_entry_step:
  assumes "\<nexists>txID amt ts now c w e. op = BCredit txID amt ts now c w e"
  shows "callers_entry op r (billing_step op r)"
  by (cases rule: billing_step_cases [of r op])
    (use assms in \<open>auto simp: callers_entry_def quiet_def posted_def charged_entry_def DeleteUser_def split: option.splits\<close>)

lemma deposit_step_cases:
  obtains (aged) now where "ages_to now (r_deposits r) (r_deposits (billing_step op r))" "callers_entry op r (billing_step op r)"
      "op = BSweep now \<or> r_deposits (billing_step op r) = r_deposits r"
  | (opened) d cs now c where "op = BOpen d cs now" "c \<in> set cs" "callers_entry op r (billing_step op r)"
      "map_of (r_deposits (releaseExpiredDepositsTx now r)) (di_ID d) = None"
      "\<not> list_ex (\<lambda>(_, d). di_AmountMicro d = c \<and> holdsAmount d) (r_deposits (releaseExpiredDepositsTx now r))"
      "r_deposits (billing_step op r) = AList.update (di_ID d) (pendingIntent d c) (r_deposits (releaseExpiredDepositsTx now r))"
  | (paid) txID amt ts now c w e d x where "op = BCredit txID amt ts now c w e" "depositIntentForTransferTx amt ts r = Some d"
      "\<forall>i x. (i, x) \<in> set (r_deposits r) \<longrightarrow> di_Status x = ''paid'' \<longrightarrow> di_TxID x \<noteq> txID"
      "r_deposits (billing_step op r) = AList.update (di_ID d) (paidIntent txID now d) (r_deposits r)"
      "r_ledger (billing_step op r) = r_ledger r @ [x]" "be_Reason x = BalanceReasonDeposit" "be_RefID x = txID"
      "be_UserID x = di_UserID d" "be_DeltaMicro x = di_AmountMicro d"
proof (cases "deposit_op op")
  case False
  then have "\<nexists>txID amt ts now c w e. op = BCredit txID amt ts now c w e"
    by auto
  then show thesis
    using aged [of 0] ages_to_refl callers_entry_step deposits_frame [OF False, of r] by metis
next
  case True
  then show thesis
  proof (cases op)
    case (BOpen d cs now)
    have le: "callers_entry op r (billing_step op r)"
      using BOpen by (intro callers_entry_step) simp
    obtain res r' where res: "InsertDepositIntent d cs now r = (res, r')"
      by fastforce
    show thesis
    proof (cases res)
      case (Inl err)
      then show thesis
        using aged [of 0] ages_to_refl le open_Inl [of d cs now r err r'] res BOpen by simp
    next
      case (Inr x)
      then show thesis
        using opened [OF BOpen] le open_Inr [of d cs now r x r'] res BOpen by auto
    qed
  next
    case (BSweep now)
    then show thesis
      using aged [of now] ages_to_sweep [of now r] callers_entry_step [of op r] by simp
  next
    case (BCredit txID amt ts now c w e)
    obtain res r' where res: "CreditDeposit txID amt ts now c w e r = (res, r')"
      by fastforce
    show thesis
    proof (cases res)
      case (Inl err)
      then show thesis
        using aged [of 0] ages_to_refl credit_Inl [of txID amt ts now c w e r err r'] res BCredit by (simp add: callers_entry_def)
    next
      case (Inr d')
      from credit_Inr [OF res [unfolded Inr]] show thesis
        using paid [OF BCredit] res BCredit Inr
        by (auto simp: AdvanceChainCursor_def posted_def depositEntry_def)
    qed
  qed auto
qed

lemma intents_wf_step: "intents_wf r \<Longrightarrow> intents_wf (billing_step op r)"
proof (cases rule: deposit_step_cases [of r op])
  case (aged now)
  assume "intents_wf r"
  then show "intents_wf (billing_step op r)"
    using ages_to_lookup(1,2) [OF aged(1)] aged_sel(1) by (fastforce simp: intents_wf_def)
next
  case (opened d cs now c)
  assume "intents_wf r"
  then have "gm_wf (r_deposits (releaseExpiredDepositsTx now r))"
    "\<And>i x. map_of (r_deposits (releaseExpiredDepositsTx now r)) i = Some x \<Longrightarrow> di_ID x = i"
    using ages_to_lookup(1,2) [OF ages_to_release [of now r]] aged_sel(1) by (fastforce simp: intents_wf_def)+
  then show "intents_wf (billing_step op r)"
    by (auto simp: intents_wf_def opened(6) gomap_simps split: if_splits)
next
  case (paid txID amt ts now c w e d x)
  assume "intents_wf r"
  then show "intents_wf (billing_step op r)"
    by (auto simp: intents_wf_def paid(4) gomap_simps split: if_splits)
qed

section \<open>Deposits are backed by transfers\<close>

definition isDeposit :: "BalanceEntry \<Rightarrow> bool" where
  "isDeposit e \<longleftrightarrow> be_Reason e = BalanceReasonDeposit"

definition depositRows :: "StateRepo \<Rightarrow> (string \<times> string \<times> int) list" where
  "depositRows r = map (\<lambda>e. (be_RefID e, be_UserID e, be_DeltaMicro e)) (filter isDeposit (r_ledger r))"

definition creditOf :: "DepositIntent \<Rightarrow> string \<times> string \<times> int" where
  "creditOf d = (di_TxID d, di_UserID d, di_AmountMicro d)"

definition paidIntents :: "StateRepo \<Rightarrow> (string \<times> string \<times> int) set" where
  "paidIntents r = {creditOf d | d i. map_of (r_deposits r) i = Some d \<and> di_Status d = ''paid''}"

definition backed_inv :: "StateRepo \<Rightarrow> bool" where
  "backed_inv r \<longleftrightarrow> intents_wf r \<and> distinct (map fst (depositRows r)) \<and> set (depositRows r) = paidIntents r"

text \<open>Callers post no deposit by hand: the reasons they use are others.\<close>

definition not_by_hand :: "billing_op \<Rightarrow> bool" where
  "not_by_hand op \<longleftrightarrow> (case opEntry op of None \<Rightarrow> True | Some e \<Rightarrow> be_Reason e \<noteq> BalanceReasonDeposit)"

lemma depositRows_callers: "callers_entry op r r' \<Longrightarrow> not_by_hand op \<Longrightarrow> depositRows r' = depositRows r"
  by (auto simp: callers_entry_def not_by_hand_def depositRows_def isDeposit_def)

lemma paidIntents_iff: "x \<in> paidIntents r \<longleftrightarrow> (\<exists>i d. map_of (r_deposits r) i = Some d \<and> di_Status d = ''paid'' \<and> x = creditOf d)"
  unfolding paidIntents_def by blast

lemma paidIntentsI: "map_of (r_deposits r) i = Some d \<Longrightarrow> di_Status d = ''paid'' \<Longrightarrow> x = creditOf d \<Longrightarrow> x \<in> paidIntents r"
  unfolding paidIntents_def by blast

lemma aged_credit: "aged now d d' \<Longrightarrow> creditOf d' = creditOf d \<and> (di_Status d' = ''paid'' \<longleftrightarrow> di_Status d = ''paid'')"
  using aged_sel(2-4,7) [of now d d'] by (simp add: creditOf_def)

lemma paidIntents_aged:
  assumes "ages_to now (r_deposits r) (r_deposits r')"
  shows "paidIntents r' = paidIntents r"
proof (rule set_eqI, rule iffI)
  fix x
  assume "x \<in> paidIntents r'"
  then obtain i d' where d': "map_of (r_deposits r') i = Some d'" "di_Status d' = ''paid''" "x = creditOf d'"
    by (auto simp: paidIntents_def)
  then obtain d where "map_of (r_deposits r) i = Some d" "aged now d d'"
    using ages_to_lookup(2) [OF assms] by blast
  then show "x \<in> paidIntents r"
    using d' aged_credit [of now d d'] by (metis paidIntentsI)
next
  fix x
  assume "x \<in> paidIntents r"
  then obtain i d where d: "map_of (r_deposits r) i = Some d" "di_Status d = ''paid''" "x = creditOf d"
    by (auto simp: paidIntents_def)
  then obtain d' where "map_of (r_deposits r') i = Some d'" "aged now d d'"
    using ages_to_lookup(3) [OF assms] by blast
  then show "x \<in> paidIntents r'"
    using d aged_credit [of now d d'] by (metis paidIntentsI)
qed

text \<open>A row replaced or added, whose old version was not paid.\<close>

lemma paidIntents_update:
  assumes "\<And>d. map_of (r_deposits r) i = Some d \<Longrightarrow> di_Status d \<noteq> ''paid''" "r_deposits r' = AList.update i d' (r_deposits r)"
  shows "paidIntents r' = (if di_Status d' = ''paid'' then insert (creditOf d') (paidIntents r) else paidIntents r)"
proof -
  have new: "map_of (r_deposits r') i = Some d'" and other: "\<And>j. j \<noteq> i \<Longrightarrow> map_of (r_deposits r') j = map_of (r_deposits r) j"
    by (simp_all add: assms(2) gomap_simps)
  have old: "x \<in> paidIntents r \<Longrightarrow> x \<in> paidIntents r'" for x
    unfolding paidIntents_iff using assms(1) other by metis
  have "x \<in> paidIntents r' \<Longrightarrow> x = creditOf d' \<and> di_Status d' = ''paid'' \<or> x \<in> paidIntents r" for x
    unfolding paidIntents_iff using new other by (metis option.inject)
  moreover have "di_Status d' = ''paid'' \<Longrightarrow> creditOf d' \<in> paidIntents r'"
    by (rule paidIntentsI [OF new _ refl])
  ultimately show ?thesis
    using old by auto
qed

lemma not_paid: "depositIntentForTransferTx amt ts r = Some d \<Longrightarrow> di_Status d \<noteq> ''paid''"
  using transfer_intent(1) by (auto simp: ownsTransfer_def)

lemma matched_row: "intents_wf r \<Longrightarrow> depositIntentForTransferTx amt ts r = Some d \<Longrightarrow> map_of (r_deposits r) (di_ID d) = Some d"
  using transfer_intent(2) [of amt ts r d] intents_wfD [of r] by metis

interpretation backing: guarded_machine billing_step backed_inv not_by_hand
proof (unfold_locales, goal_cases)
  case (1 op r)
  then have wf: "intents_wf r" and rows: "distinct (map fst (depositRows r))" "set (depositRows r) = paidIntents r"
    by (auto simp: backed_inv_def)
  note wf' = intents_wf_step [OF wf, of op]
  show ?case
  proof (cases rule: deposit_step_cases [of r op])
    case (aged now)
    then show ?thesis
      using rows wf' depositRows_callers [OF aged(2) 1(1)] paidIntents_aged [OF aged(1)] by (simp add: backed_inv_def)
  next
    case (opened d cs now c)
    let ?m = "releaseExpiredDepositsTx now r"
    have "paidIntents (billing_step op r) = paidIntents ?m"
      using paidIntents_update [OF _ opened(6)] opened(4) by (simp add: pendingIntent_def)
    then show ?thesis
      using rows wf' depositRows_callers [OF opened(3) 1(1)] paidIntents_aged [OF ages_to_release, of now r] by (simp add: backed_inv_def)
  next
    case (paid txID amt ts now c w e d x)
    have d: "map_of (r_deposits r) (di_ID d) = Some d" "di_Status d \<noteq> ''paid''"
      by (rule matched_row [OF wf paid(2)], rule not_paid [OF paid(2)])
    have "paidIntents (billing_step op r) = insert (txID, di_UserID d, di_AmountMicro d) (paidIntents r)"
      using paidIntents_update [OF _ paid(4)] d by (simp add: paidIntent_def creditOf_def)
    moreover have "depositRows (billing_step op r) = depositRows r @ [(txID, di_UserID d, di_AmountMicro d)]"
      using paid(5-9) by (simp add: depositRows_def isDeposit_def)
    moreover have "txID \<notin> fst ` paidIntents r"
    proof
      assume "txID \<in> fst ` paidIntents r"
      then obtain i x where x: "map_of (r_deposits r) i = Some x" "di_Status x = ''paid''" "di_TxID x = txID"
        by (auto simp: paidIntents_def creditOf_def)
      then have "(i, x) \<in> set (r_deposits r)"
        by (simp add: map_of_SomeD)
      then show False
        using paid(3) x by blast
    qed
    ultimately show ?thesis
      using rows wf' by (simp add: backed_inv_def)
  qed
qed

text \<open>
  C4. On-chain money is backed, one for one. From empty books, in every sequence of operations in which
  callers post no deposit by hand, the deposit entries of the ledger are exactly the paid intents, with
  their transaction, user and amount, and no transaction is credited twice: not by a replay of the
  listener, nor after the intent was released or its amount was given to someone else.
\<close>
theorem deposits_are_backed:
  assumes "r_ledger r0 = []" "r_deposits r0 = []" "list_all not_by_hand ops" "r = fold billing_step ops r0"
  shows "distinct (map fst (depositRows r)) \<and> set (depositRows r) = paidIntents r"
proof -
  have "backed_inv r"
    unfolding assms(4) by (rule backing.inv_ok_run [OF assms(3)])
      (simp add: backed_inv_def intents_wf_def depositRows_def paidIntents_def assms(1,2))
  then show ?thesis
    by (simp add: backed_inv_def)
qed

text \<open>An intent as the service opens it, for 30 minutes.\<close>

definition exampleIntent :: "string \<Rightarrow> string \<Rightarrow> DepositIntent" where
  "exampleIntent i user = \<lparr>di_ID = i, di_UserID = user, di_AmountMicro = 0, di_Status = '''', di_TxID = '''',
     di_CreatedAtNs = 10, di_ExpiresAtNs = 25, di_HoldUntilNs = 40, di_PaidAtNs = 0\<rparr>"

theorem deposits_are_backed_witness:
  "let ops = [BOpen (exampleIntent ''d1'' ''u1'') [7, 8] 10, BOpen (exampleIntent ''d2'' ''u2'') [7, 8] 11, BSweep 50,
         BCredit ''tx'' 8 20 51 ''c'' 1 (exampleEntry ''e1'' '''' 0 ''''),
         BCredit ''tx'' 7 20 52 ''c'' 1 (exampleEntry ''e2'' '''' 0 '''')];
       r = fold billing_step ops exampleBooks
   in depositRows r = [(''tx'', ''u2'', 8)] \<and> paidIntents r = {(''tx'', ''u2'', 8)}"
proof -
  let ?ops = "[BOpen (exampleIntent ''d1'' ''u1'') [7, 8] 10, BOpen (exampleIntent ''d2'' ''u2'') [7, 8] 11, BSweep 50,
         BCredit ''tx'' 8 20 51 ''c'' 1 (exampleEntry ''e1'' '''' 0 ''''),
         BCredit ''tx'' 7 20 52 ''c'' 1 (exampleEntry ''e2'' '''' 0 '''')]"
  have eval: "depositRows (fold billing_step ?ops exampleBooks) = [(''tx'', ''u2'', 8)]" "list_all not_by_hand ?ops"
    "r_ledger exampleBooks = []" "r_deposits exampleBooks = []"
    by code_simp+
  then show ?thesis
    using deposits_are_backed [OF eval(3,4,2) refl] by (simp add: Let_def)
qed

section \<open>A transfer has one owner\<close>

text \<open>
  The clock: the service stamps an intent with the time it opens it, and both operations that release
  amounts use that time. Between two operations the clock does not run backwards.
\<close>

fun stamp :: "int \<Rightarrow> billing_op \<Rightarrow> billing_op" where
  "stamp t (BOpen d cs _) = BOpen (d\<lparr>di_CreatedAtNs := t\<rparr>) cs t"
| "stamp t (BSweep _) = BSweep t"
| "stamp t op = op"

fun clocked_step :: "nat \<times> billing_op \<Rightarrow> int \<times> StateRepo \<Rightarrow> int \<times> StateRepo" where
  "clocked_step (dt, op) (t, r) = (t + int dt, billing_step (stamp (t + int dt) op) r)"

text \<open>
  An unpaid intent whose amount is no longer held is past its window, and the windows of two unpaid
  intents with the same amount do not meet.
\<close>

definition apart :: "DepositIntent \<Rightarrow> DepositIntent \<Rightarrow> bool" where
  "apart x y \<longleftrightarrow> (di_Status x \<noteq> ''paid'' \<and> di_Status y \<noteq> ''paid'' \<and> di_AmountMicro x = di_AmountMicro y \<longrightarrow>
     di_HoldUntilNs x \<le> di_CreatedAtNs y \<or> di_HoldUntilNs y \<le> di_CreatedAtNs x)"

definition settled_by :: "int \<Rightarrow> DepositIntent \<Rightarrow> bool" where
  "settled_by t x \<longleftrightarrow> di_CreatedAtNs x \<le> t \<and> (holdsAmount x \<or> di_Status x = ''paid'' \<or> di_HoldUntilNs x \<le> t)"

fun windows_inv :: "int \<times> StateRepo \<Rightarrow> bool" where
  "windows_inv (t, r) \<longleftrightarrow> intents_wf r \<and> (\<forall>i x. map_of (r_deposits r) i = Some x \<longrightarrow> settled_by t x) \<and>
     (\<forall>i j x y. map_of (r_deposits r) i = Some x \<longrightarrow> map_of (r_deposits r) j = Some y \<longrightarrow> i \<noteq> j \<longrightarrow> apart x y)"

lemma apart_sym: "apart x y \<Longrightarrow> apart y x"
  by (auto simp: apart_def)

lemma apart_aged: "apart x y \<Longrightarrow> aged now x x' \<Longrightarrow> aged now y y' \<Longrightarrow> apart x' y'"
  by (simp add: apart_def aged_sel)

lemma settled_aged: "settled_by t x \<Longrightarrow> aged now x x' \<Longrightarrow> now \<le> t' \<Longrightarrow> t \<le> t' \<Longrightarrow> settled_by t' x'"
  using aged_sel(8) [of now x x'] by (cases "di_Status x' = di_Status x") (auto simp: settled_by_def aged_sel holdsAmount_def)

lemma settled_later: "settled_by t x \<Longrightarrow> t \<le> t' \<Longrightarrow> settled_by t' x"
  by (auto simp: settled_by_def)

lemma windows_aged:
  assumes inv: "windows_inv (t, r)" and m: "ages_to now (r_deposits r) m" and le: "now \<le> t'" "t \<le> t'"
  shows "map_of m i = Some x \<Longrightarrow> settled_by t' x"
    "map_of m i = Some x \<Longrightarrow> map_of m j = Some y \<Longrightarrow> i \<noteq> j \<Longrightarrow> apart x y"
proof -
  note old = ages_to_lookup(2) [OF m]
  show "map_of m i = Some x \<Longrightarrow> settled_by t' x"
    using old [of i x] inv settled_aged [OF _ _ le] by auto
  assume "map_of m i = Some x" "map_of m j = Some y" "i \<noteq> j"
  moreover obtain x0 y0 where "map_of (r_deposits r) i = Some x0" "aged now x0 x" "map_of (r_deposits r) j = Some y0" "aged now y0 y"
    using old [of i x] old [of j y] calculation by blast
  ultimately show "apart x y"
    using inv apart_aged [of x0 y0 now x y] by auto
qed

text \<open>Replacing one row keeps the windows apart when the new row is apart from every other.\<close>

lemma windows_update:
  assumes "\<And>i x. map_of m i = Some x \<Longrightarrow> settled_by t x"
    and "\<And>i j x y. map_of m i = Some x \<Longrightarrow> map_of m j = Some y \<Longrightarrow> i \<noteq> j \<Longrightarrow> apart x y"
    and "settled_by t d" "\<And>i x. map_of m i = Some x \<Longrightarrow> i \<noteq> k \<Longrightarrow> apart d x"
    and "r_deposits r = AList.update k d m" "intents_wf r"
  shows "windows_inv (t, r)"
  using assms(1-4,6) by (auto simp: assms(5) gomap_simps intro: apart_sym split: if_splits)

lemma opened_apart:
  assumes "settled_by t x" "di_CreatedAtNs d = t" "di_AmountMicro d = c" "\<not> (di_AmountMicro x = c \<and> holdsAmount x)"
  shows "apart d x"
  using assms by (auto simp: settled_by_def apart_def)

lemma stamped:
  "stamp t op = BOpen d cs now \<Longrightarrow> now = t \<and> di_CreatedAtNs d = t" "stamp t op = BSweep now \<Longrightarrow> now = t"
  by (cases op; auto)+

interpretation windows: state_machine clocked_step windows_inv
proof (unfold_locales, goal_cases)
  case (1 s top)
  obtain t r dt op0 where s: "s = (t, r)" and top: "top = (dt, op0)"
    by (cases s, cases top) auto
  define t' op where "t' = t + int dt" and "op = stamp t' op0"
  have inv: "windows_inv (t, r)" and le: "t \<le> t'"
    using 1 by (simp_all add: s t'_def)
  have wf: "intents_wf r" "intents_wf (billing_step op r)"
    using inv intents_wf_step [of r op] by simp_all
  have "windows_inv (t', billing_step op r)"
  proof (cases rule: deposit_step_cases [of r op])
    case (aged now)
    have ages: "ages_to t' (r_deposits r) (r_deposits (billing_step op r))"
      using aged(1,3) ages_to_refl stamped(2) [of t' op0 now] by (auto simp: op_def)
    show ?thesis
      using wf(2) windows_aged [OF inv ages order.refl le] by simp
  next
    case (opened d cs now c)
    then have now: "now = t'" "di_CreatedAtNs d = t'"
      using stamped(1) [of t' op0 d cs now] by (auto simp: op_def)
    note old = windows_aged [OF inv ages_to_release order.refl le]
    have new: "settled_by t' (pendingIntent d c)" "di_CreatedAtNs (pendingIntent d c) = t'"
      using now by (simp_all add: settled_by_def pendingIntent_def holdsAmount_def)
    have "apart (pendingIntent d c) x" if "map_of (r_deposits (releaseExpiredDepositsTx t' r)) i = Some x" for i x
      using opened(5) map_of_SomeD [OF that] unfolding now list_ex_iff
      by (intro opened_apart [OF old(1) [OF that] new(2) amount_aged(4)]) auto
    then show ?thesis
      by (intro windows_update [OF old new(1) _ opened(6) [unfolded now] wf(2)]) 
  next
    case (paid txID amt ts now c w e d x)
    have "map_of (r_deposits r) (di_ID d) = Some d"
      by (rule matched_row [OF wf(1) paid(2)])
    then have "settled_by t' (paidIntent txID now d)"
      using inv settled_later [OF _ le, of d] by (auto simp: settled_by_def paidIntent_def)
    moreover have "apart (paidIntent txID now d) y" for y
      by (simp add: apart_def paidIntent_def)
    ultimately show ?thesis
      using inv settled_later [OF _ le] by (intro windows_update [OF _ _ _ _ paid(4) wf(2)]) auto
  qed
  then show ?case
    unfolding s top op_def t'_def clocked_step.simps .
qed

text \<open>
  C10. A transfer has one owner. Starting without intents, and with a clock that does not run backwards, in
  every sequence of operations each amount and block time match at most one row: whichever intents were
  opened, swept, released, and whichever amounts were given out again, the newest-first order of the
  query never has to decide between two users.
\<close>
theorem transfer_has_one_owner:
  assumes "r_deposits r0 = []" "(t, r) = fold clocked_step ops (t0, r0)"
  shows "length (filter (ownsTransfer amt ts) (map snd (r_deposits r))) \<le> 1"
proof -
  have "windows_inv (fold clocked_step ops (t0, r0))"
    by (rule windows.inv_run) (simp add: intents_wf_def assms(1))
  then have inv: "windows_inv (t, r)"
    unfolding assms(2) .
  then have wf: "gm_wf (r_deposits r)"
    using intents_wfD(1) [of r] by simp
  have same: "i = j" if "(i, x) \<in> set (r_deposits r)" "(j, y) \<in> set (r_deposits r)" "ownsTransfer amt ts x" "ownsTransfer amt ts y" for i j x y
  proof (rule ccontr)
    assume "i \<noteq> j"
    then have "apart x y"
      using inv that(1,2) [THEN gm_mem_iff [OF wf, THEN iffD1]] by auto
    then show False
      using that(3,4) by (auto simp: apart_def ownsTransfer_def)
  qed
  let ?own = "filter (\<lambda>(i, x). ownsTransfer amt ts x) (r_deposits r)"
  have "distinct (map fst ?own)"
    using wf by (simp add: distinct_map_filter)
  moreover have "a = b" if "a \<in> set (map fst ?own)" "b \<in> set (map fst ?own)" for a b
    using that same [of a _ b] by auto
  ultimately have "length (map fst ?own) \<le> 1"
    by (rule distinct_all_equal)
  then show ?thesis
    by (simp add: filter_map comp_def split_def)
qed

theorem transfer_has_one_owner_witness:
  "let (t, r) = fold clocked_step [(5, BOpen (exampleIntent ''d1'' ''u1'') [7] 0), (50, BOpen ((exampleIntent ''d2'' ''u2'')\<lparr>di_HoldUntilNs := 90\<rparr>) [7] 0),
         (1, BSweep 0)] (5, exampleBooks)
   in length (r_deposits r) = 2 \<and> length (filter (ownsTransfer 7 20) (map snd (r_deposits r))) = 1"
proof -
  let ?ops = "[(5, BOpen (exampleIntent ''d1'' ''u1'') [7] 0), (50, BOpen ((exampleIntent ''d2'' ''u2'')\<lparr>di_HoldUntilNs := 90\<rparr>) [7] 0),
         (1, BSweep 0)]"
  obtain t r where run: "(t, r) = fold clocked_step ?ops (5, exampleBooks)"
    by (metis surj_pair)
  have "length (r_deposits (snd (fold clocked_step ?ops (5, exampleBooks)))) = 2"
    "0 < length (filter (ownsTransfer 7 20) (map snd (r_deposits (snd (fold clocked_step ?ops (5, exampleBooks))))))"
    by code_simp+
  then have "length (r_deposits r) = 2" "0 < length (filter (ownsTransfer 7 20) (map snd (r_deposits r)))"
    unfolding run [symmetric] snd_conv .
  moreover have "r_deposits exampleBooks = []"
    by (simp add: exampleBooks_def emptyRepo_def)
  ultimately have "length (r_deposits r) = 2 \<and> length (filter (ownsTransfer 7 20) (map snd (r_deposits r))) = 1"
    using transfer_has_one_owner [OF _ run, of 7 20] by linarith
  then show ?thesis
    unfolding run [symmetric] by simp
qed

section \<open>Redeem codes\<close>

definition codes_wf :: "StateRepo \<Rightarrow> bool" where
  "codes_wf r \<longleftrightarrow> gm_wf (r_codes r) \<and> distinct (map (\<lambda>(_, c). rc_CodeHash c) (r_codes r))"

text \<open>The successful redemptions of one hash along a run.\<close>

definition redeemed :: "string \<Rightarrow> billing_op \<Rightarrow> StateRepo \<Rightarrow> nat" where
  "redeemed h op r = (case op of BRedeem h' e now \<Rightarrow>
     if h' = h \<and> (case fst (RedeemCodeAndCredit h' e now r) of Inr _ \<Rightarrow> True | Inl _ \<Rightarrow> False) then 1 else 0 | _ \<Rightarrow> 0)"

fun redemptions :: "string \<Rightarrow> billing_op list \<Rightarrow> StateRepo \<Rightarrow> nat" where
  "redemptions h [] r = 0"
| "redemptions h (op # ops) r = redeemed h op r + redemptions h ops (billing_step op r)"

definition uses_grow :: "nat \<Rightarrow> RedeemCode \<Rightarrow> RedeemCode \<Rightarrow> bool" where
  "uses_grow n c c' \<longleftrightarrow> rc_CodeHash c' = rc_CodeHash c \<and> rc_MaxUses c' = rc_MaxUses c \<and>
     rc_UsedCount c' = rc_UsedCount c + int n \<and>
     (rc_MaxUses c \<noteq> 0 \<and> rc_UsedCount c \<le> rc_MaxUses c \<longrightarrow> rc_UsedCount c' \<le> rc_MaxUses c)"

lemma uses_grow_trans: "uses_grow m a b \<Longrightarrow> uses_grow n b c \<Longrightarrow> uses_grow (m + n) a c"
  by (auto simp: uses_grow_def)

lemma uses_grow_0 [simp]: "uses_grow 0 c c"
  by (simp add: uses_grow_def)

lemma same_hash:
  assumes "codes_wf r" "(i, c) \<in> set (r_codes r)" "(j, d) \<in> set (r_codes r)" "rc_CodeHash c = rc_CodeHash d"
  shows "i = j \<and> c = d"
  using assms inj_onD [of "\<lambda>(_, c). rc_CodeHash c" "set (r_codes r)" "(i, c)" "(j, d)"]
  by (auto simp: codes_wf_def distinct_map)

lemma redeem_Inl: "RedeemCodeAndCredit h e now r = (Inl err, r') \<Longrightarrow> r' = r"
  by (auto simp: RedeemCodeAndCredit_def dest: tx_then_Inl)

lemma redeem_Inr:
  assumes "RedeemCodeAndCredit h e now r = (Inr x, r')"
  shows "r_codes r' = map (\<lambda>(i, c). (i, if redeemable h now c
      then c\<lparr>rc_UsedCount := rc_UsedCount c + 1, rc_UpdatedAtNs := now\<rparr> else c)) (r_codes r)"
    "\<exists>i c. (i, c) \<in> set (r_codes r) \<and> redeemable h now c"
proof -
  obtain r1 where r1: "claimCode h now r = (Inr (), r1)" "chargeInTx e r1 = (Inr x, r')"
    using assms by (auto simp: RedeemCodeAndCredit_def tx_then_Inr)
  have "r_codes r' = r_codes r1"
    using code_table.charge_frame [of e r1] r1(2) by simp
  then show "r_codes r' = map (\<lambda>(i, c). (i, if redeemable h now c
      then c\<lparr>rc_UsedCount := rc_UsedCount c + 1, rc_UpdatedAtNs := now\<rparr> else c)) (r_codes r)"
    "\<exists>i c. (i, c) \<in> set (r_codes r) \<and> redeemable h now c"
    using r1(1) by (auto simp: claimCode_def list_ex_iff split: if_splits)
qed

lemma codes_wf_map:
  assumes "codes_wf r" "r_codes r' = map (\<lambda>(i, c). (i, f c)) (r_codes r)" "\<And>c. rc_CodeHash (f c) = rc_CodeHash c"
  shows "codes_wf r'"
  using assms by (simp add: codes_wf_def comp_def split_def)

lemma code_redeemed:
  assumes wf: "codes_wf r" and c: "map_of (r_codes r) i = Some c" and call: "RedeemCodeAndCredit h e now r = (Inr x, r')"
  shows "codes_wf r'" "\<exists>c'. map_of (r_codes r') i = Some c' \<and> uses_grow (if h = rc_CodeHash c then 1 else 0) c c'"
proof -
  note red = redeem_Inr [OF call]
  show "codes_wf r'"
    by (rule codes_wf_map [OF wf red(1)]) simp
  obtain j d where d: "(j, d) \<in> set (r_codes r)" "redeemable h now d"
    using red(2) by blast
  have "d = c" if "h = rc_CodeHash c"
    using same_hash [OF wf d(1) map_of_SomeD [OF c]] d(2) that by (simp add: redeemable_def)
  then have "redeemable h now c \<longleftrightarrow> h = rc_CodeHash c"
    using d(2) unfolding redeemable_def by metis
  moreover have "redeemable h now c \<Longrightarrow> rc_MaxUses c = 0 \<or> rc_UsedCount c < rc_MaxUses c"
    by (simp add: redeemable_def)
  ultimately show "\<exists>c'. map_of (r_codes r') i = Some c' \<and> uses_grow (if h = rc_CodeHash c then 1 else 0) c c'"
    using c unfolding red(1) by (simp add: map_of_map uses_grow_def) linarith
qed

lemma code_step:
  assumes wf: "codes_wf r" and c: "map_of (r_codes r) i = Some c" and op: "op \<noteq> BDeleteCode i"
  shows "codes_wf (billing_step op r) \<and>
    (\<exists>c'. map_of (r_codes (billing_step op r)) i = Some c' \<and> uses_grow (redeemed (rc_CodeHash c) op r) c c')"
proof (cases "code_op op")
  case False
  then have "redeemed (rc_CodeHash c) op r = 0"
    by (cases op) (auto simp: redeemed_def)
  then show ?thesis
    using wf c codes_frame [OF False, of r] by (simp add: codes_wf_def)
next
  case True
  then show ?thesis
  proof (cases op)
    case (BInsertCode x)
    have "(rc_ID x = i \<longrightarrow> map_of (r_codes r) (rc_ID x) \<noteq> None)"
      using c by simp
    then show ?thesis
      using wf c BInsertCode
      by (auto simp: InsertRedeemCode_def redeemed_def codes_wf_def gm_update_absent list_ex_iff map_of_eq_None_iff)
  next
    case (BDeleteCode j)
    have "map_of (AList.delete j (r_codes r)) i = Some c" "distinct (map (\<lambda>(_, c). rc_CodeHash c) (AList.delete j (r_codes r)))"
      using wf c op BDeleteCode by (simp add: gomap_simps, simp add: codes_wf_def AList.delete_eq distinct_map_filter)
    then show ?thesis
      using wf c BDeleteCode by (auto simp: DeleteRedeemCode_def redeemed_def codes_wf_def split: option.splits)
  next
    case (BRedeem h e now)
    show ?thesis
    proof (cases "RedeemCodeAndCredit h e now r")
      case (Pair res r')
      then show ?thesis
        using wf c redeem_Inl [of h e now r] code_redeemed [OF wf c, of h e now] BRedeem by (cases res) (auto simp: redeemed_def)
    qed
  qed auto
qed

text \<open>
  C30. A code pays out at most as often as it allows. While it is not deleted, a code's use counter grows by
  exactly the number of successful redemptions of its hash, in every sequence of operations, by whomever,
  and with a limit the counter never passes it: a redemption that would is refused.
\<close>
theorem code_pays_at_most_its_limit:
  assumes "codes_wf r" "map_of (r_codes r) i = Some c" "BDeleteCode i \<notin> set ops"
  shows "\<exists>c'. map_of (r_codes (fold billing_step ops r)) i = Some c' \<and>
    rc_UsedCount c' = rc_UsedCount c + int (redemptions (rc_CodeHash c) ops r) \<and>
    (rc_MaxUses c \<noteq> 0 \<and> rc_UsedCount c \<le> rc_MaxUses c \<longrightarrow> rc_UsedCount c' \<le> rc_MaxUses c)"
proof -
  have "\<exists>c'. map_of (r_codes (fold billing_step ops r)) i = Some c' \<and> uses_grow (redemptions (rc_CodeHash c) ops r) c c'"
    using assms
  proof (induction ops arbitrary: r c)
    case (Cons op ops)
    then obtain c1 where c1: "codes_wf (billing_step op r)" "map_of (r_codes (billing_step op r)) i = Some c1"
      "uses_grow (redeemed (rc_CodeHash c) op r) c c1"
      using code_step [of r i c op] by auto
    then show ?case
      using Cons.IH [OF c1(1,2)] Cons.prems(3) uses_grow_trans [OF c1(3)] by (auto simp: uses_grow_def)
  qed simp
  then show ?thesis
    by (auto simp: uses_grow_def)
qed

definition exampleCode :: RedeemCode where
  "exampleCode = \<lparr>rc_ID = ''c1'', rc_CodeHash = ''h'', rc_CodeHint = '''', rc_AmountMicro = 500, rc_MaxUses = 1, rc_UsedCount = 0,
     rc_ExpiresAtNs = 0, rc_Note = '''', rc_Status = RedeemCodeStatusActive, rc_CreatedBy = '''', rc_CreatedAtNs = 0, rc_UpdatedAtNs = 0\<rparr>"

theorem code_pays_at_most_its_limit_witness:
  "let r = exampleBooks\<lparr>r_codes := [(''c1'', exampleCode)]\<rparr>;
       ops = [BRedeem ''h'' (exampleEntry ''e1'' ''u1'' 500 '''') 5, BRedeem ''h'' (exampleEntry ''e2'' ''u2'' 500 '''') 6]
   in redemptions ''h'' ops r = 1 \<and> GetBalance ''u1'' (fold billing_step ops r) = 500 \<and> GetBalance ''u2'' (fold billing_step ops r) = 0 \<and>
      map_option rc_UsedCount (map_of (r_codes (fold billing_step ops r)) ''c1'') = Some 1"
proof -
  let ?r = "exampleBooks\<lparr>r_codes := [(''c1'', exampleCode)]\<rparr>"
  let ?ops = "[BRedeem ''h'' (exampleEntry ''e1'' ''u1'' 500 '''') 5, BRedeem ''h'' (exampleEntry ''e2'' ''u2'' 500 '''') 6]"
  have eval: "redemptions ''h'' ?ops ?r = 1" "GetBalance ''u1'' (fold billing_step ?ops ?r) = 500"
    "GetBalance ''u2'' (fold billing_step ?ops ?r) = 0" "codes_wf ?r"
    by code_simp+
  have "map_of (r_codes ?r) ''c1'' = Some exampleCode" "BDeleteCode ''c1'' \<notin> set ?ops" "rc_CodeHash exampleCode = ''h''"
    "rc_UsedCount exampleCode = 0"
    by (simp_all add: exampleCode_def)
  then show ?thesis
    using code_pays_at_most_its_limit [OF eval(4), of "''c1''" exampleCode ?ops] eval(1-3)
    unfolding Let_def by (auto simp del: fold_simps redemptions.simps)
qed

end
