(* ===== verification/Netip_Parse.thy ===== *)
theory Netip_Parse
  imports Net_Addr
begin

text \<open>
  \<open>netip.ParseAddr\<close> and \<open>netip.ParsePrefix\<close> of the Go library, which decide what an entry of a
  source-address list means. An IPv6 address is read as up to eight 16-bit groups with an optional
  \<open>::\<close>, an optional dotted tail and an optional zone.
\<close>

definition digitVal :: "char \<Rightarrow> int option" where
  "digitVal c = (let n = of_char c :: int in if 48 \<le> n \<and> n \<le> 57 then Some (n - 48) else None)"

definition hexVal :: "char \<Rightarrow> int option" where
  "hexVal c = (let n = of_char c :: int in
     if 48 \<le> n \<and> n \<le> 57 then Some (n - 48)
     else if 97 \<le> n \<and> n \<le> 102 then Some (n - 87)
     else if 65 \<le> n \<and> n \<le> 70 then Some (n - 55) else None)"

text \<open>\<open>parseIPv4Fields\<close>: the value and the number of digits of the current octet, and the octets before it.\<close>

fun v4Fields :: "int \<Rightarrow> nat \<Rightarrow> int list \<Rightarrow> string \<Rightarrow> int list option" where
  "v4Fields val digLen octets [] = (if length octets < 3 then None else Some (octets @ [val]))"
| "v4Fields val digLen octets (c # s) =
     (case digitVal c of
        Some d \<Rightarrow>
          if digLen = 1 \<and> val = 0 \<or> val * 10 + d > 255 then None
          else v4Fields (val * 10 + d) (digLen + 1) octets s
      | None \<Rightarrow>
          if c \<noteq> CHR ''.'' \<or> digLen = 0 \<or> s = [] \<or> length octets = 3 then None
          else v4Fields 0 0 (octets @ [val]) s)"

definition groupsVal :: "int \<Rightarrow> int list \<Rightarrow> int" where
  "groupsVal base = foldl (\<lambda>acc g. acc * base + g) 0"

definition parseIPv4 :: "string \<Rightarrow> Addr option" where
  "parseIPv4 s = map_option (\<lambda>fs. IPv4 (groupsVal 256 fs)) (v4Fields 0 0 [] s)"

text \<open>The loop over the groups; the first argument counts the groups that still fit.\<close>

fun v6Groups :: "nat \<Rightarrow> string \<Rightarrow> int list \<Rightarrow> nat option \<Rightarrow> (int list \<times> nat option \<times> string) option" where
  "v6Groups 0 s gs ellipsis = Some (gs, ellipsis, s)"
| "v6Groups (Suc n) s gs ellipsis =
     (let hex = takeWhile (\<lambda>c. hexVal c \<noteq> None) s; rest = dropWhile (\<lambda>c. hexVal c \<noteq> None) s;
          gs' = gs @ [groupsVal 16 (map (the \<circ> hexVal) hex)] in
      if hex = [] \<or> length hex > 4 then None
      else case rest of
        [] \<Rightarrow> Some (gs', ellipsis, [])
      | c # s1 \<Rightarrow>
          if c = CHR ''.'' then
            (if ellipsis = None \<and> length gs \<noteq> 6 \<or> length gs > 6 then None
             else case v4Fields 0 0 [] s of
               Some [a, b, c, d] \<Rightarrow> Some (gs @ [a * 256 + b, c * 256 + d], ellipsis, [])
             | _ \<Rightarrow> None)
          else if c \<noteq> CHR '':'' \<or> s1 = [] then None
          else if hd s1 = CHR '':'' then
            (if ellipsis \<noteq> None then None
             else if tl s1 = [] then Some (gs', Some (length gs'), [])
             else v6Groups n (tl s1) gs' (Some (length gs')))
          else v6Groups n s1 gs' ellipsis)"

definition expandEllipsis :: "int list \<times> nat option \<times> string \<Rightarrow> int list option" where
  "expandEllipsis = (\<lambda>(gs, ellipsis, rest).
     if rest \<noteq> [] then None
     else case ellipsis of
       None \<Rightarrow> if length gs < 8 then None else Some gs
     | Some e \<Rightarrow> if length gs < 8 then Some (take e gs @ replicate (8 - length gs) 0 @ drop e gs) else None)"

definition parseIPv6 :: "string \<Rightarrow> Addr option" where
  "parseIPv6 text =
     (let s = takeWhile (\<lambda>c. c \<noteq> CHR ''%'') text; zoned = dropWhile (\<lambda>c. c \<noteq> CHR ''%'') text; zone = tl zoned in
      if zoned \<noteq> [] \<and> zone = [] then None
      else if s = ''::'' then Some (IPv6 0 zone)
      else case (if take 2 s = ''::'' then v6Groups 8 (drop 2 s) [] (Some 0) else v6Groups 8 s [] None) of
        None \<Rightarrow> None
      | Some parsed \<Rightarrow> map_option (\<lambda>gs. IPv6 (groupsVal 65536 gs) zone) (expandEllipsis parsed))"

definition ParseAddr :: "string \<Rightarrow> Addr option" where
  "ParseAddr s =
     (case find (\<lambda>c. c = CHR ''.'' \<or> c = CHR '':'' \<or> c = CHR ''%'') s of
        None \<Rightarrow> None
      | Some c \<Rightarrow> if c = CHR ''.'' then parseIPv4 s else if c = CHR '':'' then parseIPv6 s else None)"

definition parseBits :: "string \<Rightarrow> nat option" where
  "parseBits s =
     (if s = [] \<or> \<not> list_all (\<lambda>c. digitVal c \<noteq> None) s \<or> (length s > 1 \<and> hd s = CHR ''0'') then None
      else Some (nat (groupsVal 10 (map (the \<circ> digitVal) s))))"

definition ParsePrefix :: "string \<Rightarrow> Prefix option" where
  "ParsePrefix s =
     (let tail = takeWhile (\<lambda>c. c \<noteq> CHR ''/'') (rev s); front = dropWhile (\<lambda>c. c \<noteq> CHR ''/'') (rev s) in
      if front = [] then None
      else case (ParseAddr (rev (tl front)), parseBits (rev tail)) of
        (Some ip, Some bits) \<Rightarrow>
          (if (case ip of IPv6 _ zone \<Rightarrow> zone \<noteq> [] | _ \<Rightarrow> False) \<or> bits > BitLen ip then None
           else Some (PrefixFrom ip bits))
      | _ \<Rightarrow> None)"

definition Masked :: "Prefix \<Rightarrow> Prefix" where
  "Masked p = p\<lparr>px_addr := (case px_addr p of
       ZeroAddr \<Rightarrow> ZeroAddr
     | IPv4 n \<Rightarrow> IPv4 (n div 2 ^ (32 - px_bits p) * 2 ^ (32 - px_bits p))
     | IPv6 n z \<Rightarrow> IPv6 (n div 2 ^ (128 - px_bits p) * 2 ^ (128 - px_bits p)) z)\<rparr>"

lemma Masked_contains: "PrefixContains (Masked p) ip \<longleftrightarrow> PrefixContains p ip"
  by (auto simp: Masked_def PrefixContains_def sameNetwork_def split: Addr.splits)

lemma ParsePrefix_bits:
  assumes "ParsePrefix s = Some p"
  shows "px_bits p \<le> BitLen (px_addr p)" "IsValid (px_addr p) \<or> px_bits p = 0"
  using assms by (auto simp: ParsePrefix_def PrefixFrom_def Let_def split: option.splits if_splits Addr.splits)

text \<open>Texts whose meaning the library documents.\<close>

lemma ParseAddr_examples:
  "ParseAddr ''192.0.2.1'' = Some (IPv4 3221225985)" "ParseAddr ''1.2.3.04'' = None" "ParseAddr ''1.2.3'' = None"
  "ParseAddr ''::1'' = Some (IPv6 1 [])" "ParseAddr ''::ffff:1.2.3.4'' = Some (IPv6 281470698652420 [])"
  "ParseAddr ''1::2::3'' = None" "ParseAddr ''fe80::1%eth0'' = Some (IPv6 338288524927261089654018896841347694593 ''eth0'')"
  "ParsePrefix ''10.0.0.0/8'' = Some \<lparr>px_addr = IPv4 167772160, px_bits = 8\<rparr>" "ParsePrefix ''10.0.0.0/08'' = None"
  "ParsePrefix ''10.0.0.0/33'' = None"
  by code_simp+

end
