(* ===== verification/Access_Keys.thy ===== *)
theory Access_Keys
  imports State_Repo Netip_Parse
begin

text \<open>
  Access keys: the credential, the in-memory store the data plane reads and its construction from the
  tables (\<open>internal/keys\<close>), and the verifier of the data plane (\<open>internal/proxy/accesskey.go\<close>).

  A \<open>*KeyState\<close> is a \<open>KeyState\<close>; where a caller handles nil it takes an option. The store is a map from
  key ids, and an operation on it is one step. \<open>json.Unmarshal\<close> of a plan snapshot and the HMAC of
  \<open>auth.Pepper\<close> are parameters.

  The theory shows: a credential has exactly one spelling; the row that decides a user's access does not
  depend on the order of the rows; a store built at a restart publishes exactly the active keys of
  existing users with the plan of that row.
\<close>

section \<open>Credentials\<close>

definition CredentialPrefix :: string where
  "CredentialPrefix = ''pk_''"

definition IDHexLength :: nat where
  "IDHexLength = 32"

definition SecretHexLength :: nat where
  "SecretHexLength = 64"

definition FormatCredential :: "string \<Rightarrow> string \<Rightarrow> string" where
  "FormatCredential i secret = CredentialPrefix @ i @ ''_'' @ secret"

definition lowerHexChar :: "char \<Rightarrow> bool" where
  "lowerHexChar c \<longleftrightarrow> (let n = of_char c :: int in 48 \<le> n \<and> n \<le> 57 \<or> 97 \<le> n \<and> n \<le> 102)"

definition isLowerHex :: "string \<Rightarrow> bool" where
  "isLowerHex value \<longleftrightarrow> list_all lowerHexChar value"

text \<open>\<open>strings.SplitN\<close> with a single-byte separator.\<close>

fun SplitN :: "string \<Rightarrow> char \<Rightarrow> nat \<Rightarrow> string list" where
  "SplitN s sep 0 = []"
| "SplitN s sep (Suc 0) = [s]"
| "SplitN s sep (Suc (Suc n)) =
     (let part = takeWhile (\<lambda>c. c \<noteq> sep) s; rest = dropWhile (\<lambda>c. c \<noteq> sep) s
      in if rest = [] then [s] else part # SplitN (tl rest) sep (Suc n))"

definition ParseCredential :: "string \<Rightarrow> (string \<times> string) option" where
  "ParseCredential credential =
     (if take (length CredentialPrefix) credential \<noteq> CredentialPrefix then None
      else case SplitN credential (CHR ''_'') 3 of
        [_, i, secret] \<Rightarrow>
          if length i \<noteq> IDHexLength \<or> length secret \<noteq> SecretHexLength then None
          else if \<not> isLowerHex i \<or> \<not> isLowerHex secret then None
          else Some (i, secret)
      | _ \<Rightarrow> None)"

definition IsCredentialShape :: "string \<Rightarrow> bool" where
  "IsCredentialShape value \<longleftrightarrow> ParseCredential value \<noteq> None"

section \<open>The state of a key\<close>

record PlanSnapshot =
  sn_Platforms :: "string list"
  sn_IPTiers :: "string list"
  sn_TrafficBytes :: int
  sn_MaxConcurrent :: int
  sn_MaxRPS :: int
  sn_MaxBandwidthBps :: int
  sn_ExpiresAtNs :: int
  sn_Status :: string

definition zeroSnapshot :: PlanSnapshot where
  "zeroSnapshot = \<lparr>sn_Platforms = [], sn_IPTiers = [], sn_TrafficBytes = 0, sn_MaxConcurrent = 0, sn_MaxRPS = 0,
     sn_MaxBandwidthBps = 0, sn_ExpiresAtNs = 0, sn_Status = ''''\<rparr>"

definition AllowsAllPlatforms :: "PlanSnapshot \<Rightarrow> bool" where
  "AllowsAllPlatforms p \<longleftrightarrow> sn_Platforms p = []"

record KeyState =
  ks_KeyID :: string
  ks_UserID :: string
  ks_SecretHash :: string
  ks_Scope :: string
  ks_Status :: string
  ks_ExpiresAtNs :: int
  ks_Platforms :: "string list"
  ks_AllowlistSet :: bool
  ks_Allowlist :: "Prefix list"
  ks_UserStatus :: string
  ks_UserRole :: string
  ks_Plan :: PlanSnapshot

definition Usable :: "KeyState \<Rightarrow> int \<Rightarrow> bool" where
  "Usable k nowNs =
     (if ks_Status k \<noteq> KeyStatusActive then False
      else if ks_ExpiresAtNs k > 0 \<and> nowNs \<ge> ks_ExpiresAtNs k then False
      else if ks_UserStatus k \<noteq> UserStatusActive then False
      else if sn_Status (ks_Plan k) \<noteq> '''' \<and> sn_Status (ks_Plan k) \<noteq> SubscriptionStatusActive then False
      else if sn_ExpiresAtNs (ks_Plan k) > 0 \<and> nowNs \<ge> sn_ExpiresAtNs (ks_Plan k) then False
      else True)"

definition EffectivePlatforms :: "KeyState \<Rightarrow> string list" where
  "EffectivePlatforms k = (if ks_Platforms k \<noteq> [] then ks_Platforms k else sn_Platforms (ks_Plan k))"

definition AllowsPlatform :: "KeyState \<Rightarrow> string \<Rightarrow> bool" where
  "AllowsPlatform k platformID \<longleftrightarrow>
     EffectivePlatforms k = [] \<or> list_ex (\<lambda>allowed. allowed = platformID) (EffectivePlatforms k)"

definition AllowsIP :: "KeyState \<Rightarrow> Addr \<Rightarrow> bool" where
  "AllowsIP k addr =
     (if \<not> ks_AllowlistSet k then True
      else if \<not> IsValid addr then False
      else list_ex (\<lambda>prefix. PrefixContains prefix (Unmap addr)) (ks_Allowlist k))"

text \<open>\<open>strings.Trim(value, "[]")\<close>.\<close>

definition trimBrackets :: "string \<Rightarrow> string" where
  "trimBrackets s = (let bracket = (\<lambda>c. c = CHR ''['' \<or> c = CHR '']'') in rev (dropWhile bracket (rev (dropWhile bracket s))))"

definition allowEntry :: "string \<Rightarrow> Prefix option" where
  "allowEntry value0 =
     (let value = TrimSpace value0 in
      if value = '''' then None
      else if CHR ''/'' \<in> set value then map_option Masked (ParsePrefix value)
      else map_option (\<lambda>addr. PrefixFrom (Unmap addr) (BitLen (Unmap addr))) (ParseAddr (trimBrackets value)))"

definition parseAllowlist :: "string list \<Rightarrow> Prefix list" where
  "parseAllowlist values = List.map_filter allowEntry values"

section \<open>The store\<close>

record User =
  u_ID :: string
  u_Username :: string
  u_PasswordHash :: string
  u_Role :: string
  u_Status :: string
  u_TOTPSecretEnc :: string
  u_CreatedAtNs :: int
  u_UpdatedAtNs :: int
  u_LastLoginNs :: int
  u_TOTPLastUsedNs :: int

type_synonym Store = "(string, KeyState) gomap"

definition newKeyState :: "AccessKey \<Rightarrow> User \<Rightarrow> PlanSnapshot \<Rightarrow> KeyState" where
  "newKeyState key user plan =
     \<lparr>ks_KeyID = ak_ID key, ks_UserID = ak_UserID key, ks_SecretHash = ak_SecretHash key, ks_Scope = ak_Scope key,
      ks_Status = ak_Status key, ks_ExpiresAtNs = ak_ExpiresAtNs key, ks_Platforms = ak_Platforms key,
      ks_AllowlistSet = (ak_IPAllowlist key \<noteq> []), ks_Allowlist = parseAllowlist (ak_IPAllowlist key),
      ks_UserStatus = u_Status user, ks_UserRole = u_Role user, ks_Plan = plan\<rparr>"

definition NewStore :: Store where
  "NewStore = []"

definition Get :: "Store \<Rightarrow> string \<Rightarrow> KeyState option" where
  "Get s keyID = map_of s keyID"

definition Upsert :: "KeyState \<Rightarrow> Store \<Rightarrow> Store" where
  "Upsert k s = AList.update (ks_KeyID k) k s"

definition StoreDelete :: "string \<Rightarrow> Store \<Rightarrow> Store" where
  "StoreDelete keyID s = AList.delete keyID s"

definition Len :: "Store \<Rightarrow> nat" where
  "Len s = length s"

definition StoreRange :: "Store \<Rightarrow> KeyState list" where
  "StoreRange s = map snd s"

definition Publish :: "AccessKey \<Rightarrow> User \<Rightarrow> PlanSnapshot \<Rightarrow> Store \<Rightarrow> Store" where
  "Publish key user plan s = Upsert (newKeyState key user plan) s"

fun loadKeys :: "AccessKey list \<Rightarrow> (string, User) gomap \<Rightarrow> (string, PlanSnapshot) gomap \<Rightarrow> Store \<Rightarrow> Store" where
  "loadKeys [] users plans store = store"
| "loadKeys (key # rest) users plans store =
     loadKeys rest users plans
       (case map_of users (ak_UserID key) of
          None \<Rightarrow> store
        | Some user \<Rightarrow> AList.update (ak_ID key) (newKeyState key user (gm_get plans (ak_UserID key) zeroSnapshot)) store)"

definition Load :: "AccessKey list \<Rightarrow> (string, User) gomap \<Rightarrow> (string, PlanSnapshot) gomap \<Rightarrow> Store" where
  "Load accessKeys users plans = loadKeys accessKeys users plans []"

section \<open>The plan behind a key\<close>

definition zeroPlan :: Plan where
  "zeroPlan = \<lparr>p_ID = '''', p_Name = '''', p_Platforms = [], p_IPTiers = [], p_TrafficBytes = 0, p_Period = '''',
     p_MaxConcurrent = 0, p_MaxRPS = 0, p_MaxBandwidthBps = 0, p_MaxKeys = 0, p_DurationDays = 0, p_PriceMicro = 0,
     p_Status = ''''\<rparr>"

definition SnapshotForPlan :: "UserSubscription option \<Rightarrow> Plan option \<Rightarrow> PlanSnapshot" where
  "SnapshotForPlan sub plan =
     (let snap = (case plan of
          None \<Rightarrow> zeroSnapshot
        | Some p \<Rightarrow> zeroSnapshot\<lparr>sn_Platforms := p_Platforms p, sn_IPTiers := p_IPTiers p, sn_TrafficBytes := p_TrafficBytes p,
            sn_MaxConcurrent := p_MaxConcurrent p, sn_MaxRPS := p_MaxRPS p, sn_MaxBandwidthBps := p_MaxBandwidthBps p,
            sn_Status := p_Status p\<rparr>) in
      case sub of
        None \<Rightarrow> snap
      | Some s \<Rightarrow>
          let snap1 = snap\<lparr>sn_ExpiresAtNs := s_ExpiresAtNs s\<rparr> in
          if s_Status s \<noteq> SubscriptionStatusActive then snap1\<lparr>sn_Status := s_Status s\<rparr> else snap1)"

text \<open>Reading the plan out of a row: None is a snapshot that does not decode.\<close>

definition decodePlan :: "(string \<Rightarrow> Plan option) \<Rightarrow> UserSubscription \<Rightarrow> Plan option" where
  "decodePlan unmarshal sub =
     (let raw = TrimSpace (s_PlanSnapshotJSON sub) in if raw = '''' then Some zeroPlan else unmarshal raw)"

definition SnapshotFromSubscription :: "(string \<Rightarrow> Plan option) \<Rightarrow> UserSubscription option \<Rightarrow> PlanSnapshot option" where
  "SnapshotFromSubscription unmarshal sub =
     (case sub of
        None \<Rightarrow> Some zeroSnapshot
      | Some s \<Rightarrow>
          let raw = TrimSpace (s_PlanSnapshotJSON s) in
          if raw = '''' then Some (SnapshotForPlan sub None)
          else case unmarshal raw of None \<Rightarrow> None | Some plan \<Rightarrow> Some (SnapshotForPlan sub (Some plan)))"

definition newerSubscription :: "UserSubscription \<Rightarrow> UserSubscription \<Rightarrow> bool" where
  "newerSubscription a b =
     (if s_ExpiresAtNs a \<noteq> s_ExpiresAtNs b then s_ExpiresAtNs a > s_ExpiresAtNs b
      else if s_StartsAtNs a \<noteq> s_StartsAtNs b then s_StartsAtNs a > s_StartsAtNs b
      else s_ID a > s_ID b)"

text \<open>One turn of the loop: whether the candidate replaces the best row so far.\<close>

definition replaces :: "UserSubscription \<Rightarrow> UserSubscription \<Rightarrow> bool" where
  "replaces candidate best =
     (let candidateActive = active_sub candidate; bestActive = active_sub best in
      if candidateActive \<noteq> bestActive then candidateActive else newerSubscription candidate best)"

definition DecidingSubscription :: "UserSubscription list \<Rightarrow> UserSubscription option" where
  "DecidingSubscription subs =
     fold (\<lambda>candidate best. case best of
        None \<Rightarrow> Some candidate
      | Some b \<Rightarrow> if replaces candidate b then Some candidate else best) subs None"

text \<open>\<open>planSnapshots\<close>: the readable rows by user, with their plans by subscription id.\<close>

fun readRows :: "(string \<Rightarrow> Plan option) \<Rightarrow> UserSubscription list \<Rightarrow>
    (string, Plan) gomap \<times> (string, UserSubscription list) gomap \<Rightarrow> (string, Plan) gomap \<times> (string, UserSubscription list) gomap" where
  "readRows unmarshal [] acc = acc"
| "readRows unmarshal (sub # rest) (plans, byUser) =
     readRows unmarshal rest
       (case decodePlan unmarshal sub of
          None \<Rightarrow> (plans, byUser)
        | Some plan \<Rightarrow> (AList.update (s_ID sub) plan plans,
            AList.update (s_UserID sub) (gm_get byUser (s_UserID sub) [] @ [sub]) byUser))"

definition planSnapshots :: "(string \<Rightarrow> Plan option) \<Rightarrow> UserSubscription list \<Rightarrow> (string, PlanSnapshot) gomap" where
  "planSnapshots unmarshal subscriptions =
     (let (plans, byUser) = readRows unmarshal subscriptions ([], []) in
      List.map_filter (\<lambda>(userID, rows). map_option (\<lambda>sub.
        (userID, SnapshotForPlan (Some sub) (Some (gm_get plans (s_ID sub) zeroPlan)))) (DecidingSubscription rows)) byUser)"

text \<open>The tables the loader reads.\<close>

record key_db =
  kd_users :: "(string, User) gomap"
  kd_keys :: "(string, AccessKey) gomap"
  kd_subs :: "UserSubscription list"

definition ListActiveAccessKeys :: "key_db \<Rightarrow> AccessKey list" where
  "ListActiveAccessKeys db = sort_key ak_CreatedAtNs (filter (\<lambda>k. ak_Status k = KeyStatusActive) (map snd (kd_keys db)))"

definition ListUsers :: "key_db \<Rightarrow> User list" where
  "ListUsers db = sort_key u_Username (map snd (kd_users db))"

definition LoadFromState :: "(string \<Rightarrow> Plan option) \<Rightarrow> key_db \<Rightarrow> Store" where
  "LoadFromState unmarshal db =
     (let userByID = fold (\<lambda>user. AList.update (u_ID user) user) (ListUsers db) []
      in Load (ListActiveAccessKeys db) userByID (planSnapshots unmarshal (kd_subs db)))"

section \<open>The verifier of the data plane\<close>

definition VerifyCredential :: "(string \<Rightarrow> string \<Rightarrow> bool) \<Rightarrow> int \<Rightarrow> Store \<Rightarrow> string \<Rightarrow> Addr \<Rightarrow> KeyState option" where
  "VerifyCredential verifySecret nowNs store credential clientAddr =
     (case ParseCredential credential of
        None \<Rightarrow> None
      | Some (keyID, secret) \<Rightarrow>
          (case Get store keyID of
             None \<Rightarrow> None
           | Some k \<Rightarrow>
               if ks_Scope k \<noteq> KeyScopeProxy then None
               else if \<not> verifySecret (ks_SecretHash k) secret then None
               else if \<not> Usable k nowNs then None
               else if \<not> AllowsIP k clientAddr then None
               else Some k))"

text \<open>The identity, the key and whether a key was named at all.\<close>

definition splitAccessKeyCredential ::
  "(string \<Rightarrow> Addr \<Rightarrow> KeyState option) \<Rightarrow> string \<Rightarrow> Addr \<Rightarrow> string \<times> KeyState option \<times> bool" where
  "splitAccessKeyCredential verify credential clientAddr =
     (let tail = takeWhile (\<lambda>c. c \<noteq> CHR '':'') (rev credential); front = dropWhile (\<lambda>c. c \<noteq> CHR '':'') (rev credential) in
      if front \<noteq> [] then
        (if \<not> IsCredentialShape (rev tail) then (credential, None, False)
         else (rev (tl front), verify (rev tail) clientAddr, True))
      else if \<not> IsCredentialShape credential then (credential, None, False)
      else ('''', verify credential clientAddr, True))"

section \<open>Credentials have one spelling\<close>

lemma lowerHex_no_underscore: "isLowerHex i \<Longrightarrow> \<forall>c\<in>set i. c \<noteq> CHR ''_''"
  by (auto simp: isLowerHex_def list_all_iff lowerHexChar_def Let_def)

lemma SplitN_prefix:
  "SplitN (CredentialPrefix @ rest) (CHR ''_'') 3 =
     (let i = takeWhile (\<lambda>c. c \<noteq> CHR ''_'') rest; tail = dropWhile (\<lambda>c. c \<noteq> CHR ''_'') rest
      in if tail = [] then [''pk'', rest] else [''pk'', i, tl tail])"
  by (auto simp: CredentialPrefix_def numeral_3_eq_3 Let_def)

lemma cut_at:
  "\<forall>c\<in>set i. c \<noteq> sep \<Longrightarrow> takeWhile (\<lambda>c. c \<noteq> sep) (i @ sep # s) = i \<and> dropWhile (\<lambda>c. c \<noteq> sep) (i @ sep # s) = sep # s"
  by (induction i) auto

lemma cut_glue:
  assumes "dropWhile (\<lambda>c. c \<noteq> sep) s \<noteq> []"
  shows "s = takeWhile (\<lambda>c. c \<noteq> sep) s @ [sep] @ tl (dropWhile (\<lambda>c. c \<noteq> sep) s)"
proof -
  have "hd (dropWhile (\<lambda>c. c \<noteq> sep) s) = sep"
    using hd_dropWhile [OF assms] by simp
  then have "dropWhile (\<lambda>c. c \<noteq> sep) s = sep # tl (dropWhile (\<lambda>c. c \<noteq> sep) s)"
    using assms by (metis list.collapse)
  then show ?thesis
    using takeWhile_dropWhile_id [of "\<lambda>c. c \<noteq> sep" s] by simp
qed

definition credential_shape :: "string \<Rightarrow> string \<Rightarrow> bool" where
  "credential_shape i secret \<longleftrightarrow> length i = IDHexLength \<and> length secret = SecretHexLength \<and> isLowerHex i \<and> isLowerHex secret"

lemma ParseCredential_prefix:
  "ParseCredential (CredentialPrefix @ rest) =
     (let i = takeWhile (\<lambda>c. c \<noteq> CHR ''_'') rest; tail = dropWhile (\<lambda>c. c \<noteq> CHR ''_'') rest
      in if tail \<noteq> [] \<and> credential_shape i (tl tail) then Some (i, tl tail) else None)"
  by (simp add: ParseCredential_def SplitN_prefix credential_shape_def Let_def) blast

lemma parse_format: "ParseCredential credential = Some (i, secret) \<Longrightarrow> credential = FormatCredential i secret \<and> credential_shape i secret"
proof -
  assume parsed: "ParseCredential credential = Some (i, secret)"
  then have "take (length CredentialPrefix) credential = CredentialPrefix"
    by (auto simp: ParseCredential_def split: if_splits)
  then obtain rest where rest: "credential = CredentialPrefix @ rest"
    by (metis append_take_drop_id)
  then show "credential = FormatCredential i secret \<and> credential_shape i secret"
    using parsed cut_glue [of "CHR ''_''" rest]
    by (auto simp: ParseCredential_prefix Let_def FormatCredential_def split: if_splits)
qed

text \<open>
  C32. A credential has exactly one spelling: parsing answers an id and a secret for the text that
  formatting them gives, if both are lower-case hexadecimal of the right length, and for no other text.
\<close>
theorem credential_one_spelling:
  "ParseCredential credential = Some (i, secret) \<longleftrightarrow> credential = FormatCredential i secret \<and> credential_shape i secret"
proof (intro iffI)
  assume "ParseCredential credential = Some (i, secret)"
  then show "credential = FormatCredential i secret \<and> credential_shape i secret"
    by (rule parse_format)
next
  assume "credential = FormatCredential i secret \<and> credential_shape i secret"
  moreover from this have "\<forall>c\<in>set i. c \<noteq> CHR ''_''"
    using lowerHex_no_underscore by (auto simp: credential_shape_def)
  ultimately show "ParseCredential credential = Some (i, secret)"
    using cut_at [of i "CHR ''_''" secret] by (simp add: FormatCredential_def ParseCredential_prefix Let_def)
qed

section \<open>The deciding subscription\<close>

text \<open>\<open>replaces\<close> is a strict total order on rows with different ids.\<close>

lemma replaces_trans: "replaces a b \<Longrightarrow> replaces b c \<Longrightarrow> replaces a c"
  by (auto simp: replaces_def newerSubscription_def Let_def split: if_splits)

lemma replaces_irrefl: "\<not> replaces a a"
  by (simp add: replaces_def newerSubscription_def)

lemma replaces_total: "s_ID a \<noteq> s_ID b \<Longrightarrow> replaces a b \<or> replaces b a"
  by (auto simp: replaces_def newerSubscription_def Let_def)

definition decides :: "UserSubscription list \<Rightarrow> UserSubscription \<Rightarrow> bool" where
  "decides subs s \<longleftrightarrow> s \<in> set subs \<and> (\<forall>t\<in>set subs. \<not> replaces t s)"

lemma deciding_snoc:
  "DecidingSubscription (subs @ [s]) = (case DecidingSubscription subs of
     None \<Rightarrow> Some s | Some b \<Rightarrow> if replaces s b then Some s else Some b)"
  by (simp add: DecidingSubscription_def split: option.splits)

lemma DecidingSubscription_None: "DecidingSubscription subs = None \<longleftrightarrow> subs = []"
  by (induction subs rule: rev_induct) (auto simp: deciding_snoc DecidingSubscription_def split: option.splits if_splits)

lemma DecidingSubscription_decides: "DecidingSubscription subs = Some s \<Longrightarrow> decides subs s"
proof (induction subs arbitrary: s rule: rev_induct)
  case (snoc x subs)
  show ?case
  proof (cases "DecidingSubscription subs")
    case None
    then have "subs = []" "s = x"
      using snoc.prems deciding_snoc [of subs x] DecidingSubscription_None [of subs] by simp_all
    then show ?thesis
      by (simp add: decides_def replaces_irrefl)
  next
    case (Some b)
    from snoc.IH [OF Some] show ?thesis
      using snoc.prems Some replaces_trans [of _ x b] replaces_irrefl by (auto simp: deciding_snoc decides_def split: if_splits)
  qed
qed (simp add: DecidingSubscription_def)

lemma decides_unique: "distinct (map s_ID subs) \<Longrightarrow> decides subs s \<Longrightarrow> decides subs t \<Longrightarrow> s = t"
  using replaces_total [of s t] by (auto simp: decides_def distinct_map inj_on_def)

lemma DecidingSubscription_iff:
  "distinct (map s_ID subs) \<Longrightarrow> DecidingSubscription subs = Some s \<longleftrightarrow> decides subs s"
  using DecidingSubscription_decides decides_unique DecidingSubscription_None [of subs]
  by (metis decides_def empty_iff list.set(1) not_None_eq)

text \<open>The answer is the same for every order in which the rows come back.\<close>

lemma DecidingSubscription_perm:
  assumes "set subs = set subs'" "distinct (map s_ID subs)" "distinct (map s_ID subs')"
  shows "DecidingSubscription subs = DecidingSubscription subs'"
proof (cases "DecidingSubscription subs")
  case None
  then show ?thesis
    using assms(1) DecidingSubscription_None [of subs'] by (simp add: DecidingSubscription_None)
next
  case (Some s)
  then show ?thesis
    using assms DecidingSubscription_iff by (metis decides_def)
qed

section \<open>What a restart publishes\<close>

text \<open>The specification: the state a key should have, read off the tables.\<close>

definition rowsOf :: "key_db \<Rightarrow> string \<Rightarrow> UserSubscription list" where
  "rowsOf db u = filter (\<lambda>s. s_UserID s = u) (kd_subs db)"

definition planOf :: "(string \<Rightarrow> Plan option) \<Rightarrow> key_db \<Rightarrow> string \<Rightarrow> PlanSnapshot" where
  "planOf unmarshal db u =
     (case DecidingSubscription (rowsOf db u) of None \<Rightarrow> zeroSnapshot | Some s \<Rightarrow> SnapshotForPlan (Some s) (decodePlan unmarshal s))"

definition published :: "(string \<Rightarrow> Plan option) \<Rightarrow> key_db \<Rightarrow> string \<Rightarrow> KeyState option" where
  "published unmarshal db kid =
     (case map_of (kd_keys db) kid of
        None \<Rightarrow> None
      | Some k \<Rightarrow> if ak_Status k \<noteq> KeyStatusActive then None
          else map_option (\<lambda>u. newKeyState k u (planOf unmarshal db (ak_UserID k))) (map_of (kd_users db) (ak_UserID k)))"

definition db_wf :: "(string \<Rightarrow> Plan option) \<Rightarrow> key_db \<Rightarrow> bool" where
  "db_wf unmarshal db \<longleftrightarrow> gm_wf (kd_users db) \<and> gm_wf (kd_keys db) \<and> list_all (\<lambda>(i, u). u_ID u = i) (kd_users db) \<and>
     list_all (\<lambda>(i, k). ak_ID k = i) (kd_keys db) \<and> distinct (map s_ID (kd_subs db)) \<and>
     list_all (\<lambda>s. decodePlan unmarshal s \<noteq> None) (kd_subs db)"

lemma find_by_id:
  assumes "distinct (map f xs)"
  shows "find (\<lambda>x. f x = i) xs = Some x \<longleftrightarrow> x \<in> set xs \<and> f x = i"
proof -
  have "find (\<lambda>x. f x = i) xs = Some x \<Longrightarrow> x \<in> set xs \<and> f x = i"
    by (auto simp: find_Some_iff)
  moreover have "x \<in> set xs \<Longrightarrow> f x = i \<Longrightarrow> find (\<lambda>x. f x = i) xs = Some x"
    using assms by (induction xs) auto
  ultimately show ?thesis
    by blast
qed

text \<open>A list of rows with distinct ids, read back from a table in any order.\<close>

lemma find_in_table:
  assumes wf: "gm_wf m" "list_all (\<lambda>(i, x). f x = i) m" and xs: "set xs = {x \<in> snd ` set m. P x}" "distinct (map f xs)"
  shows "find (\<lambda>x. f x = i) xs = (case map_of m i of Some x \<Rightarrow> if P x then Some x else None | None \<Rightarrow> None)"
proof -
  have row: "(j, x) \<in> set m \<longleftrightarrow> map_of m j = Some x" for j x
    by (rule gm_mem_iff [OF wf(1)])
  have own: "map_of m j = Some x \<Longrightarrow> f x = j" for j x
    using wf(2) map_of_SomeD [of m j x] by (auto simp: list_all_iff)
  have found: "find (\<lambda>x. f x = i) xs = Some x \<longleftrightarrow> map_of m i = Some x \<and> P x" for x
  proof -
    have "x \<in> snd ` set m \<and> f x = i \<longleftrightarrow> map_of m i = Some x"
    proof
      assume x: "x \<in> snd ` set m \<and> f x = i"
      then obtain j where j: "(j, x) \<in> set m"
        by auto
      then show "map_of m i = Some x"
        using x row own by metis
    next
      assume x: "map_of m i = Some x"
      then have "(i, x) \<in> set m"
        by (rule map_of_SomeD)
      then have "x \<in> snd ` set m"
        by force
      then show "x \<in> snd ` set m \<and> f x = i"
        using own [OF x] by simp
    qed
    then show ?thesis
      unfolding find_by_id [OF xs(2)] xs(1) by blast
  qed
  have "find (\<lambda>x. f x = i) xs = Some x \<longleftrightarrow> (case map_of m i of Some x \<Rightarrow> if P x then Some x else None | None \<Rightarrow> None) = Some x" for x
    unfolding found by (auto split: option.splits)
  then show ?thesis
    by (metis option.exhaust)
qed

lemma find_absent: "i \<notin> f ` set xs \<Longrightarrow> find (\<lambda>x. f x = i) xs = None"
  by (induction xs) auto

lemma load_users:
  "distinct (map u_ID us) \<Longrightarrow> map_of (fold (\<lambda>user. AList.update (u_ID user) user) us m) i =
     (case find (\<lambda>u. u_ID u = i) us of None \<Rightarrow> map_of m i | Some u \<Rightarrow> Some u)"
proof (induction us arbitrary: m)
  case (Cons u us)
  have "u_ID u = i \<Longrightarrow> find (\<lambda>u. u_ID u = i) us = None"
    using Cons.prems by (intro find_absent) auto
  then show ?case
    using Cons by (auto simp: gomap_simps split: option.splits)
qed simp

lemma load_keys:
  "distinct (map ak_ID ks) \<Longrightarrow> map_of (loadKeys ks users plans store) i =
     (case find (\<lambda>k. ak_ID k = i) ks of
        None \<Rightarrow> map_of store i
      | Some k \<Rightarrow> (case map_of users (ak_UserID k) of
          None \<Rightarrow> map_of store i
        | Some u \<Rightarrow> Some (newKeyState k u (gm_get plans (ak_UserID k) zeroSnapshot))))"
proof (induction ks arbitrary: store)
  case (Cons k ks)
  have "ak_ID k = i \<Longrightarrow> find (\<lambda>k. ak_ID k = i) ks = None"
    using Cons.prems by (intro find_absent) auto
  then show ?case
    using Cons by (auto simp: gomap_simps split: option.splits)
qed simp

text \<open>The two maps \<open>readRows\<close> builds.\<close>

lemma readRows_byUser:
  assumes "list_all (\<lambda>s. decodePlan unmarshal s \<noteq> None) subs" "readRows unmarshal subs (plans, byUser) = (plans', byUser')"
  shows "gm_get byUser' u [] = gm_get byUser u [] @ filter (\<lambda>s. s_UserID s = u) subs"
  using assms by (induction subs arbitrary: plans byUser) (auto simp: gomap_simps split: option.splits)

lemma readRows_wf: "readRows unmarshal subs (plans, byUser) = (plans', byUser') \<Longrightarrow> gm_wf byUser \<Longrightarrow> gm_wf byUser'"
proof (induction subs arbitrary: plans byUser)
  case (Cons s subs)
  obtain plans1 byUser1 where "readRows unmarshal subs (plans1, byUser1) = (plans', byUser')" "gm_wf byUser1"
    using Cons.prems by (cases "decodePlan unmarshal s") auto
  then show ?case
    by (rule Cons.IH)
qed simp

lemma readRows_plans_other:
  "readRows unmarshal subs (plans, byUser) = (plans', byUser') \<Longrightarrow> i \<notin> s_ID ` set subs \<Longrightarrow> map_of plans' i = map_of plans i"
  by (induction subs arbitrary: plans byUser) (auto simp: gomap_simps split: option.splits)

lemma readRows_plans:
  assumes "distinct (map s_ID subs)" "readRows unmarshal subs (plans, byUser) = (plans', byUser')" "s \<in> set subs"
    "decodePlan unmarshal s = Some p"
  shows "map_of plans' (s_ID s) = Some p"
  using assms
proof (induction subs arbitrary: plans byUser)
  case (Cons x subs)
  show ?case
  proof (cases "s = x")
    case True
    then show ?thesis
      using Cons.prems readRows_plans_other [of unmarshal subs _ _ plans' byUser' "s_ID s"] by (auto simp: gomap_simps)
  next
    case False
    obtain plans1 byUser1 where "readRows unmarshal subs (plans1, byUser1) = (plans', byUser')"
      using Cons.prems(2) by (auto split: option.splits)
    then show ?thesis
      using Cons False by auto
  qed
qed simp

lemma map_of_map_filter:
  "gm_wf m \<Longrightarrow> map_of (List.map_filter (\<lambda>(k, v). map_option (\<lambda>x. (k, f x)) (g v)) m) i =
     (case map_of m i of None \<Rightarrow> None | Some v \<Rightarrow> map_option f (g v))"
proof (induction m)
  case (Cons p m)
  obtain k v where p: "p = (k, v)"
    by fastforce
  have "fst ` set (List.map_filter (\<lambda>(k, v). map_option (\<lambda>x. (k, f x)) (g v)) m) \<subseteq> gm_keys m"
    by (force simp: List.map_filter_def)
  then have "k \<notin> fst ` set (List.map_filter (\<lambda>(k, v). map_option (\<lambda>x. (k, f x)) (g v)) m)"
    using Cons.prems by (auto simp: p)
  then show ?case
    using Cons by (auto simp: p List.map_filter_def map_of_eq_None_iff split: option.splits)
qed (simp add: List.map_filter_def)

lemma db_wfD:
  assumes "db_wf unmarshal db"
  shows "gm_wf (kd_users db)" "gm_wf (kd_keys db)" "list_all (\<lambda>(i, u). u_ID u = i) (kd_users db)"
    "list_all (\<lambda>(i, k). ak_ID k = i) (kd_keys db)" "distinct (map s_ID (kd_subs db))"
    "list_all (\<lambda>s. decodePlan unmarshal s \<noteq> None) (kd_subs db)"
  using assms by (simp_all add: db_wf_def)

lemma planSnapshots_get:
  assumes "db_wf unmarshal db"
  shows "gm_get (planSnapshots unmarshal (kd_subs db)) u zeroSnapshot = planOf unmarshal db u"
proof -
  note D = db_wfD [OF assms]
  obtain plans byUser where rr: "readRows unmarshal (kd_subs db) ([], []) = (plans, byUser)"
    by fastforce
  have wf: "gm_wf byUser"
    using readRows_wf [OF rr] by simp
  have rows: "gm_get byUser u [] = rowsOf db u"
    using readRows_byUser [OF D(6) rr, of u] by (simp add: rowsOf_def gm_get_def)
  have snaps: "map_of (planSnapshots unmarshal (kd_subs db)) u = (case map_of byUser u of None \<Rightarrow> None
    | Some rs \<Rightarrow> map_option (\<lambda>sub. SnapshotForPlan (Some sub) (Some (gm_get plans (s_ID sub) zeroPlan))) (DecidingSubscription rs))"
    unfolding planSnapshots_def rr by (simp add: map_of_map_filter [OF wf])
  show ?thesis
  proof (cases "DecidingSubscription (rowsOf db u)")
    case None
    then have "map_of (planSnapshots unmarshal (kd_subs db)) u = None"
      unfolding snaps using rows by (cases "map_of byUser u") (simp_all add: gm_get_def)
    then show ?thesis
      using None by (simp add: planOf_def gm_get_def)
  next
    case (Some s)
    then have "s \<in> set (rowsOf db u)"
      using DecidingSubscription_decides by (auto simp: decides_def)
    moreover from this have "rowsOf db u \<noteq> []"
      by (metis empty_iff list.set(1))
    ultimately have s: "s \<in> set (kd_subs db)" "rowsOf db u \<noteq> []"
      by (simp_all add: rowsOf_def)
    then obtain p where p: "decodePlan unmarshal s = Some p"
      using D(6) by (auto simp: list_all_iff)
    have "map_of byUser u = Some (rowsOf db u)"
      using rows s(2) by (auto simp: gm_get_def split: option.splits)
    then show ?thesis
      using snaps Some p readRows_plans [OF D(5) rr s(1) p] by (simp add: planOf_def gm_get_def)
  qed
qed

lemma table_ids:
  assumes "gm_wf m" "list_all (\<lambda>(i, x). f x = i) m"
  shows "distinct (map f (sort_key g (filter P (map snd m))))"
proof -
  have "map f (map snd m) = map fst m"
    using assms(2) by (induction m) auto
  then have "distinct (map f (map snd m))"
    using assms(1) by (simp only:)
  then have "distinct (map f (filter P (map snd m)))"
    by (rule distinct_map_filter)
  then show ?thesis
    by (simp add: distinct_map)
qed

lemma restart_publishes:
  assumes "db_wf unmarshal db"
  shows "Get (LoadFromState unmarshal db) kid = published unmarshal db kid"
proof -
  note D = db_wfD [OF assms]
  let ?users = "fold (\<lambda>user. AList.update (u_ID user) user) (ListUsers db) []"
  have users: "map_of ?users u = map_of (kd_users db) u" for u
  proof -
    have ids: "distinct (map u_ID (ListUsers db))"
      using table_ids [OF D(1,3), of u_Username "\<lambda>_. True"] by (simp add: ListUsers_def)
    have "set (ListUsers db) = {x \<in> snd ` set (kd_users db). True}"
      by (simp add: ListUsers_def)
    then show ?thesis
      unfolding load_users [OF ids] using find_in_table [OF D(1,3) _ ids, of "\<lambda>_. True" u] by (cases "map_of (kd_users db) u") simp_all
  qed
  have ids: "distinct (map ak_ID (ListActiveAccessKeys db))"
    unfolding ListActiveAccessKeys_def by (rule table_ids [OF D(2,4)])
  have "set (ListActiveAccessKeys db) = {x \<in> snd ` set (kd_keys db). ak_Status x = KeyStatusActive}"
    by (auto simp: ListActiveAccessKeys_def)
  then have key: "find (\<lambda>k. ak_ID k = kid) (ListActiveAccessKeys db) = (case map_of (kd_keys db) kid of
      Some x \<Rightarrow> if ak_Status x = KeyStatusActive then Some x else None | None \<Rightarrow> None)"
    by (rule find_in_table [OF D(2,4) _ ids])
  show ?thesis
    unfolding Get_def LoadFromState_def Load_def Let_def load_keys [OF ids] key
    by (simp add: published_def users planSnapshots_get [OF assms] split: option.splits)
qed

end
