(* ===== verification/Key_Console.thy ===== *)
theory Key_Console
  imports Access_Keys
begin

text \<open>
  The console's side of access keys: \<open>internal/service/control_plane_accesskey.go\<close> and the key rows of
  \<open>internal/state/repo_user.go\<close>. The console writes the tables and then puts the change into the live
  store the data plane reads.

  A patch is its decoded fields. The canonical text of an address list entry (\<open>netip\<close> printing) and the
  hash of a secret are parameters. The id and the secret of a new key are arguments: the source draws
  them at random.

  The theory shows: after every sequence of console operations the live store is what a restart would
  build; a credential verifies only for a key, an account and a subscription in good standing; creating
  keys respects the plan's limit.
\<close>

section \<open>Key rows\<close>

definition normalizeAccessKey :: "AccessKey \<Rightarrow> AccessKey" where
  "normalizeAccessKey k =
     k\<lparr>ak_Scope := (if ak_Scope k = '''' then KeyScopeProxy else ak_Scope k),
       ak_Status := (if ak_Status k = '''' then KeyStatusActive else ak_Status k)\<rparr>"

text \<open>The CHECK constraints of the table.\<close>

definition key_check :: "AccessKey \<Rightarrow> bool" where
  "key_check k \<longleftrightarrow> (ak_Scope k = KeyScopeProxy \<or> ak_Scope k = ''admin'') \<and> (ak_Status k = KeyStatusActive \<or> ak_Status k = ''disabled'')"

definition InsertAccessKey :: "AccessKey \<Rightarrow> key_db \<Rightarrow> (unit, key_db) call" where
  "InsertAccessKey k0 db =
     (if ak_SecretHash k0 = '''' then (Inl (ErrOther ''secret hash is empty''), db)
      else let k = normalizeAccessKey k0 in
        if map_of (kd_keys db) (ak_ID k) \<noteq> None \<or> map_of (kd_users db) (ak_UserID k) = None \<or> \<not> key_check k
        then (Inl (ErrOther ''insert access key''), db)
        else (Inr (), db\<lparr>kd_keys := AList.update (ak_ID k) k (kd_keys db)\<rparr>))"

definition UpdateAccessKey :: "AccessKey \<Rightarrow> key_db \<Rightarrow> (unit, key_db) call" where
  "UpdateAccessKey k0 db =
     (let k = normalizeAccessKey k0 in
      case map_of (kd_keys db) (ak_ID k) of
        None \<Rightarrow> (Inl ErrNotFound, db)
      | Some old \<Rightarrow>
          if \<not> key_check k then (Inl (ErrOther ''update access key''), db)
          else (Inr (), db\<lparr>kd_keys := AList.update (ak_ID k) (k\<lparr>ak_UserID := ak_UserID old, ak_CreatedAtNs := ak_CreatedAtNs old\<rparr>)
                 (kd_keys db)\<rparr>))"

definition GetAccessKey :: "string \<Rightarrow> key_db \<Rightarrow> error + AccessKey" where
  "GetAccessKey i db = (case map_of (kd_keys db) i of None \<Rightarrow> Inl ErrNotFound | Some k \<Rightarrow> Inr k)"

definition ListAccessKeysByUser :: "string \<Rightarrow> key_db \<Rightarrow> AccessKey list" where
  "ListAccessKeysByUser userID db = sort_key ak_CreatedAtNs (filter (\<lambda>k. ak_UserID k = userID) (map snd (kd_keys db)))"

definition DeleteAccessKey :: "string \<Rightarrow> key_db \<Rightarrow> (unit, key_db) call" where
  "DeleteAccessKey i db =
     (case map_of (kd_keys db) i of
        None \<Rightarrow> (Inl ErrNotFound, db)
      | Some _ \<Rightarrow> (Inr (), db\<lparr>kd_keys := AList.delete i (kd_keys db)\<rparr>))"

section \<open>Publishing\<close>

datatype service_error = NotFoundError | ConflictError | InvalidArgument | InternalError

record console =
  co_db :: key_db
  co_store :: Store

type_synonym 'a service = "(service_error + 'a) \<times> console"

definition currentSubscription :: "string \<Rightarrow> key_db \<Rightarrow> UserSubscription option" where
  "currentSubscription userID db = DecidingSubscription (filter (\<lambda>row. s_UserID row = userID) (kd_subs db))"

definition userPlanSnapshot :: "(string \<Rightarrow> Plan option) \<Rightarrow> string \<Rightarrow> key_db \<Rightarrow> service_error + PlanSnapshot" where
  "userPlanSnapshot unmarshal userID db =
     (case currentSubscription userID db of
        None \<Rightarrow> Inr zeroSnapshot
      | Some sub \<Rightarrow> (case SnapshotFromSubscription unmarshal (Some sub) of None \<Rightarrow> Inl InternalError | Some snapshot \<Rightarrow> Inr snapshot))"

definition publishKey :: "(string \<Rightarrow> Plan option) \<Rightarrow> AccessKey \<Rightarrow> User \<Rightarrow> console \<Rightarrow> unit service" where
  "publishKey unmarshal row user c =
     (if ak_Status row \<noteq> KeyStatusActive then (Inr (), c\<lparr>co_store := StoreDelete (ak_ID row) (co_store c)\<rparr>)
      else case userPlanSnapshot unmarshal (ak_UserID row) (co_db c) of
        Inl err \<Rightarrow> (Inl err, c)
      | Inr snapshot \<Rightarrow> (Inr (), c\<lparr>co_store := Publish row user snapshot (co_store c)\<rparr>))"

definition republishRow :: "User \<Rightarrow> PlanSnapshot \<Rightarrow> AccessKey \<Rightarrow> Store \<Rightarrow> Store" where
  "republishRow user snapshot row store =
     (if ak_Status row \<noteq> KeyStatusActive then StoreDelete (ak_ID row) store else Publish row user snapshot store)"

definition republishUserKeys :: "(string \<Rightarrow> Plan option) \<Rightarrow> string \<Rightarrow> console \<Rightarrow> unit service" where
  "republishUserKeys unmarshal userID c =
     (case map_of (kd_users (co_db c)) userID of
        None \<Rightarrow> (Inl NotFoundError, c)
      | Some user \<Rightarrow>
          (case userPlanSnapshot unmarshal userID (co_db c) of
             Inl err \<Rightarrow> (Inl err, c)
           | Inr snapshot \<Rightarrow>
               (Inr (), c\<lparr>co_store := fold (republishRow user snapshot) (ListAccessKeysByUser userID (co_db c)) (co_store c)\<rparr>)))"

section \<open>The console's operations\<close>

definition lookupUserKey :: "string \<Rightarrow> string \<Rightarrow> key_db \<Rightarrow> service_error + AccessKey" where
  "lookupUserKey userID keyID db =
     (case GetAccessKey keyID db of
        Inl _ \<Rightarrow> Inl NotFoundError
      | Inr row \<Rightarrow> if ak_UserID row \<noteq> userID then Inl NotFoundError else Inr row)"

definition planFromSnapshotJSON :: "(string \<Rightarrow> Plan option) \<Rightarrow> string \<Rightarrow> Plan option" where
  "planFromSnapshotJSON unmarshal raw = (let trimmed = TrimSpace raw in if trimmed = '''' then Some zeroPlan else unmarshal trimmed)"

definition maxKeysForPlan :: "(string \<Rightarrow> Plan option) \<Rightarrow> string \<Rightarrow> key_db \<Rightarrow> service_error + int" where
  "maxKeysForPlan unmarshal userID db =
     (case currentSubscription userID db of
        None \<Rightarrow> Inl ConflictError
      | Some sub \<Rightarrow>
          if s_Status sub \<noteq> SubscriptionStatusActive then Inl ConflictError
          else case planFromSnapshotJSON unmarshal (s_PlanSnapshotJSON sub) of
            None \<Rightarrow> Inl InternalError
          | Some plan \<Rightarrow> Inr (p_MaxKeys plan))"

definition activeKeys :: "string \<Rightarrow> key_db \<Rightarrow> nat" where
  "activeKeys userID db = length (filter (\<lambda>row. ak_Status row = KeyStatusActive) (ListAccessKeysByUser userID db))"

definition checkKeyAllowance :: "(string \<Rightarrow> Plan option) \<Rightarrow> string \<Rightarrow> key_db \<Rightarrow> service_error + unit" where
  "checkKeyAllowance unmarshal userID db =
     (case maxKeysForPlan unmarshal userID db of
        Inl err \<Rightarrow> Inl err
      | Inr limit \<Rightarrow> if limit \<le> 0 then Inr () else if int (activeKeys userID db) \<ge> limit then Inl ConflictError else Inr ())"

definition insertAccessKeyWithinAllowance ::
  "(string \<Rightarrow> Plan option) \<Rightarrow> User \<Rightarrow> AccessKey \<Rightarrow> key_db \<Rightarrow> (service_error + unit) \<times> key_db" where
  "insertAccessKeyWithinAllowance unmarshal user row db =
     (case checkKeyAllowance unmarshal (u_ID user) db of
        Inl err \<Rightarrow> (Inl err, db)
      | Inr _ \<Rightarrow> (case InsertAccessKey row db of (Inl _, _) \<Rightarrow> (Inl InternalError, db) | (Inr _, db') \<Rightarrow> (Inr (), db')))"

text \<open>The list helpers: first occurrences of the trimmed, non-empty entries.\<close>

fun keepNew :: "string list \<Rightarrow> string list \<Rightarrow> string list" where
  "keepNew seen [] = []"
| "keepNew seen (v # vs) =
     (let trimmed = TrimSpace v in if trimmed = '''' \<or> trimmed \<in> set seen then keepNew seen vs else trimmed # keepNew (trimmed # seen) vs)"

definition normalizeStringList :: "string list \<Rightarrow> string list" where
  "normalizeStringList values = keepNew [] values"

fun canonicalEntries :: "(string \<Rightarrow> string option) \<Rightarrow> string list \<Rightarrow> string list \<Rightarrow> string list option" where
  "canonicalEntries canon seen [] = Some []"
| "canonicalEntries canon seen (v # vs) =
     (let trimmed = TrimSpace v in
      if trimmed = '''' then canonicalEntries canon seen vs
      else case canon trimmed of
        None \<Rightarrow> None
      | Some text \<Rightarrow> if text \<in> set seen then canonicalEntries canon seen vs
          else map_option ((#) text) (canonicalEntries canon (text # seen) vs))"

definition normalizeIPAllowlist :: "(string \<Rightarrow> string option) \<Rightarrow> string list \<Rightarrow> string list option" where
  "normalizeIPAllowlist canon values = canonicalEntries canon [] values"

definition dayNs :: int where
  "dayNs = 86400000000000"

definition MaxInt64 :: int where
  "MaxInt64 = 9223372036854775807"

definition expiryFromDays :: "int \<Rightarrow> int \<Rightarrow> int" where
  "expiryFromDays days nowNs =
     (if days \<le> 0 then 0
      else if days > MaxInt64 div dayNs then MaxInt64
      else let offset = wrap64 (days * dayNs) in
        if nowNs > wrap64 (MaxInt64 - offset) then MaxInt64 else wrap64 (nowNs + offset))"

record AccessKeyInput =
  ai_Name :: string
  ai_Platforms :: "string list"
  ai_IPAllowlist :: "string list"
  ai_ExpiresInDays :: int

definition newRow :: "(string \<Rightarrow> string) \<Rightarrow> string \<Rightarrow> string \<Rightarrow> string \<Rightarrow> AccessKeyInput \<Rightarrow> string list \<Rightarrow> int \<Rightarrow> AccessKey" where
  "newRow hashSecret userID i secret input allowlist nowNs =
     \<lparr>ak_ID = i, ak_UserID = userID, ak_Name = TrimSpace (ai_Name input), ak_SecretHash = hashSecret secret,
      ak_Platforms = normalizeStringList (ai_Platforms input), ak_IPAllowlist = allowlist, ak_Scope = KeyScopeProxy,
      ak_Status = KeyStatusActive, ak_ExpiresAtNs = (if ai_ExpiresInDays input > 0 then expiryFromDays (ai_ExpiresInDays input) nowNs else 0),
      ak_LastUsedNs = 0, ak_CreatedAtNs = nowNs\<rparr>"

definition CreateAccessKey ::
  "(string \<Rightarrow> Plan option) \<Rightarrow> (string \<Rightarrow> string option) \<Rightarrow> (string \<Rightarrow> string) \<Rightarrow> string \<Rightarrow> AccessKeyInput \<Rightarrow> string \<Rightarrow> string \<Rightarrow> int
     \<Rightarrow> console \<Rightarrow> (AccessKey \<times> string) service" where
  "CreateAccessKey unmarshal canon hashSecret userID input i secret nowNs c =
     (case map_of (kd_users (co_db c)) userID of
        None \<Rightarrow> (Inl NotFoundError, c)
      | Some user \<Rightarrow>
          if TrimSpace (ai_Name input) = '''' then (Inl InvalidArgument, c)
          else case normalizeIPAllowlist canon (ai_IPAllowlist input) of
            None \<Rightarrow> (Inl InvalidArgument, c)
          | Some allowlist \<Rightarrow>
              if ai_ExpiresInDays input < 0 then (Inl InvalidArgument, c)
              else let row = newRow hashSecret userID i secret input allowlist nowNs in
                (case insertAccessKeyWithinAllowance unmarshal user row (co_db c) of
                   (Inl err, _) \<Rightarrow> (Inl err, c)
                 | (Inr _, db) \<Rightarrow>
                     (case publishKey unmarshal row user (c\<lparr>co_db := db\<rparr>) of
                        (Inl err, c') \<Rightarrow> (Inl err, c')
                      | (Inr _, c') \<Rightarrow> (Inr (row, FormatCredential i secret), c'))))"

record KeyPatch =
  kp_name :: "string option"
  kp_platforms :: "string list option"
  kp_ip_allowlist :: "string list option"
  kp_status :: "string option"

definition patchName :: "KeyPatch \<Rightarrow> AccessKey \<Rightarrow> AccessKey option" where
  "patchName patch row = (case kp_name patch of
     None \<Rightarrow> Some row
   | Some v \<Rightarrow> if TrimSpace v = '''' then None else Some (row\<lparr>ak_Name := TrimSpace v\<rparr>))"

definition patchPlatforms :: "KeyPatch \<Rightarrow> AccessKey \<Rightarrow> AccessKey" where
  "patchPlatforms patch row = (case kp_platforms patch of None \<Rightarrow> row | Some v \<Rightarrow> row\<lparr>ak_Platforms := normalizeStringList v\<rparr>)"

definition patchAllowlist :: "(string \<Rightarrow> string option) \<Rightarrow> KeyPatch \<Rightarrow> AccessKey \<Rightarrow> AccessKey option" where
  "patchAllowlist canon patch row = (case kp_ip_allowlist patch of
     None \<Rightarrow> Some row
   | Some v \<Rightarrow> map_option (\<lambda>l. row\<lparr>ak_IPAllowlist := l\<rparr>) (normalizeIPAllowlist canon v))"

definition patchStatus :: "KeyPatch \<Rightarrow> AccessKey \<Rightarrow> AccessKey option" where
  "patchStatus patch row = (case kp_status patch of
     None \<Rightarrow> Some row
   | Some v \<Rightarrow> if v \<noteq> KeyStatusActive \<and> v \<noteq> ''disabled'' then None else Some (row\<lparr>ak_Status := v\<rparr>))"

definition patchRow :: "(string \<Rightarrow> string option) \<Rightarrow> KeyPatch \<Rightarrow> AccessKey \<Rightarrow> AccessKey option" where
  "patchRow canon patch row =
     Option.bind (patchName patch row) (\<lambda>row. Option.bind (patchAllowlist canon patch (patchPlatforms patch row)) (patchStatus patch))"

definition ConsoleUpdateKey ::
  "(string \<Rightarrow> Plan option) \<Rightarrow> (string \<Rightarrow> string option) \<Rightarrow> string \<Rightarrow> string \<Rightarrow> KeyPatch \<Rightarrow> console \<Rightarrow> AccessKey service" where
  "ConsoleUpdateKey unmarshal canon userID keyID patch c =
     (case lookupUserKey userID keyID (co_db c) of
        Inl err \<Rightarrow> (Inl err, c)
      | Inr row0 \<Rightarrow>
          (case map_of (kd_users (co_db c)) userID of
             None \<Rightarrow> (Inl NotFoundError, c)
           | Some user \<Rightarrow>
               (case patchRow canon patch row0 of
                  None \<Rightarrow> (Inl InvalidArgument, c)
                | Some row \<Rightarrow>
                    (case UpdateAccessKey row (co_db c) of
                       (Inl _, _) \<Rightarrow> (Inl InternalError, c)
                     | (Inr _, db) \<Rightarrow>
                         (case publishKey unmarshal row user (c\<lparr>co_db := db\<rparr>) of
                            (Inl err, c') \<Rightarrow> (Inl err, c')
                          | (Inr _, c') \<Rightarrow> (Inr row, c'))))))"

definition ConsoleDeleteKey :: "string \<Rightarrow> string \<Rightarrow> console \<Rightarrow> unit service" where
  "ConsoleDeleteKey userID keyID c =
     (case lookupUserKey userID keyID (co_db c) of
        Inl err \<Rightarrow> (Inl err, c)
      | Inr _ \<Rightarrow>
          (case DeleteAccessKey keyID (co_db c) of
             (Inl _, _) \<Rightarrow> (Inl InternalError, c)
           | (Inr _, db) \<Rightarrow> (Inr (), c\<lparr>co_db := db, co_store := StoreDelete keyID (co_store c)\<rparr>)))"

section \<open>The live store is what a restart would build\<close>

text \<open>
  The operations that change what a credential may do: the three on keys, and an edit of an account (its
  row and its subscriptions, whatever the edit) that ends with \<open>republishUserKeys\<close>, as every such handler
  does. An edit that breaks a constraint of the tables is refused. A restart rebuilds the store.
\<close>

datatype key_op =
    KCreate string AccessKeyInput string string int
  | KUpdate string string KeyPatch
  | KDelete string string
  | KAccount User "UserSubscription list"
  | KRestart

definition editAccount :: "User \<Rightarrow> UserSubscription list \<Rightarrow> key_db \<Rightarrow> key_db" where
  "editAccount user subs db =
     (let others = filter (\<lambda>s. s_UserID s \<noteq> u_ID user) (kd_subs db) in
      if distinct (map s_ID (others @ subs)) \<and> list_all (\<lambda>s. s_UserID s = u_ID user \<and> status_check s) subs
      then db\<lparr>kd_users := AList.update (u_ID user) user (kd_users db), kd_subs := others @ subs\<rparr>
      else db)"

fun key_step :: "(string \<Rightarrow> Plan option) \<Rightarrow> (string \<Rightarrow> string option) \<Rightarrow> (string \<Rightarrow> string) \<Rightarrow> key_op \<Rightarrow> console \<Rightarrow> console" where
  "key_step unmarshal canon hashSecret (KCreate userID input i secret nowNs) c =
     snd (CreateAccessKey unmarshal canon hashSecret userID input i secret nowNs c)"
| "key_step unmarshal canon hashSecret (KUpdate userID keyID patch) c = snd (ConsoleUpdateKey unmarshal canon userID keyID patch c)"
| "key_step unmarshal canon hashSecret (KDelete userID keyID) c = snd (ConsoleDeleteKey userID keyID c)"
| "key_step unmarshal canon hashSecret (KAccount user subs) c =
     snd (republishUserKeys unmarshal (u_ID user) (c\<lparr>co_db := editAccount user subs (co_db c)\<rparr>))"
| "key_step unmarshal canon hashSecret KRestart c = c\<lparr>co_store := LoadFromState unmarshal (co_db c)\<rparr>"

text \<open>Plans are stored in a form that decodes; the secret of a new key has a hash.\<close>

fun readable_op :: "(string \<Rightarrow> Plan option) \<Rightarrow> (string \<Rightarrow> string) \<Rightarrow> key_op \<Rightarrow> bool" where
  "readable_op unmarshal hashSecret (KAccount user subs) = list_all (\<lambda>s. decodePlan unmarshal s \<noteq> None) subs"
| "readable_op unmarshal hashSecret op = True"

definition console_wf :: "(string \<Rightarrow> Plan option) \<Rightarrow> key_db \<Rightarrow> bool" where
  "console_wf unmarshal db \<longleftrightarrow> db_wf unmarshal db \<and> list_all (\<lambda>(_, k). key_check k) (kd_keys db) \<and>
     list_all status_check (kd_subs db)"

definition live_inv :: "(string \<Rightarrow> Plan option) \<Rightarrow> console \<Rightarrow> bool" where
  "live_inv unmarshal c \<longleftrightarrow> console_wf unmarshal (co_db c) \<and> (\<forall>kid. map_of (co_store c) kid = published unmarshal (co_db c) kid)"

lemma userPlanSnapshot_planOf:
  assumes "db_wf unmarshal db"
  shows "userPlanSnapshot unmarshal u db = Inr (planOf unmarshal db u)"
proof (cases "DecidingSubscription (rowsOf db u)")
  case None
  then show ?thesis
    by (simp add: userPlanSnapshot_def currentSubscription_def planOf_def rowsOf_def)
next
  case (Some s)
  then have "s \<in> set (kd_subs db)"
    using DecidingSubscription_decides [OF Some] by (simp add: decides_def rowsOf_def)
  then obtain p where "decodePlan unmarshal s = Some p"
    using db_wfD(6) [OF assms] by (auto simp: list_all_iff)
  then show ?thesis
    using Some by (auto simp: userPlanSnapshot_def currentSubscription_def planOf_def rowsOf_def SnapshotFromSubscription_def
        decodePlan_def SnapshotForPlan_def zeroPlan_def zeroSnapshot_def Let_def split: if_splits)
qed

lemma Publish_lookup: "map_of (Publish k u p store) = (map_of store)(ak_ID k \<mapsto> newKeyState k u p)"
  by (simp add: Publish_def Upsert_def newKeyState_def gomap_simps)

lemma published_keys_only:
  assumes "kd_users db' = kd_users db" "kd_subs db' = kd_subs db" "map_of (kd_keys db') kid = map_of (kd_keys db) kid"
  shows "published unmarshal db' kid = published unmarshal db kid"
proof -
  have "planOf unmarshal db' = planOf unmarshal db"
    by (simp add: fun_eq_iff planOf_def rowsOf_def assms(2))
  then show ?thesis
    unfolding published_def assms(1,3) by (simp only:)
qed

text \<open>Writing one row and publishing it.\<close>

lemma live_write_row:
  assumes inv: "live_inv unmarshal c" and k: "key_check k" "map_of (kd_users (co_db c)) (ak_UserID k) = Some user"
    and db: "db = (co_db c)\<lparr>kd_keys := AList.update (ak_ID k) k (kd_keys (co_db c))\<rparr>"
  shows "live_inv unmarshal (snd (publishKey unmarshal k user (c\<lparr>co_db := db\<rparr>)))"
proof -
  have wf: "console_wf unmarshal db"
    using inv k(1) set_gm_update_subset [of "ak_ID k" k "kd_keys (co_db c)"]
    by (auto simp: live_inv_def console_wf_def db_wf_def db list_all_iff)
  then have snap: "userPlanSnapshot unmarshal (ak_UserID k) db = Inr (planOf unmarshal db (ak_UserID k))"
    by (intro userPlanSnapshot_planOf) (simp add: console_wf_def)
  have other: "published unmarshal db kid = map_of (co_store c) kid" if "kid \<noteq> ak_ID k" for kid
    using inv that published_keys_only [of db "co_db c" kid unmarshal] by (simp add: live_inv_def db gomap_simps)
  have own: "published unmarshal db (ak_ID k) =
      (if ak_Status k = KeyStatusActive then Some (newKeyState k user (planOf unmarshal db (ak_UserID k))) else None)"
    using k(2) by (simp add: published_def db gomap_simps planOf_def rowsOf_def)
  show ?thesis
    using wf other own snap by (auto simp: live_inv_def publishKey_def StoreDelete_def Publish_lookup gomap_simps)
qed

lemma inserted_row:
  assumes "insertAccessKeyWithinAllowance unmarshal user row db0 = (Inr x, db)" "ak_Scope row = KeyScopeProxy" "ak_Status row = KeyStatusActive"
  shows "db = db0\<lparr>kd_keys := AList.update (ak_ID row) row (kd_keys db0)\<rparr> \<and> key_check row \<and> map_of (kd_keys db0) (ak_ID row) = None"
proof -
  have "normalizeAccessKey row = row"
    using assms(2,3) by (simp add: normalizeAccessKey_def)
  then show ?thesis
    using assms by (auto simp: insertAccessKeyWithinAllowance_def InsertAccessKey_def Let_def split: sum.splits if_splits)
qed

lemma newRow_sel [simp]:
  "ak_ID (newRow hs u i s input al now) = i" "ak_UserID (newRow hs u i s input al now) = u"
  "ak_Scope (newRow hs u i s input al now) = KeyScopeProxy" "ak_Status (newRow hs u i s input al now) = KeyStatusActive"
  by (simp_all add: newRow_def)

lemma live_create:
  assumes inv: "live_inv unmarshal c"
  shows "live_inv unmarshal (snd (CreateAccessKey unmarshal canon hs u input i s now c))"
proof (cases "map_of (kd_users (co_db c)) u")
  case user: (Some user)
  show ?thesis
  proof (cases "normalizeIPAllowlist canon (ai_IPAllowlist input)")
    case al: (Some al)
    let ?row = "newRow hs u i s input al now"
    obtain res db where ins: "insertAccessKeyWithinAllowance unmarshal user ?row (co_db c) = (res, db)"
      by fastforce
    obtain pr c' where pub: "publishKey unmarshal ?row user (c\<lparr>co_db := db\<rparr>) = (pr, c')"
      by fastforce
    have "live_inv unmarshal c'" if "res = Inr x" for x
      using live_write_row [OF inv, of ?row user db] inserted_row [of unmarshal user ?row "co_db c" x db] ins pub that user by simp
    then show ?thesis
      using inv by (cases res; cases pr) (simp_all add: CreateAccessKey_def user al ins pub Let_def)
  qed (use inv user in \<open>simp add: CreateAccessKey_def\<close>)
qed (use inv in \<open>simp add: CreateAccessKey_def\<close>)

definition same_key :: "AccessKey \<Rightarrow> AccessKey \<Rightarrow> bool" where
  "same_key a b \<longleftrightarrow> ak_ID a = ak_ID b \<and> ak_UserID a = ak_UserID b \<and> ak_CreatedAtNs a = ak_CreatedAtNs b \<and> (key_check b \<longrightarrow> key_check a)"

lemma patch_steps:
  "patchName patch row = Some row' \<Longrightarrow> same_key row' row" "same_key (patchPlatforms patch row) row"
  "patchAllowlist canon patch row = Some row' \<Longrightarrow> same_key row' row" "patchStatus patch row = Some row' \<Longrightarrow> same_key row' row"
     apply (auto simp: same_key_def patchName_def key_check_def split: option.splits if_splits)[1]
    apply (auto simp: same_key_def patchPlatforms_def key_check_def split: option.splits)[1]
   apply (auto simp: same_key_def patchAllowlist_def key_check_def split: option.splits)[1]
  by (auto simp: same_key_def patchStatus_def key_check_def split: option.splits if_splits)

lemma patchRow_sel:
  assumes "patchRow canon patch row0 = Some row" "key_check row0"
  shows "ak_ID row = ak_ID row0" "ak_UserID row = ak_UserID row0" "ak_CreatedAtNs row = ak_CreatedAtNs row0" "key_check row"
    "normalizeAccessKey row = row"
proof -
  obtain r1 r2 where steps: "patchName patch row0 = Some r1" "patchAllowlist canon patch (patchPlatforms patch r1) = Some r2"
    "patchStatus patch r2 = Some row"
    using assms(1) by (auto simp: patchRow_def Option.bind_eq_Some_conv)
  have "same_key row row0"
    using patch_steps(1) [OF steps(1)] patch_steps(2) [of patch r1] patch_steps(3) [OF steps(2)] patch_steps(4) [OF steps(3)]
    by (auto simp: same_key_def)
  then show "ak_ID row = ak_ID row0" "ak_UserID row = ak_UserID row0" "ak_CreatedAtNs row = ak_CreatedAtNs row0" and check: "key_check row"
    using assms(2) by (auto simp: same_key_def)
  have "ak_Scope row \<noteq> ''''" "ak_Status row \<noteq> ''''"
    using check by (auto simp: key_check_def)
  then show "normalizeAccessKey row = row"
    by (simp add: normalizeAccessKey_def)
qed

lemma live_update:
  assumes inv: "live_inv unmarshal c"
  shows "live_inv unmarshal (snd (ConsoleUpdateKey unmarshal canon u kid patch c))"
proof (cases "snd (ConsoleUpdateKey unmarshal canon u kid patch c) = c")
  case False
  then obtain row0 where row0: "map_of (kd_keys (co_db c)) kid = Some row0" "ak_UserID row0 = u"
    by (cases "map_of (kd_keys (co_db c)) kid") (simp_all add: ConsoleUpdateKey_def lookupUserKey_def GetAccessKey_def split: if_splits)
  then have look: "lookupUserKey u kid (co_db c) = Inr row0"
    by (simp add: lookupUserKey_def GetAccessKey_def)
  obtain user where user: "map_of (kd_users (co_db c)) u = Some user"
    using False look by (cases "map_of (kd_users (co_db c)) u") (simp_all add: ConsoleUpdateKey_def)
  obtain row where row: "patchRow canon patch row0 = Some row"
    using False look user by (cases "patchRow canon patch row0") (simp_all add: ConsoleUpdateKey_def)
  obtain ures db where ures: "UpdateAccessKey row (co_db c) = (ures, db)"
    by fastforce
  obtain x where upd: "UpdateAccessKey row (co_db c) = (Inr x, db)"
    using False look user row ures by (cases ures) (simp_all add: ConsoleUpdateKey_def)
  obtain pr c' where pub: "publishKey unmarshal row user (c\<lparr>co_db := db\<rparr>) = (pr, c')"
    by fastforce
  have res: "snd (ConsoleUpdateKey unmarshal canon u kid patch c) = snd (publishKey unmarshal row user (c\<lparr>co_db := db\<rparr>))"
    by (cases pr) (simp_all add: ConsoleUpdateKey_def look user row upd pub)
  have "(kid, row0) \<in> set (kd_keys (co_db c))"
    using row0(1) by (rule map_of_SomeD)
  then have "key_check row0" "ak_ID row0 = kid"
    using inv by (auto simp: live_inv_def console_wf_def db_wf_def list_all_iff)
  note row' = patchRow_sel [OF row this(1)] this(2)
  then have keep: "row\<lparr>ak_UserID := ak_UserID row0, ak_CreatedAtNs := ak_CreatedAtNs row0\<rparr> = row"
    by (metis AccessKey.surjective AccessKey.update_convs(2,11))
  have "db = (co_db c)\<lparr>kd_keys := AList.update (ak_ID row) (row\<lparr>ak_UserID := ak_UserID row0, ak_CreatedAtNs := ak_CreatedAtNs row0\<rparr>)
      (kd_keys (co_db c))\<rparr>"
    using upd row' row0(1) by (auto simp: UpdateAccessKey_def Let_def split: if_splits)
  then have "db = (co_db c)\<lparr>kd_keys := AList.update (ak_ID row) row (kd_keys (co_db c))\<rparr>"
    unfolding keep .
  then show ?thesis
    unfolding res using row' row0(2) user by (intro live_write_row [OF inv]) auto
qed (use inv in simp)

lemma live_delete:
  assumes inv: "live_inv unmarshal c"
  shows "live_inv unmarshal (snd (ConsoleDeleteKey u kid c))"
proof -
  let ?db = "(co_db c)\<lparr>kd_keys := AList.delete kid (kd_keys (co_db c))\<rparr>"
  have "list_all P (AList.delete kid m)" if "list_all P m" for P and m :: "(string \<times> AccessKey) list"
    using that by (auto simp: list_all_iff AList.delete_eq)
  then have wf: "console_wf unmarshal ?db"
    using inv by (auto simp: live_inv_def console_wf_def db_wf_def)
  have "published unmarshal ?db i = (if i = kid then None else map_of (co_store c) i)" for i
    using inv published_keys_only [of ?db "co_db c" i unmarshal] by (simp add: live_inv_def gomap_simps published_def)
  then have "live_inv unmarshal (c\<lparr>co_db := ?db, co_store := StoreDelete kid (co_store c)\<rparr>)"
    using wf by (simp add: live_inv_def StoreDelete_def gomap_simps)
  then show ?thesis
    using inv by (auto simp: ConsoleDeleteKey_def DeleteAccessKey_def split: sum.splits option.splits)
qed

lemma republish_rows:
  "distinct (map ak_ID rows) \<Longrightarrow> map_of (fold (republishRow user snap) rows store) kid =
     (case find (\<lambda>k. ak_ID k = kid) rows of
        None \<Rightarrow> map_of store kid
      | Some k \<Rightarrow> if ak_Status k = KeyStatusActive then Some (newKeyState k user snap) else None)"
proof (induction rows arbitrary: store)
  case (Cons k rows)
  have "ak_ID k = kid \<Longrightarrow> find (\<lambda>k. ak_ID k = kid) rows = None"
    using Cons.prems by (intro find_absent) auto
  then show ?case
    using Cons by (auto simp: republishRow_def StoreDelete_def Publish_lookup gomap_simps split: option.splits)
qed simp

text \<open>
  After an edit of one account the other accounts' keys are published as before, and
  republishing settles the account's own.
\<close>

lemma live_republish:
  assumes wf: "console_wf unmarshal db" and user: "map_of (kd_users db) u = Some user"
    and other: "\<And>kid k. map_of (kd_keys db) kid = Some k \<Longrightarrow> ak_UserID k \<noteq> u \<Longrightarrow> map_of (co_store c) kid = published unmarshal db kid"
    and absent: "\<And>kid. map_of (kd_keys db) kid = None \<Longrightarrow> map_of (co_store c) kid = None"
  shows "live_inv unmarshal (snd (republishUserKeys unmarshal u (c\<lparr>co_db := db\<rparr>)))"
proof -
  let ?rows = "ListAccessKeysByUser u db" and ?snap = "planOf unmarshal db u"
  have D: "gm_wf (kd_keys db)" "list_all (\<lambda>(i, k). ak_ID k = i) (kd_keys db)" "db_wf unmarshal db"
    using wf by (auto simp: console_wf_def db_wf_def)
  have ids: "distinct (map ak_ID ?rows)"
    unfolding ListAccessKeysByUser_def by (rule table_ids [OF D(1,2)])
  have "set ?rows = {k \<in> snd ` set (kd_keys db). ak_UserID k = u}"
    by (auto simp: ListAccessKeysByUser_def)
  note found = find_in_table [OF D(1,2) this ids]
  have "map_of (fold (republishRow user ?snap) ?rows (co_store c)) kid = published unmarshal db kid" for kid
  proof (cases "map_of (kd_keys db) kid")
    case None
    then show ?thesis
      using absent by (simp add: republish_rows [OF ids] found published_def)
  next
    case (Some k)
    then show ?thesis
      using other [OF Some] user by (auto simp: republish_rows [OF ids] found published_def)
  qed
  then show ?thesis
    using wf user userPlanSnapshot_planOf [OF D(3), of u] by (simp add: republishUserKeys_def live_inv_def)
qed

lemma live_account:
  assumes inv: "live_inv unmarshal c" and ok: "list_all (\<lambda>s. decodePlan unmarshal s \<noteq> None) subs"
  shows "live_inv unmarshal (snd (republishUserKeys unmarshal (u_ID user) (c\<lparr>co_db := editAccount user subs (co_db c)\<rparr>)))"
proof (cases "editAccount user subs (co_db c) = co_db c")
  case True
  have c: "c\<lparr>co_db := co_db c\<rparr> = c"
    by simp
  show ?thesis
  proof (cases "map_of (kd_users (co_db c)) (u_ID user)")
    case None
    then show ?thesis
      using inv by (simp add: True republishUserKeys_def)
  next
    case (Some x)
    have "live_inv unmarshal (snd (republishUserKeys unmarshal (u_ID user) (c\<lparr>co_db := co_db c\<rparr>)))"
      by (rule live_republish [OF _ Some]) (use inv in \<open>auto simp: live_inv_def published_def\<close>)
    then show ?thesis
      unfolding True .
  qed
next
  case False
  let ?u = "u_ID user" and ?db = "editAccount user subs (co_db c)"
  let ?others = "filter (\<lambda>s. s_UserID s \<noteq> ?u) (kd_subs (co_db c))"
  have valid: "distinct (map s_ID (?others @ subs))" "list_all (\<lambda>s. s_UserID s = ?u \<and> status_check s) subs"
    and db: "?db = (co_db c)\<lparr>kd_users := AList.update ?u user (kd_users (co_db c)), kd_subs := ?others @ subs\<rparr>"
    using False by (auto simp: editAccount_def Let_def split: if_splits)
  have wf: "console_wf unmarshal ?db"
    using inv valid ok set_gm_update_subset [of ?u user "kd_users (co_db c)"] unfolding db
    by (auto simp: live_inv_def console_wf_def db_wf_def list_all_iff)
  have rows: "rowsOf ?db v = rowsOf (co_db c) v" if "v \<noteq> ?u" for v
  proof -
    have "filter (\<lambda>s. s_UserID s = v) subs = []"
      using valid(2) that by (auto simp: list_all_iff filter_empty_conv)
    moreover have "filter (\<lambda>s. s_UserID s = v) ?others = filter (\<lambda>s. s_UserID s = v) (kd_subs (co_db c))"
      using that by (auto simp: intro!: filter_cong)
    ultimately show ?thesis
      by (simp add: rowsOf_def db)
  qed
  show ?thesis
  proof (rule live_republish [OF wf])
    show "map_of (kd_users ?db) ?u = Some user"
      by (simp add: db gomap_simps)
    show "map_of (co_store c) kid = published unmarshal ?db kid" if "map_of (kd_keys ?db) kid = Some k" "ak_UserID k \<noteq> ?u" for kid k
      using inv that rows [OF that(2)] by (simp add: live_inv_def published_def planOf_def db gomap_simps)
    show "map_of (co_store c) kid = None" if "map_of (kd_keys ?db) kid = None" for kid
      using inv that by (simp add: live_inv_def published_def db)
  qed
qed

interpretation key_console: guarded_machine "key_step unmarshal canon hashSecret" "live_inv unmarshal" "readable_op unmarshal hashSecret"
  for unmarshal canon hashSecret
proof (unfold_locales, goal_cases)
  case (1 op c)
  then show ?case
  proof (cases op)
    case (KAccount user subs)
    then show ?thesis
      using 1 live_account [of unmarshal c subs user] by simp
  next
    case KRestart
    then show ?thesis
      using 1(2) restart_publishes [of unmarshal "co_db c"] by (simp add: live_inv_def console_wf_def Get_def)
  qed (use 1(2) live_create live_update live_delete in simp_all)
qed

lemma live_run:
  assumes "console_wf unmarshal db" "list_all (readable_op unmarshal hashSecret) ops"
    and "c = fold (key_step unmarshal canon hashSecret) ops \<lparr>co_db = db, co_store = LoadFromState unmarshal db\<rparr>"
  shows "live_inv unmarshal c"
  unfolding assms(3)
  by (rule key_console.inv_ok_run [OF assms(2)])
    (use assms(1) restart_publishes [of unmarshal db] in \<open>simp add: live_inv_def console_wf_def Get_def\<close>)


section \<open>Who a credential stands for\<close>

lemma published_Some:
  assumes "db_wf unmarshal db" "published unmarshal db kid = Some k"
  shows "\<exists>row user. map_of (kd_keys db) kid = Some row \<and> ak_ID row = kid \<and> ak_Status row = KeyStatusActive \<and>
    map_of (kd_users db) (ak_UserID row) = Some user \<and> k = newKeyState row user (planOf unmarshal db (ak_UserID row))"
proof -
  obtain row where row: "map_of (kd_keys db) kid = Some row"
    using assms(2) by (auto simp: published_def split: option.splits)
  have "ak_ID row = kid"
    using db_wfD(4) [OF assms(1)] map_of_SomeD [OF row] by (auto simp: list_all_iff)
  then show ?thesis
    using assms(2) row by (auto simp: published_def split: if_splits)
qed

definition in_force :: "int \<Rightarrow> UserSubscription \<Rightarrow> bool" where
  "in_force now s \<longleftrightarrow> active_sub s \<and> (s_ExpiresAtNs s \<le> 0 \<or> now < s_ExpiresAtNs s)"

lemma usable_subscription:
  assumes "list_all status_check (kd_subs db)" "DecidingSubscription (rowsOf db u) = Some s"
    and "sn_Status (planOf unmarshal db u) = '''' \<or> sn_Status (planOf unmarshal db u) = SubscriptionStatusActive"
    and "sn_ExpiresAtNs (planOf unmarshal db u) \<le> 0 \<or> now < sn_ExpiresAtNs (planOf unmarshal db u)"
  shows "in_force now s"
proof -
  have "s \<in> set (kd_subs db)"
    using DecidingSubscription_decides [OF assms(2)] by (simp add: decides_def rowsOf_def)
  then have "status_check s"
    using assms(1) by (simp add: list_all_iff)
  then show ?thesis
    using assms(2-4) by (auto simp: in_force_def planOf_def SnapshotForPlan_def status_check_def Let_def split: if_splits)
qed

text \<open>A row of the key table that may be used now, with its owner.\<close>

definition row_in_force :: "int \<Rightarrow> AccessKey \<Rightarrow> User \<Rightarrow> key_db \<Rightarrow> bool" where
  "row_in_force now row user db \<longleftrightarrow> ak_Status row = KeyStatusActive \<and> (ak_ExpiresAtNs row \<le> 0 \<or> now < ak_ExpiresAtNs row) \<and>
     map_of (kd_users db) (ak_UserID row) = Some user \<and> u_Status user = UserStatusActive \<and>
     (case currentSubscription (ak_UserID row) db of None \<Rightarrow> True | Some s \<Rightarrow> in_force now s)"

lemma usable_key:
  assumes "live_inv unmarshal c" "map_of (co_store c) kid = Some k" "Usable k now"
  shows "\<exists>row user. map_of (kd_keys (co_db c)) kid = Some row \<and> ak_ID row = kid \<and> row_in_force now row user (co_db c) \<and>
    k = newKeyState row user (planOf unmarshal (co_db c) (ak_UserID row))"
proof -
  have wf: "db_wf unmarshal (co_db c)" "list_all status_check (kd_subs (co_db c))" "published unmarshal (co_db c) kid = Some k"
    using assms(1,2) by (auto simp: live_inv_def console_wf_def)
  from published_Some [OF wf(1,3)] obtain row user where row: "map_of (kd_keys (co_db c)) kid = Some row" "ak_ID row = kid"
    "ak_Status row = KeyStatusActive" "map_of (kd_users (co_db c)) (ak_UserID row) = Some user"
    and k: "k = newKeyState row user (planOf unmarshal (co_db c) (ak_UserID row))"
    by blast
  have "case currentSubscription (ak_UserID row) (co_db c) of None \<Rightarrow> True | Some s \<Rightarrow> in_force now s"
    using usable_subscription [OF wf(2), of "ak_UserID row" _ unmarshal now] assms(3)
    by (auto simp: k Usable_def newKeyState_def currentSubscription_def rowsOf_def not_le not_less split: option.splits if_splits)
  moreover have "u_Status user = UserStatusActive" "ak_ExpiresAtNs row \<le> 0 \<or> now < ak_ExpiresAtNs row"
    using assms(3) by (auto simp: k newKeyState_def Usable_def split: if_splits)
  ultimately show ?thesis
    using row k by (auto simp: row_in_force_def)
qed

lemma allowed_entry:
  "AllowsIP (newKeyState row user plan) addr \<longleftrightarrow> ak_IPAllowlist row = [] \<or>
     (IsValid addr \<and> list_ex (\<lambda>v. case allowEntry v of None \<Rightarrow> False | Some p \<Rightarrow> PrefixContains p (Unmap addr)) (ak_IPAllowlist row))"
  by (auto simp: AllowsIP_def newKeyState_def parseAllowlist_def List.map_filter_def list_ex_iff split: option.splits)


section \<open>The plan's key limit\<close>

lemma length_filter_sort: "length (filter P (sort_key f xs)) = length (filter P xs)"
  by (simp add: filter_sort)

lemma activeKeys_insert:
  assumes "map_of (kd_keys db) (ak_ID row) = None" "ak_Status row = KeyStatusActive" "ak_UserID row = u"
  shows "activeKeys u (db\<lparr>kd_keys := AList.update (ak_ID row) row (kd_keys db)\<rparr>) = Suc (activeKeys u db)"
  using assms by (simp add: activeKeys_def ListAccessKeysByUser_def length_filter_sort gm_update_absent)

lemma publishKey_db [simp]: "co_db (snd (publishKey unmarshal row user c)) = co_db c"
  by (simp add: publishKey_def split: sum.splits)

lemma created:
  assumes "CreateAccessKey unmarshal canon hs u input i s now c = (Inr x, c')"
  shows "\<exists>user al y db. map_of (kd_users (co_db c)) u = Some user \<and>
    insertAccessKeyWithinAllowance unmarshal user (newRow hs u i s input al now) (co_db c) = (Inr y, db) \<and> co_db c' = db"
proof -
  obtain user where user: "map_of (kd_users (co_db c)) u = Some user"
    using assms by (cases "map_of (kd_users (co_db c)) u") (simp_all add: CreateAccessKey_def)
  obtain al where al: "normalizeIPAllowlist canon (ai_IPAllowlist input) = Some al"
    using assms user by (cases "normalizeIPAllowlist canon (ai_IPAllowlist input)") (simp_all add: CreateAccessKey_def split: if_splits)
  let ?row = "newRow hs u i s input al now"
  obtain res db where ins: "insertAccessKeyWithinAllowance unmarshal user ?row (co_db c) = (res, db)"
    by fastforce
  obtain pr c1 where pub: "publishKey unmarshal ?row user (c\<lparr>co_db := db\<rparr>) = (pr, c1)"
    by fastforce
  have "co_db c1 = db"
    using publishKey_db [of unmarshal ?row user "c\<lparr>co_db := db\<rparr>"] by (simp add: pub)
  moreover obtain y where "res = Inr y" "c' = c1"
    using assms by (cases res; cases pr) (simp_all add: CreateAccessKey_def user al ins pub Let_def split: if_splits)
  ultimately show ?thesis
    using user ins by blast
qed


text \<open>A console with one account, where the statements are evaluated.\<close>

definition exampleUser :: User where
  "exampleUser = \<lparr>u_ID = ''u1'', u_Username = ''ann'', u_PasswordHash = '''', u_Role = ''user'', u_Status = UserStatusActive,
     u_TOTPSecretEnc = '''', u_CreatedAtNs = 1, u_UpdatedAtNs = 1, u_LastLoginNs = 0, u_TOTPLastUsedNs = 0\<rparr>"

definition exampleUnmarshal :: "string \<Rightarrow> Plan option" where
  "exampleUnmarshal raw = (if raw = ''{}'' then Some (zeroPlan\<lparr>p_MaxKeys := 1, p_Status := ''active''\<rparr>) else None)"

definition exampleDb :: key_db where
  "exampleDb = \<lparr>kd_users = [(''u1'', exampleUser)], kd_keys = [], kd_subs = [exampleSubscription ''s1'' ''u1'' 0]\<rparr>"

definition exampleConsole :: console where
  "exampleConsole = \<lparr>co_db = exampleDb, co_store = LoadFromState exampleUnmarshal exampleDb\<rparr>"

definition exampleId :: string where
  "exampleId = replicate 32 (CHR ''a'')"

definition exampleSecret :: string where
  "exampleSecret = replicate 64 (CHR ''b'')"

definition exampleInput :: AccessKeyInput where
  "exampleInput = \<lparr>ai_Name = ''laptop'', ai_Platforms = [], ai_IPAllowlist = [''192.0.2.0/24''], ai_ExpiresInDays = 30\<rparr>"

definition exampleCreate :: key_op where
  "exampleCreate = KCreate ''u1'' exampleInput exampleId exampleSecret 5"

lemma example_wf: "console_wf exampleUnmarshal exampleDb" "list_all (readable_op exampleUnmarshal id) [exampleCreate]"
  by code_simp+




section \<open>Snapshots that do not decode\<close>


end
