(* ===== verification/Enforcement.thy ===== *)
theory Enforcement
  imports Counters Key_Console
begin

text \<open>
  Enforcing a plan on the data plane: the limiter with its request schedule
  (\<open>internal/usage/limiter.go\<close>), the registry of live sessions (\<open>connregistry.go\<close>), the sweep that ends
  them (\<open>enforcer.go\<close>), the sink and gate adapters (\<open>sink.go\<close>) and the reservation of a session
  (\<open>internal/proxy/metering.go\<close>).

  A call under a lock or a map's critical section is one step. A connection is a number, and a key's
  set of connections a list without repetitions. Closing a connection is being in the list of closed ones
  that an operation answers.

  The theory shows: a schedule admits no more requests in a stretch of time than the plan's rate and one
  second of credit allow; the sessions a key holds never exceed its limit, however requests interleave;
  a sweep ends exactly the sessions of the keys that may not have them.
\<close>

section \<open>The request schedule\<close>

type_synonym rateTable = "(string, int) gomap"

definition maxRateEntries :: int where
  "maxRateEntries = 65536"

definition prune :: "int \<Rightarrow> rateTable \<Rightarrow> rateTable" where
  "prune nowNs t =
     (let live = filter (\<lambda>(name, due). \<not> due \<le> nowNs) t in if int (length live) > maxRateEntries then [] else live)"

definition startAt :: "string \<Rightarrow> int \<Rightarrow> rateTable \<Rightarrow> int" where
  "startAt name nowNs t = (case map_of t name of None \<Rightarrow> nowNs | Some due \<Rightarrow> if due < nowNs then nowNs else due)"

definition allow :: "string \<Rightarrow> int \<Rightarrow> int \<Rightarrow> int \<Rightarrow> rateTable \<Rightarrow> bool \<times> rateTable" where
  "allow name intervalNs burstNs nowNs t =
     (if intervalNs \<le> 0 then (True, t)
      else let next = wrap64 (startAt name nowNs t + intervalNs) in
        if wrap64 (next - nowNs) > burstNs then (False, t)
        else let t1 = AList.update name next t in (True, if int (length t1) > maxRateEntries then prune nowNs t1 else t1))"

definition rateKey :: "KeyState \<Rightarrow> string" where
  "rateKey k = (if ks_KeyID k \<noteq> '''' then ks_KeyID k else ks_UserID k)"

section \<open>The limiter\<close>

definition ReasonTraffic :: string where
  "ReasonTraffic = ''traffic''"

definition ReasonConcurrency :: string where
  "ReasonConcurrency = ''concurrency''"

definition ReasonRate :: string where
  "ReasonRate = ''rate''"

definition ReasonDisabled :: string where
  "ReasonDisabled = ''disabled''"

record Decision =
  dc_Allowed :: bool
  dc_Reason :: string

definition refuse :: "string \<Rightarrow> Decision" where
  "refuse reason = \<lparr>dc_Allowed = False, dc_Reason = reason\<rparr>"

definition admitRequest :: Decision where
  "admitRequest = \<lparr>dc_Allowed = True, dc_Reason = ''''\<rparr>"

definition usedBytes :: "Counters \<Rightarrow> KeyState \<Rightarrow> int" where
  "usedBytes counters k =
     (if ks_UserID k \<noteq> '''' \<and> snd (UserBytesPresent counters (ks_UserID k)) then fst (UserBytesPresent counters (ks_UserID k))
      else KeyTotal counters (ks_KeyID k))"

definition secondNs :: int where
  "secondNs = 1000000000"

definition checkRate :: "int \<Rightarrow> KeyState \<Rightarrow> rateTable \<Rightarrow> bool \<times> rateTable" where
  "checkRate nowNs k rates =
     (let limit = sn_MaxRPS (ks_Plan k) in
      if limit > 0 \<and> rateKey k \<noteq> '''' then allow (rateKey k) (secondNs sdiv limit) secondNs nowNs rates else (True, rates))"

definition Check :: "Counters \<Rightarrow> int \<Rightarrow> KeyState option \<Rightarrow> int \<Rightarrow> rateTable \<Rightarrow> Decision \<times> rateTable" where
  "Check counters nowNs key concurrent rates =
     (case key of
        None \<Rightarrow> (admitRequest, rates)
      | Some k \<Rightarrow>
          if \<not> Usable k nowNs then (refuse ReasonDisabled, rates)
          else if sn_MaxConcurrent (ks_Plan k) > 0 \<and> concurrent \<ge> sn_MaxConcurrent (ks_Plan k) then (refuse ReasonConcurrency, rates)
          else case checkRate nowNs k rates of
            (False, rates') \<Rightarrow> (refuse ReasonRate, rates')
          | (True, rates') \<Rightarrow>
              if sn_TrafficBytes (ks_Plan k) > 0 \<and> usedBytes counters k \<ge> sn_TrafficBytes (ks_Plan k)
              then (refuse ReasonTraffic, rates') else (admitRequest, rates'))"

definition Exceeded :: "Counters \<Rightarrow> KeyState option \<Rightarrow> int \<Rightarrow> bool" where
  "Exceeded counters key gracePercent =
     (case key of
        None \<Rightarrow> False
      | Some k \<Rightarrow>
          let limit = sn_TrafficBytes (ks_Plan k) in
          if limit \<le> 0 then False
          else let grace = wrap64 ((limit sdiv 100) * gracePercent); used = usedBytes counters k in
            if used < limit then False else used \<ge> wrap64 (limit + grace))"

text \<open>The sink: what the proxy reports becomes counted traffic.\<close>

definition OnKeyTrafficDelta :: "string \<Rightarrow> string \<Rightarrow> string \<Rightarrow> int \<Rightarrow> int \<Rightarrow> Counters \<Rightarrow> Counters" where
  "OnKeyTrafficDelta keyID userID platformID ingressBytes egressBytes c =
     (if keyID = '''' then c
      else Add \<lparr>ck_KeyID = keyID, ck_UserID = userID, ck_PlatformID = platformID\<rparr>
             \<lparr>IngressBytes = ingressBytes, EgressBytes = egressBytes, Requests = 0, Errors = 0\<rparr> c)"

definition OnKeyRequest :: "string \<Rightarrow> string \<Rightarrow> string \<Rightarrow> bool \<Rightarrow> Counters \<Rightarrow> Counters" where
  "OnKeyRequest keyID userID platformID failed c =
     (if keyID = '''' then c
      else Add \<lparr>ck_KeyID = keyID, ck_UserID = userID, ck_PlatformID = platformID\<rparr>
             \<lparr>IngressBytes = 0, EgressBytes = 0, Requests = 1, Errors = (if failed then 1 else 0)\<rparr> c)"

section \<open>The registry of sessions\<close>

type_synonym conn = nat
type_synonym ConnRegistry = "(string, conn list) gomap"

definition NewConnRegistry :: ConnRegistry where
  "NewConnRegistry = []"

definition Track :: "string \<Rightarrow> conn \<Rightarrow> ConnRegistry \<Rightarrow> ConnRegistry" where
  "Track keyID conn r =
     (if keyID = '''' then r
      else AList.update keyID (List.insert conn (case map_of r keyID of None \<Rightarrow> [] | Some conns \<Rightarrow> conns)) r)"

definition Untrack :: "string \<Rightarrow> conn \<Rightarrow> ConnRegistry \<Rightarrow> ConnRegistry" where
  "Untrack keyID conn r =
     (if keyID = '''' then r
      else case map_of r keyID of
        None \<Rightarrow> r
      | Some conns \<Rightarrow> let rest = remove1 conn conns in if rest \<noteq> [] then AList.update keyID rest r else AList.delete keyID r)"

definition Count :: "string \<Rightarrow> ConnRegistry \<Rightarrow> nat" where
  "Count keyID r = (if keyID = '''' then 0 else case map_of r keyID of None \<Rightarrow> 0 | Some conns \<Rightarrow> length conns)"

text \<open>The connections closed, and the registry without the key.\<close>

definition CloseKey :: "string \<Rightarrow> ConnRegistry \<Rightarrow> conn list \<times> ConnRegistry" where
  "CloseKey keyID r =
     (if keyID = '''' then ([], r)
      else case map_of r keyID of None \<Rightarrow> ([], r) | Some conns \<Rightarrow> (conns, AList.delete keyID r))"

definition RegistryKeys :: "ConnRegistry \<Rightarrow> string list" where
  "RegistryKeys r = map fst r"

fun closeKeys :: "string list \<Rightarrow> ConnRegistry \<Rightarrow> conn list \<times> ConnRegistry" where
  "closeKeys [] r = ([], r)"
| "closeKeys (k # ks) r = (let (closed, r1) = CloseKey k r; (more, r2) = closeKeys ks r1 in (closed @ more, r2))"

definition CloseAll :: "ConnRegistry \<Rightarrow> conn list \<times> ConnRegistry" where
  "CloseAll r = closeKeys (RegistryKeys r) r"

section \<open>The sweep\<close>

record SweepResult =
  sw_Checked :: int
  sw_ClosedSessions :: int

text \<open>Whether a key's sessions are ended; the lookup may find no key.\<close>

definition mustEnd :: "Counters option \<Rightarrow> int \<Rightarrow> int \<Rightarrow> KeyState option \<Rightarrow> bool" where
  "mustEnd limiter gracePercent nowNs key =
     (case key of
        None \<Rightarrow> True
      | Some k \<Rightarrow> \<not> Usable k nowNs \<or> (case limiter of None \<Rightarrow> False | Some counters \<Rightarrow> Exceeded counters key gracePercent))"

fun sweepKeys :: "Counters option \<Rightarrow> int \<Rightarrow> int \<Rightarrow> (string \<Rightarrow> KeyState option) \<Rightarrow> string list \<Rightarrow> SweepResult \<times> conn list \<times> ConnRegistry
    \<Rightarrow> SweepResult \<times> conn list \<times> ConnRegistry" where
  "sweepKeys limiter grace nowNs lookup [] acc = acc"
| "sweepKeys limiter grace nowNs lookup (keyID # rest) (result, closed, r) =
     (let key = lookup keyID;
          result1 = (if key \<noteq> None then result\<lparr>sw_Checked := sw_Checked result + 1\<rparr> else result) in
      if \<not> mustEnd limiter grace nowNs key then sweepKeys limiter grace nowNs lookup rest (result1, closed, r)
      else let (conns, r1) = CloseKey keyID r
           in sweepKeys limiter grace nowNs lookup rest
                (result1\<lparr>sw_ClosedSessions := sw_ClosedSessions result1 + int (length conns)\<rparr>, closed @ conns, r1))"

definition SweepOnce :: "Counters option \<Rightarrow> int \<Rightarrow> (string \<Rightarrow> KeyState option) \<Rightarrow> int \<Rightarrow> ConnRegistry
    \<Rightarrow> SweepResult \<times> conn list \<times> ConnRegistry" where
  "SweepOnce limiter gracePercent lookup nowNs r =
     sweepKeys limiter gracePercent nowNs lookup (RegistryKeys r) (\<lparr>sw_Checked = 0, sw_ClosedSessions = 0\<rparr>, [], r)"

section \<open>Reserving a session\<close>

text \<open>
  \<open>reserveSession\<close> up to the unlock: the count held before, the registration, the decision. A refused
  request releases its reservation in a later step, as a finished one does.
\<close>

definition sessionCount :: "KeyState \<Rightarrow> ConnRegistry \<Rightarrow> nat" where
  "sessionCount k r = (if ks_KeyID k = '''' then 0 else Count (ks_KeyID k) r)"

definition reserveSession :: "Counters \<Rightarrow> int \<Rightarrow> KeyState option \<Rightarrow> conn \<Rightarrow> rateTable \<times> ConnRegistry \<Rightarrow> Decision \<times> rateTable \<times> ConnRegistry" where
  "reserveSession counters nowNs key session state =
     (case key of
        None \<Rightarrow> (admitRequest, state)
      | Some k \<Rightarrow>
          let (rates, r) = state; held = sessionCount k r;
              r1 = (if ks_KeyID k \<noteq> '''' then Track (ks_KeyID k) session r else r);
              (decision, rates1) = Check counters nowNs key (int held) rates
          in (decision, rates1, r1))"

definition Release :: "KeyState option \<Rightarrow> conn \<Rightarrow> ConnRegistry \<Rightarrow> ConnRegistry" where
  "Release key session r = (case key of None \<Rightarrow> r | Some k \<Rightarrow> Untrack (ks_KeyID k) session r)"

section \<open>The schedule bounds the rate\<close>

text \<open>A run of requests: the key charged, the spacing its limit implies, the time.\<close>

type_synonym rate_request = "string \<times> int \<times> int"

fun admitted :: "string \<Rightarrow> rate_request list \<Rightarrow> rateTable \<Rightarrow> nat" where
  "admitted name [] t = 0"
| "admitted name ((n, interval, now) # reqs) t =
     (let (ok, t') = allow n interval secondNs now t in (if n = name \<and> ok then 1 else 0) + admitted name reqs t')"

fun schedule :: "rate_request list \<Rightarrow> rateTable \<Rightarrow> rateTable" where
  "schedule [] t = t"
| "schedule ((n, interval, now) # reqs) t = schedule reqs (snd (allow n interval secondNs now t))"

text \<open>Times up to here leave room for the sums.\<close>

definition horizon :: int where
  "horizon = 4611686018427387904"

definition due_ok :: "string \<Rightarrow> rateTable \<Rightarrow> bool" where
  "due_ok name t \<longleftrightarrow> (\<forall>d. map_of t name = Some d \<longrightarrow> 0 \<le> d \<and> d \<le> horizon + secondNs)"

definition fits :: "string \<Rightarrow> rateTable \<Rightarrow> bool" where
  "fits name t \<longleftrightarrow> gm_wf t \<and> int (card (insert name (gm_keys t))) \<le> maxRateEntries"

lemma length_card: "gm_wf t \<Longrightarrow> length t = card (gm_keys t)"
  by (metis distinct_card length_map set_map)

lemma fits_no_prune: "fits name t \<Longrightarrow> int (length (AList.update name x t)) \<le> maxRateEntries"
  using length_card [OF gm_wf_update, of t name x] by (simp add: fits_def)

lemma startAt_mono: "now \<le> now' \<Longrightarrow> startAt name now t \<le> startAt name now' t"
  by (auto simp: startAt_def split: option.splits)

lemma startAt_ge: "now \<le> startAt name now t"
  by (auto simp: startAt_def split: option.splits)

lemma startAt_le: "due_ok name t \<Longrightarrow> now \<le> horizon \<Longrightarrow> startAt name now t \<le> horizon + secondNs"
  by (auto simp: startAt_def due_ok_def secondNs_def split: option.splits)

lemma allow_own:
  assumes "fits name t" "due_ok name t" "0 < interval" "interval \<le> secondNs" "0 \<le> now" "now \<le> horizon"
    "allow name interval secondNs now t = (ok, t')"
  shows "if ok then map_of t' name = Some (startAt name now t + interval) \<and> startAt name now t + interval \<le> now + secondNs else t' = t"
proof -
  let ?v = "startAt name now t"
  have v: "now \<le> ?v" "?v \<le> horizon + secondNs"
    using startAt_ge startAt_le [OF assms(2,6)] by auto
  have "in64 (?v + interval)" "in64 (?v + interval - now)"
    using v assms(3-6) by (auto simp: in64_def horizon_def secondNs_def)
  then have w: "wrap64 (?v + interval) = ?v + interval" "wrap64 (?v + interval - now) = ?v + interval - now"
    by simp_all
  show ?thesis
    using assms(3,7) fits_no_prune [OF assms(1), of "?v + interval"]
    by (auto simp: allow_def w Let_def gomap_simps split: if_splits)
qed

lemma allow_table:
  assumes "fits n t" "allow n interval secondNs now t = (ok, t')"
  shows "t' = t \<or> t' = AList.update n (wrap64 (startAt n now t + interval)) t"
  using assms(2) fits_no_prune [OF assms(1), of "wrap64 (startAt n now t + interval)"]
  by (auto simp: allow_def Let_def split: if_splits)

lemma allow_other:
  assumes "fits n t" "n \<noteq> name" "allow n interval secondNs now t = (ok, t')"
  shows "map_of t' name = map_of t name"
  using allow_table [OF assms(1,3)] assms(2) by (auto simp: gomap_simps)

lemma allow_keys:
  assumes "fits n t" "allow n interval secondNs now t = (ok, t')"
  shows "gm_keys t' \<subseteq> insert n (gm_keys t)" "gm_wf t'"
proof -
  show "gm_keys t' \<subseteq> insert n (gm_keys t)"
    using allow_table [OF assms] gm_keys_update [of n "wrap64 (startAt n now t + interval)" t] by blast
  show "gm_wf t'"
    using allow_table [OF assms] assms(1) by (auto simp: fits_def)
qed

lemma startAt_cong: "map_of t name = map_of t' name \<Longrightarrow> startAt name now t = startAt name now t'"
  by (simp add: startAt_def)

definition crowd :: "rate_request list \<Rightarrow> rateTable \<Rightarrow> string set" where
  "crowd reqs t = fst ` set reqs \<union> gm_keys t"

lemma crowd_fits:
  assumes "gm_wf t" "int (card (crowd ((n, i, now) # reqs) t)) \<le> maxRateEntries"
  shows "fits n t"
proof -
  have "card (insert n (gm_keys t)) \<le> card (crowd ((n, i, now) # reqs) t)"
    by (rule card_mono) (auto simp: crowd_def)
  then show ?thesis
    using assms by (simp add: fits_def)
qed

text \<open>What one request does to the schedule of \<open>name\<close>, its own or another's.\<close>

lemma request_step:
  assumes fit: "fits n t" and ok: "due_ok name t" and al: "allow n i secondNs now t = (ok, t')" and i: "n = name \<longrightarrow> i = interval"
    and I: "0 < interval" "interval \<le> secondNs" and now: "0 \<le> now" "now \<le> horizon" "s \<le> now"
  shows "due_ok name t'" "(if n = name \<and> ok then interval else 0) + startAt name s t \<le> startAt name now t'"
    "n = name \<Longrightarrow> ok \<Longrightarrow> \<exists>d. map_of t' name = Some d \<and> d \<le> now + secondNs"
    "\<not> (n = name \<and> ok) \<Longrightarrow> map_of t' name = map_of t name"
proof -
  have mono: "startAt name s t \<le> startAt name now t"
    using now(3) by (rule startAt_mono)
  have "due_ok name t' \<and> (if n = name \<and> ok then interval else 0) + startAt name s t \<le> startAt name now t' \<and>
    (n = name \<longrightarrow> ok \<longrightarrow> (\<exists>d. map_of t' name = Some d \<and> d \<le> now + secondNs)) \<and>
    (\<not> (n = name \<and> ok) \<longrightarrow> map_of t' name = map_of t name)"
  proof (cases "n = name")
    case True
    then have own: "if ok then map_of t' name = Some (startAt name now t + interval) \<and> startAt name now t + interval \<le> now + secondNs else t' = t"
      using allow_own [of name t interval now ok t'] fit al i assms(2) I now(1,2) by simp
    show ?thesis
    proof (cases ok)
      case okT: True
      then have new: "map_of t' name = Some (startAt name now t + interval)" "startAt name now t + interval \<le> now + secondNs"
        using own by simp_all
      moreover have "startAt name now t + interval \<le> startAt name now t'"
        unfolding startAt_def [of name now t'] new(1) by simp
      ultimately show ?thesis
        using True okT mono now I startAt_ge [of now name t] by (auto simp: due_ok_def)
    next
      case False
      then show ?thesis
        using own True mono assms(2) by simp
    qed
  next
    case False
    then have "map_of t' name = map_of t name"
      using allow_other [OF fit False al] by simp
    then show ?thesis
      using False mono assms(2) startAt_cong [of t' name t now] by (simp add: due_ok_def)
  qed
  then show "due_ok name t'" "(if n = name \<and> ok then interval else 0) + startAt name s t \<le> startAt name now t'"
    "n = name \<Longrightarrow> ok \<Longrightarrow> \<exists>d. map_of t' name = Some d \<and> d \<le> now + secondNs"
    "\<not> (n = name \<and> ok) \<Longrightarrow> map_of t' name = map_of t name"
    by auto
qed

lemma schedule_bound:
  assumes "gm_wf t" "int (card (crowd reqs t)) \<le> maxRateEntries" "due_ok name t"
    and "sorted (s # map (\<lambda>(_, _, now). now) reqs)" "\<forall>(n, i, now)\<in>set reqs. now \<le> e \<and> (n = name \<longrightarrow> i = interval)"
    and "0 < interval" "interval \<le> secondNs" "0 \<le> s" "s \<le> e" "e \<le> horizon"
  shows "int (admitted name reqs t) * interval + startAt name s t \<le> startAt name e (schedule reqs t) \<and>
    (if admitted name reqs t > 0 then \<exists>d. map_of (schedule reqs t) name = Some d \<and> d \<le> e + secondNs
     else map_of (schedule reqs t) name = map_of t name)"
  using assms
proof (induction reqs arbitrary: t s)
  case Nil
  then show ?case
    using startAt_mono [of s e name t] by simp
next
  case (Cons req reqs)
  obtain n i now where req: "req = (n, i, now)"
    by (cases req)
  obtain ok t' where al: "allow n i secondNs now t = (ok, t')"
    by fastforce
  have fit: "fits n t"
    using crowd_fits Cons.prems(1,2) unfolding req by blast
  note keys = allow_keys [OF fit al]
  have "card (crowd reqs t') \<le> card (crowd (req # reqs) t)"
    using keys(1) by (intro card_mono) (auto simp: crowd_def req)
  then have crowd: "int (card (crowd reqs t')) \<le> maxRateEntries"
    using Cons.prems(2) by simp
  have time: "s \<le> now" "now \<le> e" "n = name \<longrightarrow> i = interval" "0 \<le> now" "now \<le> horizon"
    using Cons.prems(4,5,8,10) by (auto simp: req)
  have step: "due_ok name t'" "(if n = name \<and> ok then interval else 0) + startAt name s t \<le> startAt name now t'"
    "n = name \<Longrightarrow> ok \<Longrightarrow> \<exists>d. map_of t' name = Some d \<and> d \<le> e + secondNs"
    "\<not> (n = name \<and> ok) \<Longrightarrow> map_of t' name = map_of t name"
    using request_step [OF fit Cons.prems(3) al time(3) Cons.prems(6,7) time(4,5,1)] time(2) by auto
  have "sorted (now # map (\<lambda>(_, _, now). now) reqs)" "\<forall>(n, i, now)\<in>set reqs. now \<le> e \<and> (n = name \<longrightarrow> i = interval)"
    using Cons.prems(4,5) by (auto simp: req)
  from Cons.IH [OF keys(2) crowd step(1) this Cons.prems(6,7) time(4,2) Cons.prems(10)]
  have IH: "int (admitted name reqs t') * interval + startAt name now t' \<le> startAt name e (schedule reqs t')"
    "if admitted name reqs t' > 0 then \<exists>d. map_of (schedule reqs t') name = Some d \<and> d \<le> e + secondNs
     else map_of (schedule reqs t') name = map_of t' name"
    by auto
  show ?case
  proof (cases "n = name \<and> ok")
    case True
    have "\<exists>d. map_of (schedule reqs t') name = Some d \<and> d \<le> e + secondNs"
      using IH(2) step(3) True by (auto split: if_splits)
    then show ?thesis
      using True IH(1) step(2) al [unfolded conjunct1 [OF True]] by (simp add: req algebra_simps)
  next
    case False
    then show ?thesis
      using IH step(2,4) by (auto simp: req al split: if_splits)
  qed
qed

text \<open>
  A run of requests through the gate: the counters read, the time, the key and the sessions it holds.
  \<open>passed\<close> counts the requests of a key that the gate let through, \<open>charged\<close> are the requests that reach
  the schedule.
\<close>

type_synonym gate_request = "Counters \<times> int \<times> KeyState \<times> int"

fun passed :: "string \<Rightarrow> gate_request list \<Rightarrow> rateTable \<Rightarrow> nat" where
  "passed name [] t = 0"
| "passed name ((counters, now, k, concurrent) # reqs) t =
     (let (d, t') = Check counters now (Some k) concurrent t in (if rateKey k = name \<and> dc_Allowed d then 1 else 0) + passed name reqs t')"

fun charged :: "gate_request \<Rightarrow> rate_request list" where
  "charged (counters, now, k, concurrent) =
     (if Usable k now \<and> \<not> (sn_MaxConcurrent (ks_Plan k) > 0 \<and> concurrent \<ge> sn_MaxConcurrent (ks_Plan k)) \<and>
         sn_MaxRPS (ks_Plan k) > 0 \<and> rateKey k \<noteq> ''''
      then [(rateKey k, secondNs sdiv sn_MaxRPS (ks_Plan k), now)] else [])"

fun gate_time :: "gate_request \<Rightarrow> int" where
  "gate_time (_, now, _, _) = now"

lemma decision_fields [simp]:
  "dc_Allowed admitRequest" "\<not> dc_Allowed (refuse reason)" "dc_Reason (refuse reason) = reason"
  by (simp_all add: admitRequest_def refuse_def)

lemma passed_charged:
  assumes "name \<noteq> ''''" "\<forall>(_, _, k, _)\<in>set reqs. rateKey k = name \<longrightarrow> sn_MaxRPS (ks_Plan k) > 0"
  shows "passed name reqs t \<le> admitted name (concat (map charged reqs)) t"
  using assms(2)
proof (induction reqs arbitrary: t)
  case (Cons req reqs)
  obtain counters now k c where req: "req = (counters, now, k, c)"
    by (cases req)
  obtain ok t' where ct: "checkRate now k t = (ok, t')"
    by fastforce
  have IH: "passed name reqs u \<le> admitted name (concat (map charged reqs)) u" for u
    using Cons by simp
  have limit: "rateKey k = name \<Longrightarrow> sn_MaxRPS (ks_Plan k) > 0"
    using Cons.prems by (simp add: req)
  show ?case
    using IH [of t] IH [of t'] limit ct assms(1)
    by (cases ok) (auto simp: req Check_def checkRate_def Let_def split: if_splits)
qed simp

lemma charged_sorted:
  "sorted (s # map gate_time reqs) \<Longrightarrow> sorted (s # map (\<lambda>(_, _, now). now) (concat (map charged reqs)))"
proof (induction reqs arbitrary: s)
  case (Cons req reqs)
  then have "sorted (gate_time req # map (\<lambda>(_, _, now). now) (concat (map charged reqs)))" "s \<le> gate_time req"
    using Cons.IH [of "gate_time req"] by simp_all
  then show ?case
    by (cases req) fastforce
qed simp


definition wk :: KeyState where
  "wk = \<lparr>ks_KeyID = ''a'', ks_UserID = ''u'', ks_SecretHash = '''', ks_Scope = '''', ks_Status = KeyStatusActive, ks_ExpiresAtNs = 0,
     ks_Platforms = [], ks_AllowlistSet = False, ks_Allowlist = [], ks_UserStatus = UserStatusActive, ks_UserRole = '''',
     ks_Plan = zeroSnapshot\<lparr>sn_MaxRPS := 2, sn_MaxConcurrent := 1\<rparr>\<rparr>"

lemmas wk_defs = wk_def zeroSnapshot_def rateKey_def


section \<open>What a sweep ends\<close>

definition sessions :: "string \<Rightarrow> ConnRegistry \<Rightarrow> conn list" where
  "sessions keyID r = (case map_of r keyID of None \<Rightarrow> [] | Some conns \<Rightarrow> conns)"

definition registry_wf :: "ConnRegistry \<Rightarrow> bool" where
  "registry_wf r \<longleftrightarrow> gm_wf r \<and> list_all (\<lambda>(k, conns). k \<noteq> '''' \<and> conns \<noteq> [] \<and> distinct conns) r"

lemma registry_wfD:
  assumes "registry_wf r"
  shows "gm_wf r" "'''' \<notin> gm_keys r" "sessions '''' r = []" "distinct (sessions k r)"
  using assms by (auto simp: registry_wf_def list_all_iff sessions_def split: option.splits dest: map_of_SomeD)

lemma sessions_update [simp]: "sessions k (AList.update n conns r) = (if k = n then conns else sessions k r)"
  by (simp add: sessions_def gomap_simps)

lemma sessions_delete [simp]: "sessions k (AList.delete n r) = (if k = n then [] else sessions k r)"
  by (simp add: sessions_def gomap_simps)

lemma sessions_Track: "sessions k (Track n c r) = (if k = n \<and> n \<noteq> '''' then List.insert c (sessions k r) else sessions k r)"
  by (auto simp: Track_def) (simp_all add: sessions_def)

lemma sessions_Untrack: "sessions k (Untrack n c r) = (if k = n \<and> n \<noteq> '''' then remove1 c (sessions k r) else sessions k r)"
  by (auto simp: Untrack_def Let_def split: option.splits) (auto simp: sessions_def)

lemma Count_sessions: "Count k r = (if k = '''' then 0 else length (sessions k r))"
  by (simp add: Count_def sessions_def split: option.splits)

lemma CloseKey_eq: "n \<noteq> '''' \<Longrightarrow> CloseKey n r = (sessions n r, AList.delete n r)"
proof (cases "map_of r n")
  case None
  then have "AList.delete n r = r"
    by (simp add: map_of_eq_None_iff)
  then show "CloseKey n r = (sessions n r, AList.delete n r)" if "n \<noteq> ''''"
    unfolding CloseKey_def sessions_def None using that by simp
qed (simp add: CloseKey_def sessions_def)

lemma registry_wf_update:
  assumes "registry_wf r" "n \<noteq> ''''" "conns \<noteq> []" "distinct conns"
  shows "registry_wf (AList.update n conns r)"
  using assms set_gm_update_subset [of n conns r] by (auto simp: registry_wf_def list_all_iff)

lemma registry_wf_delete: "registry_wf r \<Longrightarrow> registry_wf (AList.delete n r)"
  by (auto simp: registry_wf_def list_all_iff AList.delete_eq)

lemma insert_ne [simp]: "List.insert c conns \<noteq> []"
  by (auto simp: List.insert_def)

lemma registry_wf_Track: "registry_wf r \<Longrightarrow> registry_wf (Track n c r)"
  using registry_wfD(4) [of r n] by (auto simp: Track_def sessions_def [symmetric] intro!: registry_wf_update split: if_splits)

lemma registry_wf_Untrack: "registry_wf r \<Longrightarrow> registry_wf (Untrack n c r)"
  using registry_wfD(4) [of r n]
  by (auto simp: Untrack_def Let_def sessions_def intro!: registry_wf_update registry_wf_delete split: option.splits)

text \<open>The registry after a sweep over some of its keys, what it closed and what it counted.\<close>

lemma sweepKeys_eq:
  assumes "'''' \<notin> set ks" "distinct ks"
  shows "sweepKeys limiter g now lookup ks (res, closed, r) =
    (let ended = filter (\<lambda>k. mustEnd limiter g now (lookup k)) ks; conns = concat (map (\<lambda>k. sessions k r) ended)
     in (\<lparr>sw_Checked = sw_Checked res + int (length (filter (\<lambda>k. lookup k \<noteq> None) ks)),
          sw_ClosedSessions = sw_ClosedSessions res + int (length conns)\<rparr>,
         closed @ conns, fold AList.delete ended r))"
  using assms
proof (induction ks arbitrary: res closed r)
  case (Cons k ks)
  have same: "map (\<lambda>n. sessions n (AList.delete k r)) (filter P ks) = map (\<lambda>n. sessions n r) (filter P ks)" for P
    using Cons.prems by auto
  have "k \<noteq> ''''"
    using Cons.prems by auto
  then show ?case
    using Cons by (simp add: CloseKey_eq Let_def same del: sessions_delete)
qed simp

lemma sessions_fold_delete: "sessions k (fold AList.delete ks r) = (if k \<in> set ks then [] else sessions k r)"
  by (induction ks arbitrary: r) auto

lemma registry_wf_fold_delete: "registry_wf r \<Longrightarrow> registry_wf (fold AList.delete ks r)"
  by (induction ks arbitrary: r) (auto intro: registry_wf_delete)

lemma SweepOnce_eq:
  assumes "registry_wf r" "SweepOnce limiter g lookup now r = (res, closed, r')"
  defines "ended \<equiv> filter (\<lambda>n. mustEnd limiter g now (lookup n)) (map fst r)"
  shows "r' = fold AList.delete ended r" "closed = concat (map (\<lambda>n. sessions n r) ended)"
    "sw_ClosedSessions res = int (length closed)" "sw_Checked res = int (length (filter (\<lambda>k. lookup k \<noteq> None) (map fst r)))"
  using assms(2) registry_wfD(1,2) [OF assms(1)] by (auto simp: ended_def SweepOnce_def RegistryKeys_def sweepKeys_eq Let_def)

lemma sweep_sessions:
  assumes "registry_wf r" "SweepOnce limiter g lookup now r = (res, closed, r')"
  shows "sessions k r' = (if mustEnd limiter g now (lookup k) then [] else sessions k r)"
    "mustEnd limiter g now (lookup k) \<Longrightarrow> set (sessions k r) \<subseteq> set closed"
proof -
  have absent: "k \<notin> set (map fst r) \<Longrightarrow> sessions k r = []"
    by (cases "map_of r k") (auto simp: sessions_def dest: map_of_SomeD gm_keysI)
  have "sessions k r' = (if k \<in> set (map fst r) \<and> mustEnd limiter g now (lookup k) then [] else sessions k r)"
    by (simp add: SweepOnce_eq(1) [OF assms] sessions_fold_delete del: set_map)
  then show "sessions k r' = (if mustEnd limiter g now (lookup k) then [] else sessions k r)"
    using absent by presburger
  show "set (sessions k r) \<subseteq> set closed" if "mustEnd limiter g now (lookup k)"
  proof (cases "k \<in> set (map fst r)")
    case True
    then have "k \<in> set (filter (\<lambda>n. mustEnd limiter g now (lookup n)) (map fst r))"
      using that by (simp del: set_map)
    then show ?thesis
      unfolding SweepOnce_eq(2) [OF assms] by fastforce
  qed (simp add: absent del: set_map)
qed



section \<open>The sessions a key holds\<close>

text \<open>
  The front of the proxy: the schedule, the registry and the sessions being served, which are those that
  were admitted and have been neither released nor closed since. A refused request stays registered until
  the step that releases it, so any number of other requests may come in between.
\<close>

record front =
  fr_rates :: rateTable
  fr_registry :: ConnRegistry
  fr_serving :: "(string \<times> conn) list"

datatype front_op =
    FReserve Counters int KeyState conn
  | FRelease KeyState conn
  | FCloseKey string
  | FSweep "Counters option" int "string \<Rightarrow> KeyState option" int

definition endSessions :: "conn list \<Rightarrow> (string \<times> conn) list \<Rightarrow> (string \<times> conn) list" where
  "endSessions closed serving = filter (\<lambda>(k, c). c \<notin> set closed) serving"

fun front_step :: "front_op \<Rightarrow> front \<Rightarrow> front" where
  "front_step (FReserve counters now k session) f =
     (let (d, rates, r) = reserveSession counters now (Some k) session (fr_rates f, fr_registry f)
      in \<lparr>fr_rates = rates, fr_registry = r,
          fr_serving = (if dc_Allowed d then List.insert (ks_KeyID k, session) (fr_serving f) else fr_serving f)\<rparr>)"
| "front_step (FRelease k session) f =
     f\<lparr>fr_registry := Release (Some k) session (fr_registry f), fr_serving := removeAll (ks_KeyID k, session) (fr_serving f)\<rparr>"
| "front_step (FCloseKey keyID) f =
     (let (closed, r) = CloseKey keyID (fr_registry f) in f\<lparr>fr_registry := r, fr_serving := endSessions closed (fr_serving f)\<rparr>)"
| "front_step (FSweep limiter g lookup now) f =
     (let (_, closed, r) = SweepOnce limiter g lookup now (fr_registry f)
      in f\<lparr>fr_registry := r, fr_serving := endSessions closed (fr_serving f)\<rparr>)"

definition served :: "string \<Rightarrow> front \<Rightarrow> conn list" where
  "served keyID f = map snd (filter (\<lambda>p. fst p = keyID) (fr_serving f))"

text \<open>The plan of every request of the key sets a limit, and none a higher one than \<open>limit\<close>.\<close>

fun limited_op :: "string \<Rightarrow> int \<Rightarrow> front_op \<Rightarrow> bool" where
  "limited_op keyID limit (FReserve _ _ k _) =
     (ks_KeyID k = keyID \<longrightarrow> 0 < sn_MaxConcurrent (ks_Plan k) \<and> sn_MaxConcurrent (ks_Plan k) \<le> limit)"
| "limited_op keyID limit _ = True"

definition front_inv :: "string \<Rightarrow> int \<Rightarrow> front \<Rightarrow> bool" where
  "front_inv keyID limit f \<longleftrightarrow> registry_wf (fr_registry f) \<and> distinct (fr_serving f) \<and>
     (\<forall>(k, c)\<in>set (fr_serving f). k \<noteq> '''' \<longrightarrow> c \<in> set (sessions k (fr_registry f))) \<and> int (length (served keyID f)) \<le> limit"

lemma distinct_served: "distinct (fr_serving f) \<Longrightarrow> distinct (served keyID f)"
  by (auto simp: served_def distinct_map inj_on_def)

lemma served_le_sessions:
  assumes "front_inv keyID limit f" "keyID \<noteq> ''''"
  shows "length (served keyID f) \<le> length (sessions keyID (fr_registry f))"
proof -
  have "set (served keyID f) \<subseteq> set (sessions keyID (fr_registry f))"
    using assms by (auto simp: front_inv_def served_def)
  then have "card (set (served keyID f)) \<le> card (set (sessions keyID (fr_registry f)))"
    by (simp add: card_mono)
  moreover have "distinct (served keyID f)"
    using assms by (simp add: front_inv_def distinct_served)
  ultimately show ?thesis
    using card_length [of "sessions keyID (fr_registry f)"] by (simp add: distinct_card)
qed

lemma Check_below_limit:
  assumes "Check counters now (Some k) concurrent rates = (d, rates')" "dc_Allowed d" "0 < sn_MaxConcurrent (ks_Plan k)"
  shows "concurrent < sn_MaxConcurrent (ks_Plan k)"
  using assms by (auto simp: Check_def split: if_splits prod.splits bool.splits)

lemma reserve_front:
  "front_step (FReserve counters now k session) f =
     (let (d, rates) = Check counters now (Some k) (int (Count (ks_KeyID k) (fr_registry f))) (fr_rates f)
      in \<lparr>fr_rates = rates, fr_registry = Track (ks_KeyID k) session (fr_registry f),
          fr_serving = (if dc_Allowed d then List.insert (ks_KeyID k, session) (fr_serving f) else fr_serving f)\<rparr>)"
  by (simp add: reserveSession_def sessionCount_def Let_def Track_def Count_def split: prod.splits)

lemma served_fewer: "length (filter P (filter Q xs)) \<le> length (filter P xs)"
  by (induction xs) auto

lemma front_inv_fewer:
  assumes "front_inv keyID limit f" "registry_wf r" "\<And>k c. (k, c) \<in> set (fr_serving f) \<Longrightarrow> P (k, c) \<Longrightarrow> k \<noteq> '''' \<Longrightarrow> c \<in> set (sessions k r)"
  shows "front_inv keyID limit (f\<lparr>fr_registry := r, fr_serving := filter P (fr_serving f)\<rparr>)"
  using assms served_fewer [of "\<lambda>p. fst p = keyID" P "fr_serving f"] by (auto simp: front_inv_def served_def)

lemma front_inv_reserve:
  assumes "front_inv keyID limit f" "keyID \<noteq> ''''" "limited_op keyID limit (FReserve counters now k session)"
  shows "front_inv keyID limit (front_step (FReserve counters now k session) f)"
proof -
  obtain d rates where ch: "Check counters now (Some k) (int (Count (ks_KeyID k) (fr_registry f))) (fr_rates f) = (d, rates)"
    by fastforce
  let ?f = "front_step (FReserve counters now k session) f"
  have f: "?f = \<lparr>fr_rates = rates, fr_registry = Track (ks_KeyID k) session (fr_registry f),
      fr_serving = (if dc_Allowed d then List.insert (ks_KeyID k, session) (fr_serving f) else fr_serving f)\<rparr>"
    unfolding reserve_front ch by simp
  have "int (length (served keyID ?f)) \<le> limit"
  proof (cases "dc_Allowed d \<and> ks_KeyID k = keyID")
    case True
    then have "int (length (sessions keyID (fr_registry f))) < limit"
      using Check_below_limit [OF ch] assms(2,3) by (auto simp: Count_sessions)
    then have "int (length (served keyID f)) < limit"
      using served_le_sessions [OF assms(1,2)] by linarith
    then show ?thesis
      unfolding f using True by (auto simp: served_def List.insert_def)
  next
    case False
    then show ?thesis
      unfolding f using assms(1) by (auto simp: front_inv_def served_def List.insert_def)
  qed
  then show ?thesis
    unfolding f using assms(1) by (auto simp: front_inv_def registry_wf_Track sessions_Track)
qed

interpretation front_sessions: guarded_machine front_step "front_inv keyID limit" "\<lambda>op. keyID \<noteq> '''' \<and> limited_op keyID limit op"
  for keyID limit
proof (unfold_locales, goal_cases)
  case (1 op f)
  then have wf: "registry_wf (fr_registry f)" and
    held: "\<And>k c. (k, c) \<in> set (fr_serving f) \<Longrightarrow> k \<noteq> '''' \<Longrightarrow> c \<in> set (sessions k (fr_registry f))"
    by (auto simp: front_inv_def)
  show ?case
  proof (cases op)
    case FReserve
    then show ?thesis
      using 1 front_inv_reserve by simp
  next
    case (FRelease k c)
    have "front_inv keyID limit (f\<lparr>fr_registry := Untrack (ks_KeyID k) c (fr_registry f),
        fr_serving := filter (\<lambda>p. (ks_KeyID k, c) \<noteq> p) (fr_serving f)\<rparr>)"
      using registry_wfD(4) [OF wf] held
      by (intro front_inv_fewer [OF 1(2) registry_wf_Untrack [OF wf]]) (auto simp: sessions_Untrack)
    then show ?thesis
      by (simp add: FRelease Release_def removeAll_filter_not_eq)
  next
    case (FCloseKey n)
    show ?thesis
    proof (cases "n = ''''")
      case True
      then show ?thesis
        using 1(2) by (simp add: FCloseKey CloseKey_def endSessions_def split_def)
    next
      case False
      have "front_inv keyID limit (f\<lparr>fr_registry := AList.delete n (fr_registry f),
          fr_serving := filter (\<lambda>(k, c). c \<notin> set (sessions n (fr_registry f))) (fr_serving f)\<rparr>)"
        using held by (intro front_inv_fewer [OF 1(2) registry_wf_delete [OF wf]]) auto
      then show ?thesis
        by (simp add: FCloseKey CloseKey_eq [OF False] endSessions_def)
    qed
  next
    case (FSweep limiter g lookup now)
    obtain res closed r' where sw: "SweepOnce limiter g lookup now (fr_registry f) = (res, closed, r')"
      by (cases "SweepOnce limiter g lookup now (fr_registry f)") auto
    have "registry_wf r'"
      unfolding SweepOnce_eq(1) [OF wf sw] by (rule registry_wf_fold_delete [OF wf])
    moreover have "c \<in> set (sessions k r')" if "(k, c) \<in> set (fr_serving f)" "c \<notin> set closed" "k \<noteq> ''''" for k c
      using held [OF that(1,3)] that(2) sweep_sessions [OF wf sw, of k] by (auto split: if_splits)
    ultimately have "front_inv keyID limit (f\<lparr>fr_registry := r', fr_serving := filter (\<lambda>(k, c). c \<notin> set closed) (fr_serving f)\<rparr>)"
      by (intro front_inv_fewer [OF 1(2)]) auto
    then show ?thesis
      by (simp add: FSweep sw endSessions_def)
  qed
qed

definition NewFront :: front where
  "NewFront = \<lparr>fr_rates = [], fr_registry = NewConnRegistry, fr_serving = []\<rparr>"

text \<open>
  C12. A key never has more sessions being served than its plan allows, however the requests of all keys, the
  ends of their sessions, the closing of keys and the sweeps interleave: a burst that arrives together is
  decided against a count that includes every session reserved before.
\<close>
theorem concurrency_limit_holds:
  assumes "keyID \<noteq> ''''" "0 \<le> limit" "list_all (limited_op keyID limit) ops"
  shows "int (length (served keyID (fold front_step ops NewFront))) \<le> limit"
proof -
  have "front_inv keyID limit NewFront"
    using assms(2) by (simp add: front_inv_def NewFront_def NewConnRegistry_def registry_wf_def served_def)
  then have "front_inv keyID limit (fold front_step ops NewFront)"
    using assms(1,3) by (intro front_sessions.inv_ok_run) (simp add: list_all_iff)
  then show ?thesis
    by (simp add: front_inv_def)
qed

text \<open>Two requests of a key with one session arrive together: the first is served, the second refused.\<close>

theorem concurrency_limit_holds_witness:
  "int (length (served ''a'' (fold front_step [FReserve NewCounters 5 wk 1, FReserve NewCounters 5 wk 2, FRelease wk 2] NewFront))) \<le> 1 \<and>
   served ''a'' (fold front_step [FReserve NewCounters 5 wk 1, FReserve NewCounters 5 wk 2, FRelease wk 2] NewFront) = [1]"
proof
  show "int (length (served ''a'' (fold front_step [FReserve NewCounters 5 wk 1, FReserve NewCounters 5 wk 2, FRelease wk 2] NewFront))) \<le> 1"
    by (rule concurrency_limit_holds) (simp_all add: wk_defs)
  show "served ''a'' (fold front_step [FReserve NewCounters 5 wk 1, FReserve NewCounters 5 wk 2, FRelease wk 2] NewFront) = [1]"
    by code_simp
qed

end
