(* ===== verification/Node_Pool.thy ===== *)
theory Node_Pool
  imports Platform
begin

text \<open>
  The global node pool (\<open>internal/topology/pool.go\<close>) with the node's outbound (\<open>internal/outbound/manager.go\<close>,
  the part that changes the node): which nodes exist and who holds them, their health and egress address,
  the index from egress addresses to nodes, and the platforms whose views follow the nodes.

  One call is one step: an entry changes under its map's critical section or by atomic stores, and the
  notification of the platforms is waited for. A name of \<open>platformByName\<close> carries the id of the platform it points
  at. The lookups injected into the pool, the clock, the parser of node documents, the outbound builder
  and \<open>netutil.ExtractDomain\<close> are parameters; callbacks that only mark rows for persistence are left out.

  The theory shows: the index answers exactly the nodes that have an address; a node's circuit is open
  exactly while its last consecutive failures reach the limit; and how far each operation leaves the views behind the nodes.
\<close>

section \<open>State and parameters\<close>

record GlobalNodePool =
  gp_nodes :: NodeMap
  gp_platformByID :: "(string, Platform) gomap"
  gp_platformByName :: "(string, string) gomap"
  gp_qualitySnapshot :: "QualitySnapshotReader option"
  gp_egressIndex :: "(Addr, Hash list) gomap"

text \<open>
  \<open>pc_doc\<close> reads engine and type of a node document, \<open>pc_type\<close> its plain \<open>type\<close> field; \<open>pc_build\<close>
  answers the error of building an outbound, if there is one.
\<close>

record PoolConfig =
  pc_maxLatencyTableEntries :: int
  pc_maxConsecutiveFailures :: int
  pc_latencyDecayWindow :: int
  pc_latencyAuthorities :: "string list"
  pc_doc :: "string \<Rightarrow> (string \<times> string) option"
  pc_type :: "string \<Rightarrow> string option"
  pc_build :: "string \<Rightarrow> string option"
  pc_ExtractDomain :: "string \<Rightarrow> string"
  pc_mix :: "int \<Rightarrow> int \<Rightarrow> int \<Rightarrow> int \<Rightarrow> int"
  pc_domainKey :: "string \<Rightarrow> nat"

definition NewGlobalNodePool :: GlobalNodePool where
  "NewGlobalNodePool = \<lparr>gp_nodes = [], gp_platformByID = [], gp_platformByName = [], gp_qualitySnapshot = None, gp_egressIndex = []\<rparr>"

section \<open>New entries\<close>

text \<open>The bound counts characters; names are ASCII here.\<close>

definition boundProtocolToken :: "string \<Rightarrow> string" where
  "boundProtocolToken value = (if length value \<le> 32 then value else take 32 value)"

definition normalizeProtocolName :: "string \<Rightarrow> string \<Rightarrow> string" where
  "normalizeProtocolName engine typeName =
     (let name = boundProtocolToken (ToLower (TrimSpace typeName)) in
      if engine \<noteq> ''mihomo'' then name
      else if name = ''ss'' then ''shadowsocks'' else if name = ''socks5'' then ''socks'' else name)"

definition protocolOf :: "PoolConfig \<Rightarrow> string \<Rightarrow> string" where
  "protocolOf cfg raw =
     (case pc_doc cfg raw of
        Some (engine, typeName) \<Rightarrow> normalizeProtocolName engine typeName
      | None \<Rightarrow> (case pc_type cfg raw of Some t \<Rightarrow> if length t \<le> 32 then ToLower t else '''' | None \<Rightarrow> ''''))"

definition NewNodeEntry :: "PoolConfig \<Rightarrow> Hash \<Rightarrow> string \<Rightarrow> NodeEntry" where
  "NewNodeEntry cfg h raw =
     \<lparr>ne_Hash = h, ne_RawOptions = raw, ne_Protocol = protocolOf cfg raw, ne_subscriptionIDs = [], ne_LastError = '''',
      ne_FailureCount = 0, ne_CircuitOpenSince = 0, ne_egressIP = None, ne_egressRegion = None, ne_LastEgressUpdate = 0,
      ne_LastLatencyProbeAttempt = 0, ne_LastAuthorityLatencyProbeAttempt = 0, ne_LastEgressUpdateAttempt = 0,
      ne_probeErrorClass = None, ne_probeErrorDetail = None, ne_probeErrorAt = 0,
      ne_LatencyTable = (if pc_maxLatencyTableEntries cfg > 0 then NewLatencyTable (pc_maxLatencyTableEntries cfg) else None),
      ne_Outbound = False\<rparr>"

section \<open>Platforms\<close>

text \<open>The lookups of an evaluation; the projection is the one the pool installed on every platform.\<close>

definition poolLookups :: "Lookups \<Rightarrow> GlobalNodePool \<Rightarrow> Lookups" where
  "poolLookups lk p = lk\<lparr>lk_snap := gp_qualitySnapshot p\<rparr>"

definition mapPlatforms :: "(Platform \<Rightarrow> Platform) \<Rightarrow> GlobalNodePool \<Rightarrow> GlobalNodePool" where
  "mapPlatforms f p = p\<lparr>gp_platformByID := map (\<lambda>(i, plat). (i, f plat)) (gp_platformByID p)\<rparr>"

definition notifyAllPlatformsDirty :: "Lookups \<Rightarrow> int \<Rightarrow> Hash \<Rightarrow> GlobalNodePool \<Rightarrow> GlobalNodePool" where
  "notifyAllPlatformsDirty lk now h p = mapPlatforms (NotifyDirty h (gp_nodes p) (poolLookups lk p) now) p"

definition RebuildPlatform :: "Lookups \<Rightarrow> int \<Rightarrow> GlobalNodePool \<Rightarrow> Platform \<Rightarrow> Platform" where
  "RebuildPlatform lk now p plat = FullRebuild (gp_nodes p) (poolLookups lk p) now plat"

definition RebuildAllPlatforms :: "Lookups \<Rightarrow> int \<Rightarrow> GlobalNodePool \<Rightarrow> GlobalNodePool" where
  "RebuildAllPlatforms lk now p = mapPlatforms (RebuildPlatform lk now p) p"

definition RegisterPlatform :: "Platform \<Rightarrow> GlobalNodePool \<Rightarrow> GlobalNodePool" where
  "RegisterPlatform plat p =
     (if map_of (gp_platformByID p) (pl_ID plat) \<noteq> None then p
      else p\<lparr>gp_platformByID := AList.update (pl_ID plat) plat (gp_platformByID p),
             gp_platformByName := (if pl_Name plat \<noteq> '''' then AList.update (pl_Name plat) (pl_ID plat) (gp_platformByName p)
                                   else gp_platformByName p)\<rparr>)"

text \<open>A name is taken back only while it still points at this platform.\<close>

definition dropName :: "Platform \<Rightarrow> (string, string) gomap \<Rightarrow> (string, string) gomap" where
  "dropName plat names =
     (if pl_Name plat \<noteq> '''' \<and> map_of names (pl_Name plat) = Some (pl_ID plat) then AList.delete (pl_Name plat) names else names)"

definition UnregisterPlatform :: "string \<Rightarrow> GlobalNodePool \<Rightarrow> GlobalNodePool" where
  "UnregisterPlatform i p =
     (case map_of (gp_platformByID p) i of
        None \<Rightarrow> p
      | Some plat \<Rightarrow> p\<lparr>gp_platformByID := AList.delete i (gp_platformByID p), gp_platformByName := dropName plat (gp_platformByName p)\<rparr>)"

datatype pool_error = ErrPlatformNotRegistered | ErrPlatformNameConflict

definition ReplacePlatform :: "Lookups \<Rightarrow> int \<Rightarrow> Platform \<Rightarrow> GlobalNodePool \<Rightarrow> (pool_error + unit) \<times> GlobalNodePool" where
  "ReplacePlatform lk now plat p =
     (if pl_ID plat = '''' then (Inl ErrPlatformNotRegistered, p)
      else let built = RebuildPlatform lk now p plat in
        (case map_of (gp_platformByID p) (pl_ID plat) of
           None \<Rightarrow> (Inl ErrPlatformNotRegistered, p)
         | Some current \<Rightarrow>
             if pl_Name plat \<noteq> '''' \<and>
               (case map_of (gp_platformByName p) (pl_Name plat) of None \<Rightarrow> False | Some i \<Rightarrow> i \<noteq> pl_ID plat)
             then (Inl ErrPlatformNameConflict, p)
             else let names = dropName current (gp_platformByName p) in
               (Inr (), p\<lparr>gp_platformByID := AList.update (pl_ID plat) built (gp_platformByID p),
                  gp_platformByName := (if pl_Name plat \<noteq> '''' then AList.update (pl_Name plat) (pl_ID plat) names else names)\<rparr>)))"

definition GetPlatform :: "string \<Rightarrow> GlobalNodePool \<Rightarrow> Platform option" where
  "GetPlatform i p = map_of (gp_platformByID p) i"

definition GetPlatformByName :: "string \<Rightarrow> GlobalNodePool \<Rightarrow> Platform option" where
  "GetPlatformByName name p = Option.bind (map_of (gp_platformByName p) name) (map_of (gp_platformByID p))"

text \<open>Withdrawing the projection rebuilds nothing.\<close>

definition SetQualitySnapshot :: "Lookups \<Rightarrow> int \<Rightarrow> QualitySnapshotReader option \<Rightarrow> GlobalNodePool \<Rightarrow> GlobalNodePool" where
  "SetQualitySnapshot lk now snap p =
     (let p1 = p\<lparr>gp_qualitySnapshot := snap\<rparr> in case snap of None \<Rightarrow> p1 | Some _ \<Rightarrow> RebuildAllPlatforms lk now p1)"

section \<open>The egress index\<close>

definition indexEgressIP :: "Hash \<Rightarrow> Addr \<Rightarrow> Addr \<Rightarrow> (Addr, Hash list) gomap \<Rightarrow> (Addr, Hash list) gomap" where
  "indexEgressIP h oldIP newIP idx =
     (let idx1 = (if \<not> IsValid oldIP then idx
                  else case map_of idx (Unmap oldIP) of
                    None \<Rightarrow> idx
                  | Some bucket \<Rightarrow>
                      let rest = removeAll h bucket in
                      if rest = [] then AList.delete (Unmap oldIP) idx else AList.update (Unmap oldIP) rest idx)
      in if IsValid newIP then AList.update (Unmap newIP) (List.insert h (gm_get idx1 (Unmap newIP) [])) idx1 else idx1)"

definition removeEgressIndex :: "Hash \<Rightarrow> (Addr, Hash list) gomap \<Rightarrow> (Addr, Hash list) gomap" where
  "removeEgressIndex h idx = filter (\<lambda>(ip, bucket). bucket \<noteq> []) (map (\<lambda>(ip, bucket). (ip, removeAll h bucket)) idx)"

definition EgressIPOwners :: "Addr \<Rightarrow> GlobalNodePool \<Rightarrow> Hash list" where
  "EgressIPOwners ip p = (if \<not> IsValid ip then [] else gm_get (gp_egressIndex p) (Unmap ip) [])"

definition NotifyEgressIPDirty :: "Lookups \<Rightarrow> int \<Rightarrow> Addr \<Rightarrow> GlobalNodePool \<Rightarrow> nat \<times> GlobalNodePool" where
  "NotifyEgressIPDirty lk now ip p =
     (let hashes = EgressIPOwners ip p in (length hashes, fold (notifyAllPlatformsDirty lk now) hashes p))"

definition SeedEgressIndex :: "Hash \<Rightarrow> Addr \<Rightarrow> GlobalNodePool \<Rightarrow> GlobalNodePool" where
  "SeedEgressIndex h ip p =
     (if \<not> IsValid ip then p else p\<lparr>gp_egressIndex := indexEgressIP h ZeroAddr ip (gp_egressIndex p)\<rparr>)"

section \<open>Nodes\<close>

definition setEntry :: "Hash \<Rightarrow> NodeEntry \<Rightarrow> GlobalNodePool \<Rightarrow> GlobalNodePool" where
  "setEntry h e p = p\<lparr>gp_nodes := AList.update h e (gp_nodes p)\<rparr>"

definition GetEntry :: "Hash \<Rightarrow> GlobalNodePool \<Rightarrow> NodeEntry option" where
  "GetEntry h p = map_of (gp_nodes p) h"

text \<open>The entry's outbound is built once; a failure is kept as its last error.\<close>

definition ensureOutbound :: "PoolConfig \<Rightarrow> NodeEntry \<Rightarrow> NodeEntry" where
  "ensureOutbound cfg e =
     (if ne_Outbound e then e
      else case pc_build cfg (ne_RawOptions e) of
        Some err \<Rightarrow> SetLastError err e
      | None \<Rightarrow> e\<lparr>ne_Outbound := True\<rparr>)"

definition EnsureNodeOutbound :: "PoolConfig \<Rightarrow> Hash \<Rightarrow> GlobalNodePool \<Rightarrow> GlobalNodePool" where
  "EnsureNodeOutbound cfg h p = (case GetEntry h p of None \<Rightarrow> p | Some e \<Rightarrow> setEntry h (ensureOutbound cfg e) p)"

definition AddNodeFromSub :: "PoolConfig \<Rightarrow> Lookups \<Rightarrow> int \<Rightarrow> Hash \<Rightarrow> string \<Rightarrow> string \<Rightarrow> GlobalNodePool \<Rightarrow> GlobalNodePool" where
  "AddNodeFromSub cfg lk now h raw subID p =
     (let p1 = (case GetEntry h p of
          Some e \<Rightarrow> setEntry h (AddSubscriptionID subID e) p
        | None \<Rightarrow>
            EnsureNodeOutbound cfg h
              (setEntry h (AddSubscriptionID subID ((NewNodeEntry cfg h raw)\<lparr>ne_CircuitOpenSince := now\<rparr>)) p))
      in notifyAllPlatformsDirty lk now h p1)"

definition RemoveNodeFromSub :: "Lookups \<Rightarrow> int \<Rightarrow> Hash \<Rightarrow> string \<Rightarrow> GlobalNodePool \<Rightarrow> GlobalNodePool" where
  "RemoveNodeFromSub lk now h subID p =
     (let p1 = (case GetEntry h p of
          None \<Rightarrow> p
        | Some e \<Rightarrow>
            (case RemoveSubscriptionID subID e of
               (True, _) \<Rightarrow> p\<lparr>gp_nodes := AList.delete h (gp_nodes p), gp_egressIndex := removeEgressIndex h (gp_egressIndex p)\<rparr>
             | (False, e') \<Rightarrow> setEntry h e' p))
      in notifyAllPlatformsDirty lk now h p1)"

definition LoadNodeFromBootstrap :: "NodeEntry \<Rightarrow> GlobalNodePool \<Rightarrow> GlobalNodePool" where
  "LoadNodeFromBootstrap e p = setEntry (ne_Hash e) e p"

definition IsNodeDisabled :: "Lookups \<Rightarrow> Hash \<Rightarrow> GlobalNodePool \<Rightarrow> bool" where
  "IsNodeDisabled lk h p = (case GetEntry h p of None \<Rightarrow> True | Some e \<Rightarrow> IsDisabledBySubscriptions (lk_sub lk) e)"

section \<open>Health\<close>

text \<open>A 32-bit counter.\<close>

definition wrap32 :: "int \<Rightarrow> int" where
  "wrap32 x = (x + 2147483648) mod 4294967296 - 2147483648"

text \<open>The entry after a result and whether its circuit opened or closed.\<close>

definition recordSuccess :: "NodeEntry \<Rightarrow> NodeEntry \<times> bool" where
  "recordSuccess e =
     (let e1 = e\<lparr>ne_FailureCount := 0, ne_CircuitOpenSince := 0\<rparr>;
          e2 = (if fst (GetProbeFailure e1) \<noteq> '''' then ClearProbeFailure e1 else e1)
      in (e2, ne_CircuitOpenSince e \<noteq> 0))"

definition recordFailure :: "int \<Rightarrow> string \<Rightarrow> string \<Rightarrow> int \<Rightarrow> NodeEntry \<Rightarrow> NodeEntry \<times> bool" where
  "recordFailure maxFailures cls detail now e =
     (let newCount = wrap32 (ne_FailureCount e + 1);
          opens = (maxFailures > 0 \<and> newCount \<ge> maxFailures \<and> ne_CircuitOpenSince e = 0);
          e1 = e\<lparr>ne_FailureCount := newCount, ne_CircuitOpenSince := (if opens then now else ne_CircuitOpenSince e)\<rparr>
      in (SetProbeFailure cls detail (Some now) now e1, opens))"

definition RecordOutcome :: "PoolConfig \<Rightarrow> Lookups \<Rightarrow> int \<Rightarrow> Hash \<Rightarrow> bool \<Rightarrow> string \<Rightarrow> string \<Rightarrow> GlobalNodePool \<Rightarrow> GlobalNodePool" where
  "RecordOutcome cfg lk now h success cls detail p =
     (case GetEntry h p of
        None \<Rightarrow> p
      | Some e \<Rightarrow>
          let (e', circuitStateChanged) =
                (if success then recordSuccess e else recordFailure (pc_maxConsecutiveFailures cfg) cls detail now e);
              p1 = setEntry h e' p
          in if circuitStateChanged then notifyAllPlatformsDirty lk now h p1 else p1)"

definition RecordResult :: "PoolConfig \<Rightarrow> Lookups \<Rightarrow> int \<Rightarrow> Hash \<Rightarrow> bool \<Rightarrow> GlobalNodePool \<Rightarrow> GlobalNodePool" where
  "RecordResult cfg lk now h success p = RecordOutcome cfg lk now h success '''' '''' p"

definition passiveCircuitBreakerDisabled :: "string \<Rightarrow> GlobalNodePool \<Rightarrow> bool" where
  "passiveCircuitBreakerDisabled platformID p =
     (if platformID = '''' then False
      else case map_of (gp_platformByID p) platformID of None \<Rightarrow> False | Some plat \<Rightarrow> pl_PassiveCircuitBreakerDisabled plat)"

definition RecordPassiveResult :: "PoolConfig \<Rightarrow> Lookups \<Rightarrow> int \<Rightarrow> string \<Rightarrow> Hash \<Rightarrow> bool \<Rightarrow> GlobalNodePool \<Rightarrow> GlobalNodePool" where
  "RecordPassiveResult cfg lk now platformID h success p =
     (if success \<or> \<not> passiveCircuitBreakerDisabled platformID p then RecordResult cfg lk now h success p else p)"

definition isAuthorityDomain :: "PoolConfig \<Rightarrow> string \<Rightarrow> bool" where
  "isAuthorityDomain cfg domain \<longleftrightarrow>
     domain \<noteq> '''' \<and> list_ex (\<lambda>authority. EqualFold (TrimSpace authority) domain) (pc_latencyAuthorities cfg)"

definition decayWindowOf :: "PoolConfig \<Rightarrow> int" where
  "decayWindowOf cfg = (if pc_latencyDecayWindow cfg \<le> 0 then 30000000000 else pc_latencyDecayWindow cfg)"

definition RecordLatency :: "PoolConfig \<Rightarrow> Lookups \<Rightarrow> int \<Rightarrow> Hash \<Rightarrow> string \<Rightarrow> int option \<Rightarrow> GlobalNodePool \<Rightarrow> GlobalNodePool" where
  "RecordLatency cfg lk now h rawTarget latency p =
     (case GetEntry h p of
        None \<Rightarrow> p
      | Some e \<Rightarrow>
          let domain = pc_ExtractDomain cfg rawTarget; isAuthority = isAuthorityDomain cfg domain;
              e1 = e\<lparr>ne_LastLatencyProbeAttempt := now,
                     ne_LastAuthorityLatencyProbeAttempt := (if isAuthority then now else ne_LastAuthorityLatencyProbeAttempt e)\<rparr>
          in (case (latency, ne_LatencyTable e1) of
                (Some l, Some t) \<Rightarrow>
                  if l \<le> 0 then setEntry h e1 p
                  else let ((wasEmpty, _), t') = UpdateClassified (pc_mix cfg) (pc_domainKey cfg) domain l (decayWindowOf cfg) isAuthority now t;
                           p1 = setEntry h (e1\<lparr>ne_LatencyTable := Some t'\<rparr>) p
                       in if wasEmpty then notifyAllPlatformsDirty lk now h p1 else p1
              | _ \<Rightarrow> setEntry h e1 p))"

text \<open>The address of a probe, if it found one, then the region.\<close>

definition updateIP :: "int \<Rightarrow> Addr option \<Rightarrow> NodeEntry \<Rightarrow> NodeEntry \<times> bool" where
  "updateIP now ip e =
     (case ip of
        None \<Rightarrow> (e, False)
      | Some a \<Rightarrow>
          let e1 = e\<lparr>ne_LastEgressUpdate := now\<rparr> in
          if GetEgressIP e \<noteq> a then (SetEgressIP a e1, True) else (e1, False))"

definition updateRegion :: "Addr option \<Rightarrow> string option \<Rightarrow> bool \<Rightarrow> NodeEntry \<Rightarrow> NodeEntry \<times> bool" where
  "updateRegion ip loc ipChanged e =
     (let oldRegion = GetEgressRegion e in
      case loc of
        Some l \<Rightarrow> let e1 = SetEgressRegion l e in (e1, oldRegion \<noteq> GetEgressRegion e1)
      | None \<Rightarrow>
          if ip = None \<or> \<not> ipChanged then (e, False)
          else if oldRegion \<noteq> '''' then (SetEgressRegion '''' e, True) else (e, False))"

definition UpdateNodeEgressIP :: "Lookups \<Rightarrow> int \<Rightarrow> Hash \<Rightarrow> Addr option \<Rightarrow> string option \<Rightarrow> GlobalNodePool \<Rightarrow> GlobalNodePool" where
  "UpdateNodeEgressIP lk now h ip loc p =
     (case GetEntry h p of
        None \<Rightarrow> p
      | Some e \<Rightarrow>
          let (e1, ipChanged) = updateIP now ip (e\<lparr>ne_LastEgressUpdateAttempt := now\<rparr>);
              idx = (case ip of Some a \<Rightarrow> if ipChanged then indexEgressIP h (GetEgressIP e) a (gp_egressIndex p) else gp_egressIndex p
                     | None \<Rightarrow> gp_egressIndex p);
              (e2, regionChanged) = updateRegion ip loc ipChanged e1;
              p1 = (setEntry h e2 p)\<lparr>gp_egressIndex := idx\<rparr>
          in if ipChanged \<or> regionChanged then notifyAllPlatformsDirty lk now h p1 else p1)"

section \<open>The index answers the nodes that have an address\<close>

lemma mapPlatforms_same [simp]:
  "gp_nodes (mapPlatforms f p) = gp_nodes p" "gp_egressIndex (mapPlatforms f p) = gp_egressIndex p"
  "gp_qualitySnapshot (mapPlatforms f p) = gp_qualitySnapshot p" "gp_platformByName (mapPlatforms f p) = gp_platformByName p"
  by (simp_all add: mapPlatforms_def)

lemma notify_same [simp]:
  "gp_nodes (notifyAllPlatformsDirty lk now h p) = gp_nodes p"
  "gp_egressIndex (notifyAllPlatformsDirty lk now h p) = gp_egressIndex p"
  "gp_qualitySnapshot (notifyAllPlatformsDirty lk now h p) = gp_qualitySnapshot p"
  "gp_platformByName (notifyAllPlatformsDirty lk now h p) = gp_platformByName p"
  by (simp_all add: notifyAllPlatformsDirty_def)

lemma rebuild_same [simp]:
  "gp_nodes (RebuildAllPlatforms lk now p) = gp_nodes p" "gp_egressIndex (RebuildAllPlatforms lk now p) = gp_egressIndex p"
  "gp_qualitySnapshot (RebuildAllPlatforms lk now p) = gp_qualitySnapshot p"
  "gp_platformByName (RebuildAllPlatforms lk now p) = gp_platformByName p"
  by (simp_all add: RebuildAllPlatforms_def)

lemma setEntry_same [simp]:
  "gp_egressIndex (setEntry h e p) = gp_egressIndex p" "gp_platformByID (setEntry h e p) = gp_platformByID p"
  "gp_platformByName (setEntry h e p) = gp_platformByName p" "gp_qualitySnapshot (setEntry h e p) = gp_qualitySnapshot p"
  "gp_nodes (setEntry h e p) = AList.update h e (gp_nodes p)"
  by (simp_all add: setEntry_def)

lemma GetEntry_setEntry: "GetEntry k (setEntry h e p) = (if k = h then Some e else GetEntry k p)"
  by (simp add: GetEntry_def gomap_simps)

definition indexed :: "(Addr, Hash list) gomap \<Rightarrow> Hash \<Rightarrow> Addr \<Rightarrow> bool" where
  "indexed idx h ip \<longleftrightarrow> h \<in> set (gm_get idx ip [])"

lemma indexed_index:
  "indexed (indexEgressIP h old new idx) k ip \<longleftrightarrow>
     (if k = h then IsValid new \<and> ip = Unmap new \<or> indexed idx h ip \<and> \<not> (IsValid old \<and> ip = Unmap old) else indexed idx k ip)"
proof -
  have 1: "indexed (case map_of idx a of None \<Rightarrow> idx | Some bucket \<Rightarrow>
      let rest = removeAll h bucket in if rest = [] then AList.delete a idx else AList.update a rest idx) k ip \<longleftrightarrow>
    (if k = h \<and> ip = a then False else indexed idx k ip)" for a k ip
    by (cases "map_of idx a") (auto simp: indexed_def Let_def gomap_simps gm_get_None gm_get_Some removeAll_filter_not_eq filter_empty_conv)
  show ?thesis
    unfolding indexEgressIP_def Let_def [of "if _ then _ else _"] using 1
    by (auto simp: indexed_def gomap_simps)
qed

lemma map_of_removeEgressIndex:
  "gm_wf idx \<Longrightarrow> map_of (removeEgressIndex h idx) ip =
     (case map_of idx ip of None \<Rightarrow> None | Some bucket \<Rightarrow> if removeAll h bucket = [] then None else Some (removeAll h bucket))"
proof -
  assume "gm_wf idx"
  then have "gm_wf (map (\<lambda>(ip, bucket). (ip, removeAll h bucket)) idx)"
    by (simp add: comp_def split_def)
  then show ?thesis
    unfolding removeEgressIndex_def by (cases "map_of idx ip") (simp_all add: map_of_gm_filter map_of_map)
qed

lemma indexed_remove: "gm_wf idx \<Longrightarrow> indexed (removeEgressIndex h idx) k ip \<longleftrightarrow> k \<noteq> h \<and> indexed idx k ip"
  by (cases "map_of idx ip")
    (auto simp: indexed_def gm_get_def map_of_removeEgressIndex removeAll_filter_not_eq filter_empty_conv split: if_splits)

lemma index_wf: "gm_wf idx \<Longrightarrow> gm_wf (indexEgressIP h old new idx)" "gm_wf idx \<Longrightarrow> gm_wf (removeEgressIndex h idx)"
  by (auto simp: indexEgressIP_def removeEgressIndex_def Let_def filter_map comp_def split_def split: option.splits)

text \<open>
  The operations of a running pool. \<open>PRestore\<close> is what start-up does for one node: the entry, which has no
  address yet, and the address and region of its last observation.
\<close>

datatype pool_op =
    PAdd Hash string string
  | PRemove Hash string
  | PRestore NodeEntry "Addr option" string
  | PEnsure Hash
  | POutcome Hash bool string string
  | PPassive string Hash bool
  | PLatency Hash string "int option"
  | PEgress Hash "Addr option" "string option"
  | PRegister Platform
  | PUnregister string
  | PReplace Platform
  | PSnapshot "QualitySnapshotReader option"
  | PRebuild

definition restoreEgress :: "Hash \<Rightarrow> Addr option \<Rightarrow> string \<Rightarrow> GlobalNodePool \<Rightarrow> GlobalNodePool" where
  "restoreEgress h ip region p =
     (case GetEntry h p of
        None \<Rightarrow> p
      | Some e \<Rightarrow>
          (case ip of
             None \<Rightarrow> setEntry h (SetEgressRegion region e) p
           | Some a \<Rightarrow> SeedEgressIndex h a (setEntry h (SetEgressRegion region (SetEgressIP a e)) p)))"

fun pool_step :: "PoolConfig \<Rightarrow> Lookups \<times> int \<times> pool_op \<Rightarrow> GlobalNodePool \<Rightarrow> GlobalNodePool" where
  "pool_step cfg (lk, now, PAdd h raw subID) p = AddNodeFromSub cfg lk now h raw subID p"
| "pool_step cfg (lk, now, PRemove h subID) p = RemoveNodeFromSub lk now h subID p"
| "pool_step cfg (lk, now, PRestore e ip region) p =
     (if GetEntry (ne_Hash e) p = None \<and> ne_egressIP e = None
      then restoreEgress (ne_Hash e) ip region (LoadNodeFromBootstrap e p) else p)"
| "pool_step cfg (lk, now, PEnsure h) p = EnsureNodeOutbound cfg h p"
| "pool_step cfg (lk, now, POutcome h success cls detail) p = RecordOutcome cfg lk now h success cls detail p"
| "pool_step cfg (lk, now, PPassive platformID h success) p = RecordPassiveResult cfg lk now platformID h success p"
| "pool_step cfg (lk, now, PLatency h target latency) p = RecordLatency cfg lk now h target latency p"
| "pool_step cfg (lk, now, PEgress h ip loc) p = UpdateNodeEgressIP lk now h ip loc p"
| "pool_step cfg (lk, now, PRegister plat) p = RegisterPlatform (RebuildPlatform lk now p plat) p"
| "pool_step cfg (lk, now, PUnregister i) p = UnregisterPlatform i p"
| "pool_step cfg (lk, now, PReplace plat) p = snd (ReplacePlatform lk now plat p)"
| "pool_step cfg (lk, now, PSnapshot snap) p = SetQualitySnapshot lk now snap p"
| "pool_step cfg (lk, now, PRebuild) p = RebuildAllPlatforms lk now p"

definition owns :: "GlobalNodePool \<Rightarrow> Addr \<Rightarrow> Hash \<Rightarrow> bool" where
  "owns p ip h \<longleftrightarrow> (\<exists>e. GetEntry h p = Some e \<and> IsValid (GetEgressIP e) \<and> Unmap (GetEgressIP e) = ip)"

definition index_inv :: "GlobalNodePool \<Rightarrow> bool" where
  "index_inv p \<longleftrightarrow> gm_wf (gp_nodes p) \<and> gm_wf (gp_egressIndex p) \<and> (\<forall>h ip. indexed (gp_egressIndex p) h ip \<longleftrightarrow> owns p ip h)"

lemma index_inv_cong:
  "gp_nodes p' = gp_nodes p \<Longrightarrow> gp_egressIndex p' = gp_egressIndex p \<Longrightarrow> index_inv p' = index_inv p"
  by (simp add: index_inv_def owns_def GetEntry_def)

lemma index_inv_notify [simp]: "index_inv (notifyAllPlatformsDirty lk now h p) = index_inv p"
  by (rule index_inv_cong) simp_all

lemma index_inv_rebuild [simp]: "index_inv (RebuildAllPlatforms lk now p) = index_inv p"
  by (rule index_inv_cong) simp_all

text \<open>A change of an entry that keeps its address, a new entry without one, and a new address.\<close>

lemma index_inv_setEntry:
  assumes "index_inv p" "case GetEntry h p of None \<Rightarrow> ZeroAddr = GetEgressIP e | Some e0 \<Rightarrow> GetEgressIP e0 = GetEgressIP e"
  shows "index_inv (setEntry h e p)"
  using assms by (auto simp: index_inv_def owns_def GetEntry_setEntry split: option.splits if_splits)

lemma index_inv_address:
  assumes "index_inv p" "GetEntry h p = Some e" "GetEgressIP e' = a"
  shows "index_inv ((setEntry h e' p)\<lparr>gp_egressIndex := indexEgressIP h (GetEgressIP e) a (gp_egressIndex p)\<rparr>)"
proof -
  let ?p = "(setEntry h e' p)\<lparr>gp_egressIndex := indexEgressIP h (GetEgressIP e) a (gp_egressIndex p)\<rparr>"
  have get: "GetEntry k ?p = (if k = h then Some e' else GetEntry k p)" for k
    by (simp add: GetEntry_def gomap_simps)
  have "indexed (gp_egressIndex p) k ip \<longleftrightarrow> owns p ip k" for k ip
    using assms(1) by (simp add: index_inv_def)
  then have "indexed (gp_egressIndex ?p) k ip \<longleftrightarrow> owns ?p ip k" for k ip
    using assms(2,3) by (auto simp: indexed_index owns_def get)
  then show ?thesis
    using assms(1) index_wf(1) by (simp add: index_inv_def)
qed

lemma index_inv_delete:
  assumes "index_inv p"
  shows "index_inv (p\<lparr>gp_nodes := AList.delete h (gp_nodes p), gp_egressIndex := removeEgressIndex h (gp_egressIndex p)\<rparr>)"
  using assms index_wf(2) by (auto simp: index_inv_def indexed_remove owns_def GetEntry_def gomap_simps)

lemma egress_frame [simp]:
  "GetEgressIP (AddSubscriptionID subID e) = GetEgressIP e" "GetEgressIP (ensureOutbound cfg e) = GetEgressIP e"
  "GetEgressIP (SetEgressRegion r e) = GetEgressIP e" "GetEgressIP (SetEgressIP a e) = a"
  "GetEgressIP (NewNodeEntry cfg h raw) = ZeroAddr"
  "GetEgressIP (fst (recordSuccess e)) = GetEgressIP e" "GetEgressIP (fst (recordFailure m cls d now e)) = GetEgressIP e"
  by (auto simp: GetEgressIP_def AddSubscriptionID_def ensureOutbound_def SetEgressRegion_def SetEgressIP_def NewNodeEntry_def
      recordSuccess_def recordFailure_def SetLastError_def SetProbeFailure_def ClearProbeFailure_def Let_def split: option.splits)

lemma GetEgressIP_update [simp]:
  "GetEgressIP (e\<lparr>ne_subscriptionIDs := a\<rparr>) = GetEgressIP e" "GetEgressIP (e\<lparr>ne_CircuitOpenSince := b\<rparr>) = GetEgressIP e"
  "GetEgressIP (e\<lparr>ne_LastEgressUpdate := b\<rparr>) = GetEgressIP e" "GetEgressIP (e\<lparr>ne_LastEgressUpdateAttempt := b\<rparr>) = GetEgressIP e"
  "GetEgressIP (e\<lparr>ne_LastLatencyProbeAttempt := b\<rparr>) = GetEgressIP e"
  "GetEgressIP (e\<lparr>ne_LastAuthorityLatencyProbeAttempt := b\<rparr>) = GetEgressIP e" "GetEgressIP (e\<lparr>ne_LatencyTable := t\<rparr>) = GetEgressIP e"
  by (simp_all add: GetEgressIP_def)

lemma index_inv_Add: "index_inv p \<Longrightarrow> index_inv (AddNodeFromSub cfg lk now h raw subID p)"
  by (cases "GetEntry h p")
    (auto simp: AddNodeFromSub_def EnsureNodeOutbound_def GetEntry_setEntry Let_def intro!: index_inv_setEntry)

lemma index_inv_Remove: "index_inv p \<Longrightarrow> index_inv (RemoveNodeFromSub lk now h subID p)"
  by (cases "GetEntry h p")
    (auto simp: RemoveNodeFromSub_def RemoveSubscriptionID_def Let_def intro!: index_inv_setEntry index_inv_delete split: bool.splits)

lemma index_inv_Outcome: "index_inv p \<Longrightarrow> index_inv (RecordOutcome cfg lk now h success cls detail p)"
proof (cases "GetEntry h p")
  case (Some e)
  let ?r = "if success then recordSuccess e else recordFailure (pc_maxConsecutiveFailures cfg) cls detail now e"
  assume "index_inv p"
  then have "index_inv (setEntry h (fst ?r) p)"
    by (intro index_inv_setEntry) (auto simp: Some)
  then show ?thesis
    by (cases ?r) (auto simp: RecordOutcome_def Some Let_def)
qed (simp add: RecordOutcome_def)

lemma index_inv_Latency: "index_inv p \<Longrightarrow> index_inv (RecordLatency cfg lk now h target latency p)"
  by (cases "GetEntry h p")
    (auto simp: RecordLatency_def Let_def intro!: index_inv_setEntry split: option.splits prod.splits)

lemma updateIP_cases:
  assumes "updateIP now ip e = (e', changed)"
  shows "if changed then ip = Some (GetEgressIP e') \<and> GetEgressIP e' \<noteq> GetEgressIP e else GetEgressIP e' = GetEgressIP e"
  using assms by (auto simp: updateIP_def Let_def split: option.splits if_splits)

lemma updateRegion_egress: "updateRegion ip loc changed e = (e', r) \<Longrightarrow> GetEgressIP e' = GetEgressIP e"
  by (auto simp: updateRegion_def Let_def split: option.splits if_splits)

text \<open>An egress probe as one change of the entry and the index, with the notification it makes.\<close>

lemma UpdateNodeEgressIP_cases:
  assumes "GetEntry h p = Some e"
  obtains e1 e2 ipChanged regionChanged where
    "updateIP now ip (e\<lparr>ne_LastEgressUpdateAttempt := now\<rparr>) = (e1, ipChanged)" "updateRegion ip loc ipChanged e1 = (e2, regionChanged)"
    "UpdateNodeEgressIP lk now h ip loc p =
      (let p1 = (if ipChanged then (setEntry h e2 p)\<lparr>gp_egressIndex := indexEgressIP h (GetEgressIP e) (GetEgressIP e1) (gp_egressIndex p)\<rparr>
                 else setEntry h e2 p)
       in if ipChanged \<or> regionChanged then notifyAllPlatformsDirty lk now h p1 else p1)"
proof -
  obtain e1 ipChanged where 1: "updateIP now ip (e\<lparr>ne_LastEgressUpdateAttempt := now\<rparr>) = (e1, ipChanged)"
    by fastforce
  obtain e2 regionChanged where 2: "updateRegion ip loc ipChanged e1 = (e2, regionChanged)"
    by fastforce
  have idx: "(case ip of Some a \<Rightarrow> if ipChanged then indexEgressIP h (GetEgressIP e) a (gp_egressIndex p) else gp_egressIndex p
       | None \<Rightarrow> gp_egressIndex p) =
     (if ipChanged then indexEgressIP h (GetEgressIP e) (GetEgressIP e1) (gp_egressIndex p) else gp_egressIndex p)"
    using updateIP_cases [OF 1] by (cases ipChanged) (auto split: option.splits)
  have same: "(setEntry h e2 p)\<lparr>gp_egressIndex := gp_egressIndex p\<rparr> = setEntry h e2 p"
    by (simp add: setEntry_def)
  have "UpdateNodeEgressIP lk now h ip loc p =
      (let p1 = (if ipChanged then (setEntry h e2 p)\<lparr>gp_egressIndex := indexEgressIP h (GetEgressIP e) (GetEgressIP e1) (gp_egressIndex p)\<rparr>
                 else setEntry h e2 p)
       in if ipChanged \<or> regionChanged then notifyAllPlatformsDirty lk now h p1 else p1)"
    unfolding UpdateNodeEgressIP_def assms option.case 1 Let_def prod.case 2 idx by (cases ipChanged) (simp_all add: same)
  then show thesis
    using 1 2 that by blast
qed

lemma index_inv_Egress:
  assumes "index_inv p"
  shows "index_inv (UpdateNodeEgressIP lk now h ip loc p)"
proof (cases "GetEntry h p")
  case (Some e)
  then obtain e1 e2 ipChanged regionChanged where
    1: "updateIP now ip (e\<lparr>ne_LastEgressUpdateAttempt := now\<rparr>) = (e1, ipChanged)" and 2: "updateRegion ip loc ipChanged e1 = (e2, regionChanged)"
    and eq: "UpdateNodeEgressIP lk now h ip loc p =
      (let p1 = (if ipChanged then (setEntry h e2 p)\<lparr>gp_egressIndex := indexEgressIP h (GetEgressIP e) (GetEgressIP e1) (gp_egressIndex p)\<rparr>
                 else setEntry h e2 p)
       in if ipChanged \<or> regionChanged then notifyAllPlatformsDirty lk now h p1 else p1)"
    by (rule UpdateNodeEgressIP_cases)
  have e2: "GetEgressIP e2 = GetEgressIP e1"
    by (rule updateRegion_egress [OF 2])
  have "index_inv ((setEntry h e2 p)\<lparr>gp_egressIndex := indexEgressIP h (GetEgressIP e) (GetEgressIP e1) (gp_egressIndex p)\<rparr>)"
    by (rule index_inv_address [OF assms Some e2])
  moreover have "index_inv (setEntry h e2 p)" if "\<not> ipChanged"
    using that updateIP_cases [OF 1] assms by (intro index_inv_setEntry) (simp_all add: Some e2)
  ultimately show ?thesis
    unfolding eq by (auto simp: Let_def)
qed (simp add: UpdateNodeEgressIP_def assms)

lemma index_inv_Restore:
  assumes "index_inv p" "GetEntry (ne_Hash e) p = None" "ne_egressIP e = None"
  shows "index_inv (restoreEgress (ne_Hash e) ip region (LoadNodeFromBootstrap e p))"
proof -
  have zero: "GetEgressIP e = ZeroAddr"
    using assms(3) by (simp add: GetEgressIP_def)
  have loaded: "index_inv (LoadNodeFromBootstrap e p)" "GetEntry (ne_Hash e) (LoadNodeFromBootstrap e p) = Some e"
    using assms zero by (simp_all add: LoadNodeFromBootstrap_def GetEntry_setEntry index_inv_setEntry)
  show ?thesis
  proof (cases ip)
    case None
    then show ?thesis
      using loaded by (simp add: restoreEgress_def index_inv_setEntry)
  next
    case (Some a)
    let ?e = "SetEgressRegion region (SetEgressIP a e)"
    have "index_inv ((setEntry (ne_Hash e) ?e (LoadNodeFromBootstrap e p))\<lparr>gp_egressIndex :=
        indexEgressIP (ne_Hash e) ZeroAddr a (gp_egressIndex (LoadNodeFromBootstrap e p))\<rparr>)"
      using index_inv_address [OF loaded, of ?e a] unfolding zero by simp
    moreover have "index_inv (setEntry (ne_Hash e) ?e (LoadNodeFromBootstrap e p))" if "\<not> IsValid a"
      using that loaded zero by (intro index_inv_setEntry) (auto simp: IsValid_def)
    ultimately show ?thesis
      using loaded(2) Some by (auto simp: restoreEgress_def SeedEgressIndex_def)
  qed
qed

lemma index_inv_platforms:
  "index_inv (RegisterPlatform plat p) = index_inv p" "index_inv (UnregisterPlatform i p) = index_inv p"
  "index_inv (snd (ReplacePlatform lk now plat p)) = index_inv p" "index_inv (SetQualitySnapshot lk now snap p) = index_inv p"
  by (rule index_inv_cong;
      simp add: RegisterPlatform_def UnregisterPlatform_def ReplacePlatform_def SetQualitySnapshot_def Let_def split: option.splits)+

interpretation pool_index: state_machine "pool_step cfg" index_inv for cfg
proof (unfold_locales, goal_cases)
  case (1 p op)
  obtain lk now act where op: "op = (lk, now, act)"
    by (cases op)
  show ?case
  proof (cases act)
    case PRestore
    then show ?thesis
      using 1 index_inv_Restore by (simp add: op)
  next
    case PEnsure
    then show ?thesis
      using 1 by (auto simp: op EnsureNodeOutbound_def intro!: index_inv_setEntry split: option.splits)
  next
    case PPassive
    then show ?thesis
      using 1 by (simp add: op RecordPassiveResult_def RecordResult_def index_inv_Outcome)
  qed (simp_all add: op 1 index_inv_Add index_inv_Remove index_inv_Outcome index_inv_Latency index_inv_Egress index_inv_platforms)
qed

text \<open>
  C25. The reverse index of egress addresses is exact: after every sequence of pool operations, asking for the
  owners of an address answers exactly the nodes of the pool whose last observed address is that one,
  an IPv4-mapped form counting as the IPv4 address. A removed node is in no bucket.
\<close>
theorem egress_owners_exact:
  "set (EgressIPOwners ip (fold (pool_step cfg) ops NewGlobalNodePool)) =
     {h. \<exists>e. GetEntry h (fold (pool_step cfg) ops NewGlobalNodePool) = Some e \<and> IsValid ip \<and> IsValid (GetEgressIP e) \<and>
          Unmap (GetEgressIP e) = Unmap ip}"
proof -
  let ?p = "fold (pool_step cfg) ops NewGlobalNodePool"
  have "index_inv NewGlobalNodePool"
    by (simp add: index_inv_def NewGlobalNodePool_def indexed_def owns_def GetEntry_def)
  then have inv: "index_inv ?p"
    by (rule pool_index.inv_run)
  have "h \<in> set (EgressIPOwners ip ?p) \<longleftrightarrow> IsValid ip \<and> owns ?p (Unmap ip) h" for h
    using inv by (auto simp: EgressIPOwners_def index_inv_def indexed_def)
  then show ?thesis
    by (auto simp: owns_def)
qed

section \<open>The circuit breaker\<close>

text \<open>The results of one node, oldest first, and its failures since the last success.\<close>

type_synonym result = "Lookups \<times> int \<times> bool \<times> string \<times> string"

fun record_result :: "PoolConfig \<Rightarrow> Hash \<Rightarrow> result \<Rightarrow> GlobalNodePool \<Rightarrow> GlobalNodePool" where
  "record_result cfg h (lk, now, success, cls, detail) p = RecordOutcome cfg lk now h success cls detail p"

fun succeeded :: "result \<Rightarrow> bool" where
  "succeeded (_, _, success, _, _) = success"

fun result_time :: "result \<Rightarrow> int" where
  "result_time (_, now, _, _, _) = now"

definition streak :: "result list \<Rightarrow> int" where
  "streak rs = int (length (takeWhile (\<lambda>r. \<not> succeeded r) (rev rs)))"

lemma streak_simps: "streak [] = 0" "streak (rs @ [r]) = (if succeeded r then 0 else streak rs + 1)"
  by (simp_all add: streak_def)

lemma streak_bounds: "0 \<le> streak rs" "streak rs \<le> int (length rs)"
  using length_takeWhile_le [of "\<lambda>r. \<not> succeeded r" "rev rs"] by (simp_all add: streak_def)

lemma GetEntry_notify [simp]: "GetEntry h (notifyAllPlatformsDirty lk now k p) = GetEntry h p"
  by (simp add: GetEntry_def)

lemma GetEntry_Outcome:
  "GetEntry h p = Some e \<Longrightarrow> GetEntry h (RecordOutcome cfg lk now h success cls detail p) =
     Some (fst (if success then recordSuccess e else recordFailure (pc_maxConsecutiveFailures cfg) cls detail now e))"
  by (auto simp: RecordOutcome_def GetEntry_setEntry Let_def split: prod.splits)

lemma record_fields:
  "ne_FailureCount (fst (recordSuccess e)) = 0" "ne_CircuitOpenSince (fst (recordSuccess e)) = 0"
  "ne_FailureCount (fst (recordFailure m cls d now e)) = wrap32 (ne_FailureCount e + 1)"
  "ne_CircuitOpenSince (fst (recordFailure m cls d now e)) =
     (if m > 0 \<and> wrap32 (ne_FailureCount e + 1) \<ge> m \<and> ne_CircuitOpenSince e = 0 then now else ne_CircuitOpenSince e)"
  by (auto simp: recordSuccess_def recordFailure_def SetProbeFailure_def ClearProbeFailure_def Let_def)

text \<open>
  C26. The circuit breaker counts consecutive failures: after any results, the failure count of a node is the
  length of its current run of failures, and its circuit is open exactly if that run has reached the
  limit or if it was open at the start, as it is for a new node, and no result since was a success.
\<close>
theorem circuit_open_iff_streak:
  assumes "GetEntry h p = Some e" "ne_FailureCount e = 0" "\<forall>r\<in>set rs. result_time r \<noteq> 0" "length rs < 2147483648"
    and "0 < pc_maxConsecutiveFailures cfg"
  shows "\<exists>e'. GetEntry h (fold (record_result cfg h) rs p) = Some e' \<and> ne_FailureCount e' = streak rs \<and>
    (IsCircuitOpen e' \<longleftrightarrow> streak rs \<ge> pc_maxConsecutiveFailures cfg \<or> IsCircuitOpen e \<and> (\<forall>r\<in>set rs. \<not> succeeded r))"
  using assms(3,4)
proof (induction rs rule: rev_induct)
  case Nil
  then show ?case
    using assms by (simp add: streak_simps)
next
  case (snoc r rs)
  then obtain e1 where e1: "GetEntry h (fold (record_result cfg h) rs p) = Some e1" "ne_FailureCount e1 = streak rs"
    "IsCircuitOpen e1 \<longleftrightarrow> streak rs \<ge> pc_maxConsecutiveFailures cfg \<or> IsCircuitOpen e \<and> (\<forall>r\<in>set rs. \<not> succeeded r)"
    by auto
  obtain lk now success cls detail where r: "r = (lk, now, success, cls, detail)"
    by (cases r)
  have "int (length rs) + 1 < 2147483648"
    using snoc.prems(2) by simp
  then have wrap: "wrap32 (streak rs + 1) = streak rs + 1"
    using streak_bounds [of rs] by (simp add: wrap32_def)
  show ?case
    using GetEntry_Outcome [OF e1(1), of cfg lk now success cls detail] e1(2,3) snoc.prems(1) assms(5) wrap streak_bounds(1) [of rs]
    by (auto simp: r streak_simps record_fields IsCircuitOpen_def split: if_splits)
qed

definition exampleConfig :: PoolConfig where
  "exampleConfig = \<lparr>pc_maxLatencyTableEntries = 4, pc_maxConsecutiveFailures = 2, pc_latencyDecayWindow = 0,
     pc_latencyAuthorities = [], pc_doc = (\<lambda>_. Some (''singbox'', ''VLESS'')), pc_type = (\<lambda>_. None), pc_build = (\<lambda>_. None),
     pc_ExtractDomain = id, pc_mix = (\<lambda>old new _ _. (old + new) div 2), pc_domainKey = length\<rparr>"

definition examplePool :: GlobalNodePool where
  "examplePool = AddNodeFromSub exampleConfig exampleLookups 5 exampleHash ''{}'' ''s'' NewGlobalNodePool"

text \<open>A success and two failures open the circuit at a limit of two.\<close>

theorem circuit_open_iff_streak_witness:
  "let rs = [(exampleLookups, 6, True, '''', ''''), (exampleLookups, 7, False, '''', ''''), (exampleLookups, 8, False, '''', '''')]
   in \<exists>e'. GetEntry exampleHash (fold (record_result exampleConfig exampleHash) rs examplePool) = Some e' \<and> IsCircuitOpen e'"
proof -
  let ?rs = "[(exampleLookups, 6, True, '''', ''''), (exampleLookups, 7, False, '''', ''''), (exampleLookups, 8, False, '''', '''')] :: result list"
  have "(case GetEntry exampleHash examplePool of None \<Rightarrow> False | Some e \<Rightarrow> ne_FailureCount e = 0)"
    by code_simp
  then obtain e where e: "GetEntry exampleHash examplePool = Some e" "ne_FailureCount e = 0"
    by (auto split: option.splits)
  have "0 < pc_maxConsecutiveFailures exampleConfig" "streak ?rs \<ge> pc_maxConsecutiveFailures exampleConfig"
    by (simp_all add: exampleConfig_def streak_def)
  then show ?thesis
    using circuit_open_iff_streak [OF e, of ?rs exampleConfig] unfolding Let_def by auto
qed

end
