(* ===== verification/Pool_Views.thy ===== *)
theory Pool_Views
  imports Node_Pool
begin

text \<open>
  How the views of the platforms follow the nodes of the pool. \<open>behind lk D p\<close> says that every view
  holds exactly the nodes its platform would load from the pool, except perhaps at the hashes in \<open>D\<close>;
  each lemma gives what an operation of \<open>internal/topology/pool.go\<close> does to \<open>D\<close>. A notification takes its
  node out of \<open>D\<close>, a rebuild empties it, and an operation on a node that a platform could notice notifies.
\<close>

section \<open>How far the views are behind the nodes\<close>

text \<open>
  A platform without a quality policy decides on a node without looking at the clock. What it reads of an
  entry is listed in \<open>gates_equal\<close>.
\<close>

definition timeless :: "Platform \<Rightarrow> bool" where
  "timeless plat \<longleftrightarrow> PolicyIsEmpty (c_QualityPolicy (pl_Criteria plat))"

definition gates_equal :: "NodeEntry \<Rightarrow> NodeEntry \<Rightarrow> bool" where
  "gates_equal e e' \<longleftrightarrow> ne_Hash e = ne_Hash e' \<and> ne_subscriptionIDs e = ne_subscriptionIDs e' \<and> ne_Protocol e = ne_Protocol e' \<and>
     IsCircuitOpen e = IsCircuitOpen e' \<and> ne_Outbound e = ne_Outbound e' \<and> GetEgressIP e = GetEgressIP e' \<and>
     GetEgressRegion e = GetEgressRegion e' \<and> HasLatency e = HasLatency e'"

lemma evaluateNode_cong:
  assumes "timeless plat" "gates_equal e e'"
  shows "evaluateNode plat e lk now = evaluateNode plat e' lk now'"
proof -
  have eqs: "ne_Hash e = ne_Hash e'" "ne_subscriptionIDs e = ne_subscriptionIDs e'" "ne_Protocol e = ne_Protocol e'"
    "IsCircuitOpen e = IsCircuitOpen e'" "ne_Outbound e = ne_Outbound e'" "GetEgressIP e = GetEgressIP e'"
    "GetEgressRegion e = GetEgressRegion e'" "HasLatency e = HasLatency e'"
    using assms(2) by (auto simp: gates_equal_def)
  have "IsDisabledBySubscriptions s e = IsDisabledBySubscriptions s e'" "MatchTagFilter f s e = MatchTagFilter f s e'"
    "referencedBySubscription e w s = referencedBySubscription e' w s" for s f w
    unfolding IsDisabledBySubscriptions_def HasEnabledSubscription_def MatchTagFilter_def referencedBySubscription_def eqs(1,2) by simp_all
  moreover have "GetRegion g e = GetRegion g e'" "assessmentOf e sn = assessmentOf e' sn" "IsHealthy e = IsHealthy e'" for g sn
    unfolding GetRegion_def assessmentOf_def IsHealthy_def HasOutbound_def eqs(4-7) by simp_all
  moreover have "qualityVerdict (pl_Criteria plat) x lk t = None" for x t
    using assms(1) by (simp add: timeless_def qualityVerdict_def)
  ultimately show ?thesis
    unfolding evaluateNode_def MatchNodeCriteria_def matchSelection_def by (simp only: eqs(3,6,8))
qed

lemma gates_equal_refl [simp]: "gates_equal e e"
  by (simp add: gates_equal_def)

definition routable :: "Lookups \<Rightarrow> GlobalNodePool \<Rightarrow> Platform \<Rightarrow> Hash \<Rightarrow> bool" where
  "routable lk p plat h \<longleftrightarrow> (case GetEntry h p of None \<Rightarrow> False | Some e \<Rightarrow> evaluateNode plat e (poolLookups lk p) 0)"

text \<open>The views agree with the nodes, except for the hashes in \<open>D\<close>.\<close>

definition behind :: "Lookups \<Rightarrow> Hash set \<Rightarrow> GlobalNodePool \<Rightarrow> bool" where
  "behind lk D p \<longleftrightarrow> (\<forall>(i, plat)\<in>set (gp_platformByID p). timeless plat \<and> view_inv (pl_view plat) \<and>
     (\<forall>h. h \<notin> D \<longrightarrow> (h \<in> set (viewRange (pl_view plat)) \<longleftrightarrow> routable lk p plat h)))"

lemma behindD:
  assumes "behind lk D p" "(i, plat) \<in> set (gp_platformByID p)"
  shows "timeless plat" "view_inv (pl_view plat)" "h \<notin> D \<Longrightarrow> h \<in> set (viewRange (pl_view plat)) \<longleftrightarrow> routable lk p plat h"
  using assms by (auto simp: behind_def)

lemma behind_mono: "behind lk D p \<Longrightarrow> D \<subseteq> D' \<Longrightarrow> behind lk D' p"
  by (fastforce simp: behind_def)

lemma behind_change:
  assumes "behind lk D p" "gp_platformByID p' = gp_platformByID p" "D \<subseteq> D'"
    and "\<And>plat h. timeless plat \<Longrightarrow> h \<notin> D' \<Longrightarrow> routable lk' p' plat h = routable lk p plat h"
  shows "behind lk' D' p'"
  using assms unfolding behind_def by fastforce

lemma pl_view_rest [simp]:
  "timeless (plat\<lparr>pl_view := v\<rparr>) = timeless plat" "routable lk p (plat\<lparr>pl_view := v\<rparr>) = routable lk p plat"
  by (auto simp: timeless_def routable_def evaluateNode_view split: option.splits)

lemma NotifyDirty_rest [simp]:
  "timeless (NotifyDirty h pool lk now plat) = timeless plat" "routable lk' p (NotifyDirty h pool lk now plat) = routable lk' p plat"
  by (auto simp: NotifyDirty_def split: option.splits)

lemma routable_loads: "timeless plat \<Longrightarrow> h \<in> loads plat (gp_nodes p) (poolLookups lk p) now \<longleftrightarrow> routable lk p plat h"
  using evaluateNode_cong [of plat _ _ "poolLookups lk p" now 0] by (auto simp: loads_def routable_def GetEntry_def split: option.splits)

lemma routable_cong:
  "gp_nodes p' = gp_nodes p \<Longrightarrow> gp_qualitySnapshot p' = gp_qualitySnapshot p \<Longrightarrow> routable lk p' = routable lk p"
proof -
  assume "gp_nodes p' = gp_nodes p" "gp_qualitySnapshot p' = gp_qualitySnapshot p"
  then have same: "poolLookups lk p' = poolLookups lk p" "GetEntry h p' = GetEntry h p" for h
    by (simp_all add: poolLookups_def GetEntry_def)
  then show ?thesis
    by (intro ext) (simp only: routable_def same)
qed

lemma routable_notify [simp]: "routable lk (notifyAllPlatformsDirty lk' now h p) = routable lk p"
  by (rule routable_cong) simp_all

text \<open>A notification brings the views up to date at its node.\<close>

lemma behind_notify:
  assumes "behind lk D p"
  shows "behind lk (D - {h}) (notifyAllPlatformsDirty lk now h p)"
  unfolding behind_def
proof (intro ballI, clarify, intro conjI)
  fix i plat
  assume "(i, plat) \<in> set (gp_platformByID (notifyAllPlatformsDirty lk now h p))"
  then obtain plat0 where old: "(i, plat0) \<in> set (gp_platformByID p)" and plat: "plat = NotifyDirty h (gp_nodes p) (poolLookups lk p) now plat0"
    by (auto simp: notifyAllPlatformsDirty_def mapPlatforms_def)
  note D = behindD [OF assms old]
  note view = NotifyDirty_view [OF D(2), of h "gp_nodes p" "poolLookups lk p" now]
  show "timeless plat" "view_inv (pl_view plat)"
    using D(1) view by (simp_all add: plat)
  show "\<forall>k. k \<notin> D - {h} \<longrightarrow> (k \<in> set (viewRange (pl_view plat)) \<longleftrightarrow> routable lk (notifyAllPlatformsDirty lk now h p) plat k)"
    using D(3) view routable_loads [OF D(1), of h p lk now] by (auto simp: plat)
qed

text \<open>A rebuild brings them up to date everywhere.\<close>

lemma behind_rebuild:
  assumes "gm_wf (gp_nodes p)" "\<forall>(i, plat)\<in>set (gp_platformByID p). timeless plat"
  shows "behind lk {} (RebuildAllPlatforms lk now p)"
  unfolding behind_def
proof (intro ballI, clarify, intro conjI)
  fix i plat
  assume "(i, plat) \<in> set (gp_platformByID (RebuildAllPlatforms lk now p))"
  then obtain plat0 where old: "(i, plat0) \<in> set (gp_platformByID p)" and plat: "plat = RebuildPlatform lk now p plat0"
    by (auto simp: RebuildAllPlatforms_def mapPlatforms_def)
  have t0: "timeless plat0"
    using assms(2) old by auto
  note view = FullRebuild_view [OF assms(1), of "poolLookups lk p" now plat0]
  have same: "timeless plat = timeless plat0" "routable lk p plat = routable lk p plat0"
    by (simp_all add: plat RebuildPlatform_def FullRebuild_def)
  show "timeless plat" "view_inv (pl_view plat)"
    using t0 same view by (simp_all add: plat RebuildPlatform_def)
  have "routable lk (RebuildAllPlatforms lk now p) = routable lk p"
    by (rule routable_cong) simp_all
  then show "\<forall>k. k \<notin> {} \<longrightarrow> (k \<in> set (viewRange (pl_view plat)) \<longleftrightarrow> routable lk (RebuildAllPlatforms lk now p) plat k)"
    using view routable_loads [OF t0, of _ p lk now] same by (simp add: plat RebuildPlatform_def)
qed

text \<open>A change at one node, one that no platform can see, and the operations built from them.\<close>

lemma behind_at:
  assumes "behind lk D p" "gp_platformByID p' = gp_platformByID p" "gp_qualitySnapshot p' = gp_qualitySnapshot p"
    and "\<And>k. k \<noteq> h \<Longrightarrow> GetEntry k p' = GetEntry k p"
  shows "behind lk (insert h D) p'"
proof (rule behind_change [OF assms(1,2)])
  have same: "poolLookups lk p' = poolLookups lk p"
    using assms(3) by (simp add: poolLookups_def)
  show "routable lk p' plat k = routable lk p plat k" if "k \<notin> insert h D" for plat k
    using that unfolding routable_def same by (simp add: assms(4))
qed auto

lemma behind_gates:
  assumes "behind lk D p" "gp_platformByID p' = gp_platformByID p" "gp_qualitySnapshot p' = gp_qualitySnapshot p"
    and "\<And>k. k \<noteq> h \<Longrightarrow> GetEntry k p' = GetEntry k p" "GetEntry h p = Some e" "GetEntry h p' = Some e'" "gates_equal e e'"
  shows "behind lk D p'"
proof (rule behind_change [OF assms(1,2)])
  have same: "poolLookups lk p' = poolLookups lk p"
    using assms(3) by (simp add: poolLookups_def)
  show "routable lk p' plat k = routable lk p plat k" if "timeless plat" for plat k
    using evaluateNode_cong [OF that assms(7), of "poolLookups lk p" 0 0] unfolding routable_def same
    by (cases "k = h") (simp_all add: assms(4-6))
qed simp

lemma behind_notify_at:
  assumes "behind lk D p" "gp_platformByID p' = gp_platformByID p" "gp_qualitySnapshot p' = gp_qualitySnapshot p"
    and "\<And>k. k \<noteq> h \<Longrightarrow> GetEntry k p' = GetEntry k p"
  shows "behind lk (D - {h}) (notifyAllPlatformsDirty lk now h p')"
proof -
  have "behind lk (insert h D) p'"
    by (rule behind_at [OF assms(1-3)]) (rule assms(4))
  from behind_notify [OF this, where h = h and now = now] show ?thesis
    by simp
qed

lemma EnsureNodeOutbound_same [simp]:
  "gp_platformByID (EnsureNodeOutbound cfg h p) = gp_platformByID p" "gp_qualitySnapshot (EnsureNodeOutbound cfg h p) = gp_qualitySnapshot p"
  "GetEntry k (EnsureNodeOutbound cfg h p) = (if k = h then map_option (ensureOutbound cfg) (GetEntry h p) else GetEntry k p)"
  by (auto simp: EnsureNodeOutbound_def GetEntry_setEntry split: option.splits)

lemma behind_Add: "behind lk D p \<Longrightarrow> behind lk (D - {h}) (AddNodeFromSub cfg lk now h raw subID p)"
  unfolding AddNodeFromSub_def Let_def
  by (erule behind_notify_at) (auto simp: GetEntry_setEntry split: option.splits)

lemma behind_Remove: "behind lk D p \<Longrightarrow> behind lk (D - {h}) (RemoveNodeFromSub lk now h subID p)"
  unfolding RemoveNodeFromSub_def Let_def
  by (erule behind_notify_at)
    (auto simp: GetEntry_setEntry GetEntry_def gomap_simps RemoveSubscriptionID_def Let_def split: option.splits prod.splits bool.splits)

lemma record_gates:
  "gates_equal e (fst (recordSuccess e)) \<or> snd (recordSuccess e)"
  "now \<noteq> 0 \<Longrightarrow> gates_equal e (fst (recordFailure m cls d now e)) \<or> snd (recordFailure m cls d now e)"
  by (auto simp: gates_equal_def recordSuccess_def recordFailure_def SetProbeFailure_def ClearProbeFailure_def Let_def IsCircuitOpen_def
      GetEgressIP_def GetEgressRegion_def HasLatency_def split: option.splits)

lemma behind_Outcome:
  assumes "behind lk D p" "now \<noteq> 0"
  shows "behind lk D (RecordOutcome cfg lk now h success cls detail p)"
proof (cases "GetEntry h p")
  case (Some e)
  obtain e' changed where r: "(if success then recordSuccess e else recordFailure (pc_maxConsecutiveFailures cfg) cls detail now e) = (e', changed)"
    by fastforce
  then have "gates_equal e e' \<or> changed"
    using record_gates(1) [of e] record_gates(2) [OF assms(2), of e "pc_maxConsecutiveFailures cfg" cls detail]
    by (cases success) auto
  moreover have "behind lk D (notifyAllPlatformsDirty lk now h (setEntry h e' p))"
    by (rule behind_mono [OF behind_notify_at [OF assms(1), of "setEntry h e' p" h now]]) (auto simp: GetEntry_setEntry)
  moreover have "behind lk D (setEntry h e' p)" if "gates_equal e e'"
    by (rule behind_gates [OF assms(1) _ _ _ Some _ that]) (auto simp: GetEntry_setEntry)
  ultimately show ?thesis
    by (auto simp: RecordOutcome_def Some r Let_def)
qed (simp add: RecordOutcome_def assms(1))

lemma gates_equal_fields [simp]:
  "gates_equal e (e\<lparr>ne_LastEgressUpdate := now\<rparr>)" "gates_equal e (e\<lparr>ne_LastEgressUpdateAttempt := now\<rparr>)"
  "gates_equal e (e\<lparr>ne_LastLatencyProbeAttempt := now\<rparr>)" "gates_equal e (e\<lparr>ne_LastAuthorityLatencyProbeAttempt := now\<rparr>)"
  by (simp_all add: gates_equal_def IsCircuitOpen_def GetEgressIP_def GetEgressRegion_def HasLatency_def)

lemma updateIP_gates: "updateIP now ip e = (e', False) \<Longrightarrow> gates_equal e e'"
  by (auto simp: updateIP_def Let_def split: option.splits if_splits)

lemma updateRegion_gates: "updateRegion ip loc changed e = (e', False) \<Longrightarrow> gates_equal e e'"
  by (auto simp: updateRegion_def SetEgressRegion_def gates_equal_def IsCircuitOpen_def GetEgressIP_def HasLatency_def Let_def
      split: option.splits if_splits)

lemma behind_Egress:
  assumes "behind lk D p"
  shows "behind lk D (UpdateNodeEgressIP lk now h ip loc p)"
proof (cases "GetEntry h p")
  case (Some e)
  then obtain e1 e2 ipChanged regionChanged where
    1: "updateIP now ip (e\<lparr>ne_LastEgressUpdateAttempt := now\<rparr>) = (e1, ipChanged)" and 2: "updateRegion ip loc ipChanged e1 = (e2, regionChanged)"
    and eq: "UpdateNodeEgressIP lk now h ip loc p =
      (let p1 = (if ipChanged then (setEntry h e2 p)\<lparr>gp_egressIndex := indexEgressIP h (GetEgressIP e) (GetEgressIP e1) (gp_egressIndex p)\<rparr>
                 else setEntry h e2 p)
       in if ipChanged \<or> regionChanged then notifyAllPlatformsDirty lk now h p1 else p1)"
    by (rule UpdateNodeEgressIP_cases)
  let ?p1 = "if ipChanged then (setEntry h e2 p)\<lparr>gp_egressIndex := indexEgressIP h (GetEgressIP e) (GetEgressIP e1) (gp_egressIndex p)\<rparr>
    else setEntry h e2 p"
  have at: "gp_platformByID ?p1 = gp_platformByID p" "gp_qualitySnapshot ?p1 = gp_qualitySnapshot p"
    "k \<noteq> h \<Longrightarrow> GetEntry k ?p1 = GetEntry k p" "GetEntry h ?p1 = Some e2" for k
    by (auto simp: GetEntry_def gomap_simps)
  show ?thesis
  proof (cases "ipChanged \<or> regionChanged")
    case True
    have "behind lk (D - {h}) (notifyAllPlatformsDirty lk now h ?p1)"
      by (rule behind_notify_at [OF assms at(1,2)]) (rule at(3))
    then have "behind lk D (notifyAllPlatformsDirty lk now h ?p1)"
      by (rule behind_mono) auto
    then show ?thesis
      unfolding eq Let_def using True by simp
  next
    case False
    then have "gates_equal e (e\<lparr>ne_LastEgressUpdateAttempt := now\<rparr>)" "gates_equal (e\<lparr>ne_LastEgressUpdateAttempt := now\<rparr>) e1" "gates_equal e1 e2"
      using 1 2 updateIP_gates updateRegion_gates by (auto simp: gates_equal_fields)
    then have "gates_equal e e2"
      by (simp add: gates_equal_def)
    then have "behind lk D ?p1"
      by (rule behind_gates [OF assms at(1,2) _ Some at(4), rotated]) (rule at(3))
    then show ?thesis
      unfolding eq Let_def using False by simp
  qed
qed (simp add: UpdateNodeEgressIP_def assms)

lemma LatencySize_live: "LatencySize t = length (live t)"
  by (simp add: LatencySize_def totalSizeLocked_def live_def)

lemma UpdateClassified_size:
  assumes "lat_inv n t" "0 < n" "UpdateClassified mix key d l w a now t = ((wasEmpty, ev), t')"
  shows "lat_inv n t'" "0 < LatencySize t'" "wasEmpty \<longleftrightarrow> LatencySize t = 0"
proof -
  from UpdateClassified_placed [OF assms] have "lat_inv n t'" "known t' (key d) \<noteq> None"
    by (auto simp: placed_def)
  then show "lat_inv n t'" "0 < LatencySize t'"
    by (auto simp: known_def LatencySize_live)
  show "wasEmpty \<longleftrightarrow> LatencySize t = 0"
    using assms(3) by (auto simp: UpdateClassified_def LatencySize_def Let_def split: prod.splits if_splits)
qed

definition table_ok :: "NodeEntry \<Rightarrow> bool" where
  "table_ok e \<longleftrightarrow> (case ne_LatencyTable e of None \<Rightarrow> True | Some t \<Rightarrow> \<exists>n>0. lat_inv n t)"

lemma behind_Latency:
  assumes "behind lk D p" "\<And>e. GetEntry h p = Some e \<Longrightarrow> table_ok e"
  shows "behind lk D (RecordLatency cfg lk now h target latency p)"
proof (cases "GetEntry h p")
  case (Some e)
  let ?d = "pc_ExtractDomain cfg target"
  let ?e = "e\<lparr>ne_LastLatencyProbeAttempt := now,
    ne_LastAuthorityLatencyProbeAttempt := (if isAuthorityDomain cfg ?d then now else ne_LastAuthorityLatencyProbeAttempt e)\<rparr>"
  have gates: "gates_equal e ?e"
    by (simp add: gates_equal_def IsCircuitOpen_def GetEgressIP_def GetEgressRegion_def HasLatency_def)
  have attempt: "behind lk D (setEntry h ?e p)"
    by (rule behind_gates [OF assms(1) _ _ _ Some _ gates]) (simp_all add: GetEntry_setEntry)
  show ?thesis
  proof (cases "\<exists>l t. latency = Some l \<and> 0 < l \<and> ne_LatencyTable e = Some t")
    case True
    then obtain l t where l: "latency = Some l" "0 < l" and t: "ne_LatencyTable e = Some t"
      by blast
    then obtain n where n: "0 < n" "lat_inv n t"
      using assms(2) [OF Some] by (auto simp: table_ok_def)
    obtain wasEmpty ev t' where u: "UpdateClassified (pc_mix cfg) (pc_domainKey cfg) ?d l (decayWindowOf cfg) (isAuthorityDomain cfg ?d) now t = ((wasEmpty, ev), t')"
      by (metis prod.collapse)
    note size = UpdateClassified_size [OF n(2,1) u]
    have "behind lk D (notifyAllPlatformsDirty lk now h (setEntry h (?e\<lparr>ne_LatencyTable := Some t'\<rparr>) p))"
      by (rule behind_mono [OF behind_notify_at [OF assms(1), of _ h]]) (auto simp: GetEntry_setEntry)
    moreover have "behind lk D (setEntry h (?e\<lparr>ne_LatencyTable := Some t'\<rparr>) p)" if "\<not> wasEmpty"
    proof (rule behind_gates [OF assms(1) _ _ _ Some])
      show "gates_equal e (?e\<lparr>ne_LatencyTable := Some t'\<rparr>)"
        using size that by (simp add: gates_equal_def IsCircuitOpen_def GetEgressIP_def GetEgressRegion_def HasLatency_def t)
    qed (simp_all add: GetEntry_setEntry)
    ultimately show ?thesis
      using l t u by (auto simp: RecordLatency_def Some Let_def)
  next
    case False
    then show ?thesis
      using attempt by (cases latency; cases "ne_LatencyTable e") (auto simp: RecordLatency_def Some Let_def)
  qed
qed (simp add: RecordLatency_def assms(1))

end
