(* ===== verification/Topology.thy ===== *)
theory Topology
  imports Pool_Views
begin

text \<open>
  Subscriptions and the pool: the model (\<open>internal/subscription/subscription.go\<close>,
  \<open>internal/topology/subscription_scheduler.go\<close>, \<open>subscription_cleanup.go\<close>, \<open>ephemeral_cleaner.go\<close>,
  \<open>subscription_manager.go\<close>, the subscription operations of \<open>internal/service/control_plane_subscription.go\<close>
  and the projection of assessments in \<open>internal/intel/snapshot.go\<close> and \<open>assessor.go\<close>).

  A subscription's operation runs under its lock and is one step; a refresh is two, reading its input
  and applying the result, with anything in between. Fetching and parsing a document are parameters:
  an attempt carries the nodes that the parser returned; the hash of a node's options is a parameter too.
\<close>

section \<open>Subscriptions\<close>

record ManagedNode =
  mn_Tags :: "string list"
  mn_Evicted :: bool

type_synonym ManagedNodes = "(Hash, ManagedNode) gomap"

record Subscription =
  sb_ID :: string
  sb_url :: string
  sb_sourceType :: string
  sb_content :: string
  sb_updateIntervalNs :: int
  sb_name :: string
  sb_enabled :: bool
  sb_ephemeral :: bool
  sb_incrementalAliveNodes :: bool
  sb_ephemeralNodeEvictDelayNs :: int
  sb_CreatedAtNs :: int
  sb_LastCheckedNs :: int
  sb_LastUpdatedNs :: int
  sb_LastError :: string
  sb_attemptSeq :: int
  sb_lastAppliedSeq :: int
  sb_managedNodes :: ManagedNodes
  sb_configVersion :: int

definition defaultEphemeralNodeEvictDelayNs :: int where
  "defaultEphemeralNodeEvictDelayNs = 259200000000000"

definition NewSubscription :: "string \<Rightarrow> string \<Rightarrow> string \<Rightarrow> bool \<Rightarrow> bool \<Rightarrow> Subscription" where
  "NewSubscription i name url enabled ephemeral =
     \<lparr>sb_ID = i, sb_url = url, sb_sourceType = ''remote'', sb_content = '''', sb_updateIntervalNs = 0, sb_name = name, sb_enabled = enabled,
      sb_ephemeral = ephemeral, sb_incrementalAliveNodes = False, sb_ephemeralNodeEvictDelayNs = defaultEphemeralNodeEvictDelayNs,
      sb_CreatedAtNs = 0, sb_LastCheckedNs = 0, sb_LastUpdatedNs = 0, sb_LastError = '''', sb_attemptSeq = 0, sb_lastAppliedSeq = 0,
      sb_managedNodes = [], sb_configVersion = 1\<rparr>"

definition normalizeSourceType :: "string \<Rightarrow> string" where
  "normalizeSourceType sourceType = (if sourceType = ''local'' then ''local'' else ''remote'')"

text \<open>Whatever changes the input of a refresh raises the version.\<close>

definition SetFetchConfig :: "string \<Rightarrow> int \<Rightarrow> Subscription \<Rightarrow> Subscription" where
  "SetFetchConfig url interval s =
     s\<lparr>sb_url := url, sb_updateIntervalNs := interval,
       sb_configVersion := (if sb_url s \<noteq> url \<or> sb_updateIntervalNs s \<noteq> interval then sb_configVersion s + 1 else sb_configVersion s)\<rparr>"

definition SetSourceType :: "string \<Rightarrow> Subscription \<Rightarrow> Subscription" where
  "SetSourceType sourceType s =
     (let t = normalizeSourceType sourceType in
      if sb_sourceType s \<noteq> t then s\<lparr>sb_sourceType := t, sb_configVersion := sb_configVersion s + 1\<rparr> else s)"

definition SetContent :: "string \<Rightarrow> Subscription \<Rightarrow> Subscription" where
  "SetContent content s =
     (if sb_content s \<noteq> content then s\<lparr>sb_content := content, sb_configVersion := sb_configVersion s + 1\<rparr> else s)"

definition DiffHashes :: "ManagedNodes \<Rightarrow> ManagedNodes \<Rightarrow> Hash list \<times> Hash list \<times> Hash list" where
  "DiffHashes oldMap newMap =
     (filter (\<lambda>h. map_of oldMap h = None) (map fst newMap), filter (\<lambda>h. map_of oldMap h \<noteq> None) (map fst newMap),
      filter (\<lambda>h. map_of newMap h = None) (map fst oldMap))"

section \<open>Subscriptions and nodes\<close>

text \<open>
  The pool, the registered subscriptions, and the ones that were deleted: a refresh that began before keeps
  its subscription alive.
\<close>

record topology =
  tp_pool :: GlobalNodePool
  tp_subs :: "(string, Subscription) gomap"
  tp_gone :: "(string, Subscription) gomap"

definition objectOf :: "string \<Rightarrow> topology \<Rightarrow> Subscription option" where
  "objectOf i t = (case map_of (tp_subs t) i of None \<Rightarrow> map_of (tp_gone t) i | Some sub \<Rightarrow> Some sub)"

definition storeObject :: "string \<Rightarrow> Subscription \<Rightarrow> topology \<Rightarrow> topology" where
  "storeObject i sub t =
     (case map_of (tp_subs t) i of
        None \<Rightarrow> t\<lparr>tp_gone := AList.update i sub (tp_gone t)\<rparr>
      | Some _ \<Rightarrow> t\<lparr>tp_subs := AList.update i sub (tp_subs t)\<rparr>)"

definition NewTopology :: "topology" where
  "NewTopology = \<lparr>tp_pool = NewGlobalNodePool, tp_subs = [], tp_gone = []\<rparr>"

text \<open>The tags and the state of a node in one subscription, as the platforms see them.\<close>

definition MakeSubLookup :: "(string, Subscription) gomap \<Rightarrow> SubLookupFunc" where
  "MakeSubLookup subs subID h =
     (case map_of subs subID of
        None \<Rightarrow> None
      | Some sub \<Rightarrow>
          (case map_of (sb_managedNodes sub) h of
             None \<Rightarrow> None
           | Some managed \<Rightarrow> if mn_Evicted managed then None else Some (sb_name sub, sb_enabled sub, mn_Tags managed)))"

definition subLookups :: "Lookups \<Rightarrow> (string, Subscription) gomap \<Rightarrow> Lookups" where
  "subLookups lk subs = lk\<lparr>lk_sub := Some (MakeSubLookup subs)\<rparr>"

section \<open>Refreshing a subscription\<close>

text \<open>What the parser returned: the options and the tag of each node; equal options give one node with all tags.\<close>

type_synonym parsed = "(string \<times> string) list"

definition refreshedNodes :: "(string \<Rightarrow> Hash) \<Rightarrow> parsed \<Rightarrow> ManagedNodes" where
  "refreshedNodes hashOf parsed =
     fold (\<lambda>(raw, tag) m. let h = hashOf raw; old = gm_get m h \<lparr>mn_Tags = [], mn_Evicted = False\<rparr>
        in AList.update h (old\<lparr>mn_Tags := mn_Tags old @ [tag]\<rparr>) m) parsed []"

definition rawByHash :: "(string \<Rightarrow> Hash) \<Rightarrow> parsed \<Rightarrow> (Hash, string) gomap" where
  "rawByHash hashOf parsed =
     fold (\<lambda>(raw, tag) m. if map_of m (hashOf raw) = None then AList.update (hashOf raw) raw m else m) parsed []"

definition shouldRemoveUnhealthyNodeForIncrementalMode :: "NodeEntry \<Rightarrow> bool" where
  "shouldRemoveUnhealthyNodeForIncrementalMode e \<longleftrightarrow> IsCircuitOpen e \<or> \<not> HasOutbound e \<and> ne_LastError e \<noteq> ''''"

text \<open>In the incremental mode the old nodes that are evicted or still alive stay, under what the refresh brought.\<close>

definition keptAlive :: "GlobalNodePool \<Rightarrow> ManagedNodes \<Rightarrow> ManagedNodes" where
  "keptAlive p old =
     filter (\<lambda>(h, managed). mn_Evicted managed \<or>
       (case GetEntry h p of None \<Rightarrow> False | Some e \<Rightarrow> \<not> shouldRemoveUnhealthyNodeForIncrementalMode e)) old"

definition mergeRefresh :: "bool \<Rightarrow> GlobalNodePool \<Rightarrow> ManagedNodes \<Rightarrow> ManagedNodes \<Rightarrow> ManagedNodes" where
  "mergeRefresh incremental p old refreshed =
     (if incremental then fold (\<lambda>(h, managed). AList.update h managed) refreshed (keptAlive p old) else refreshed)"

definition wasEvicted :: "ManagedNodes \<Rightarrow> Hash \<Rightarrow> bool" where
  "wasEvicted old h = (case map_of old h of None \<Rightarrow> False | Some managed \<Rightarrow> mn_Evicted managed)"

text \<open>An eviction outlives the refresh.\<close>

definition inheritEvicted :: "ManagedNodes \<Rightarrow> ManagedNodes \<Rightarrow> ManagedNodes" where
  "inheritEvicted old merged =
     map (\<lambda>(h, managed). (h, if wasEvicted old h then managed\<lparr>mn_Evicted := True\<rparr> else managed)) merged"

text \<open>One node of the new set: the options come from the refresh or from the entry the pool has.\<close>

definition addRefreshed ::
  "PoolConfig \<Rightarrow> Lookups \<Rightarrow> int \<Rightarrow> string \<Rightarrow> ManagedNodes \<Rightarrow> (Hash, string) gomap \<Rightarrow> Hash \<Rightarrow> GlobalNodePool \<Rightarrow> GlobalNodePool" where
  "addRefreshed cfg lk now subID merged raws h p =
     (if wasEvicted merged h then p
      else let raw0 = gm_get raws h '''';
               raw = (if raw0 = '''' then (case GetEntry h p of None \<Rightarrow> '''' | Some e \<Rightarrow> ne_RawOptions e) else raw0)
           in if raw = '''' then p else AddNodeFromSub cfg lk now h raw subID p)"

record attempt =
  at_seq :: int
  at_configVersion :: int

definition beginRefresh :: "string \<Rightarrow> topology \<Rightarrow> attempt option \<times> topology" where
  "beginRefresh i t =
     (case map_of (tp_subs t) i of
        None \<Rightarrow> (None, t)
      | Some sub \<Rightarrow>
          let seq = sb_attemptSeq sub + 1
          in (Some \<lparr>at_seq = seq, at_configVersion = sb_configVersion sub\<rparr>,
              t\<lparr>tp_subs := AList.update i (sub\<lparr>sb_attemptSeq := seq\<rparr>) (tp_subs t)\<rparr>))"

text \<open>Whether an attempt is out of date by the time it would be applied.\<close>

definition stale :: "attempt \<Rightarrow> Subscription \<Rightarrow> bool" where
  "stale a sub \<longleftrightarrow> sb_configVersion sub \<noteq> at_configVersion a \<or> sb_lastAppliedSeq sub > at_seq a"

definition handleUpdateFailure :: "int \<Rightarrow> attempt \<Rightarrow> string \<Rightarrow> Subscription \<Rightarrow> Subscription" where
  "handleUpdateFailure now a err sub = (if stale a sub then sub else sub\<lparr>sb_LastCheckedNs := now, sb_LastError := err\<rparr>)"

definition applyRefresh ::
  "PoolConfig \<Rightarrow> Lookups \<Rightarrow> int \<Rightarrow> (string \<Rightarrow> Hash) \<Rightarrow> attempt \<Rightarrow> parsed \<Rightarrow> Subscription \<Rightarrow> topology \<Rightarrow> topology" where
  "applyRefresh cfg lk now hashOf a parsed sub t =
     (if stale a sub then t
      else let old = sb_managedNodes sub; refreshed = refreshedNodes hashOf parsed; raws = rawByHash hashOf parsed;
               merged = inheritEvicted old (mergeRefresh (sb_incrementalAliveNodes sub) (tp_pool t) old refreshed);
               (added, kept, removed) = DiffHashes old merged;
               t1 = storeObject (sb_ID sub) (sub\<lparr>sb_managedNodes := merged\<rparr>) t;
               lk1 = subLookups lk (tp_subs t1);
               p1 = fold (addRefreshed cfg lk1 now (sb_ID sub) merged raws) (added @ kept) (tp_pool t);
               p2 = fold (\<lambda>h. RemoveNodeFromSub lk1 now h (sb_ID sub)) removed p1
           in storeObject (sb_ID sub) (sub\<lparr>sb_managedNodes := merged, sb_LastCheckedNs := now, sb_LastUpdatedNs := now,
                sb_lastAppliedSeq := at_seq a, sb_LastError := ''''\<rparr>) (t1\<lparr>tp_pool := p2\<rparr>))"

datatype fetched = Failed string | Parsed parsed

definition errEmptyRefresh :: string where
  "errEmptyRefresh = ''subscription returned no usable nodes; keeping previous nodes''"

definition finishRefresh ::
  "PoolConfig \<Rightarrow> Lookups \<Rightarrow> int \<Rightarrow> (string \<Rightarrow> Hash) \<Rightarrow> string \<Rightarrow> attempt \<Rightarrow> fetched \<Rightarrow> topology \<Rightarrow> topology" where
  "finishRefresh cfg lk now hashOf i a result t =
     (case objectOf i t of
        None \<Rightarrow> t
      | Some sub \<Rightarrow>
          let failure = (\<lambda>err. storeObject i (handleUpdateFailure now a err sub) t) in
          (case result of
             Failed err \<Rightarrow> failure err
           | Parsed parsed \<Rightarrow>
               if parsed = [] \<and> sb_managedNodes sub \<noteq> [] then failure errEmptyRefresh
               else applyRefresh cfg lk now hashOf a parsed sub t))"

section \<open>The other operations on subscriptions\<close>

definition Register :: "Subscription \<Rightarrow> topology \<Rightarrow> topology" where
  "Register sub t = t\<lparr>tp_subs := AList.update (sb_ID sub) sub (tp_subs t)\<rparr>"

definition SetSubscriptionEnabled :: "PoolConfig \<Rightarrow> Lookups \<Rightarrow> int \<Rightarrow> string \<Rightarrow> bool \<Rightarrow> topology \<Rightarrow> topology" where
  "SetSubscriptionEnabled cfg lk now i enabled t =
     (case map_of (tp_subs t) i of
        None \<Rightarrow> t
      | Some sub \<Rightarrow>
          let hashes = (if \<not> sb_enabled sub \<and> enabled
                then filter (\<lambda>h. \<not> wasEvicted (sb_managedNodes sub) h \<and> IsNodeDisabled (subLookups lk (tp_subs t)) h (tp_pool t))
                       (map fst (sb_managedNodes sub))
                else []);
              subs1 = AList.update i (sub\<lparr>sb_enabled := enabled\<rparr>) (tp_subs t);
              lk1 = subLookups lk subs1;
              p1 = RebuildAllPlatforms lk1 now (tp_pool t);
              p2 = fold (\<lambda>h p. if IsNodeDisabled lk1 h p then p else EnsureNodeOutbound cfg h p) hashes p1
          in t\<lparr>tp_pool := p2, tp_subs := subs1\<rparr>)"

definition RenameSubscription :: "PoolConfig \<Rightarrow> Lookups \<Rightarrow> int \<Rightarrow> string \<Rightarrow> string \<Rightarrow> topology \<Rightarrow> topology" where
  "RenameSubscription cfg lk now i newName t =
     (case map_of (tp_subs t) i of
        None \<Rightarrow> t
      | Some sub \<Rightarrow>
          let subs1 = AList.update i (sub\<lparr>sb_name := newName\<rparr>) (tp_subs t);
              again = (\<lambda>(h, managed) p. if mn_Evicted managed then p
                else case GetEntry h p of None \<Rightarrow> p | Some e \<Rightarrow> AddNodeFromSub cfg (subLookups lk subs1) now h (ne_RawOptions e) i p)
          in t\<lparr>tp_pool := fold again (sb_managedNodes sub) (tp_pool t), tp_subs := subs1\<rparr>)"

definition shouldEvictEntry :: "int \<Rightarrow> int \<Rightarrow> NodeEntry \<Rightarrow> bool" where
  "shouldEvictEntry now evictDelayNs e =
     (if \<not> HasOutbound e \<and> ne_LastError e \<noteq> '''' then True
      else ne_CircuitOpenSince e > 0 \<and> wrap64 (now - ne_CircuitOpenSince e) > evictDelayNs)"

text \<open>
  Two scans: the first collects, the second confirms. The pool may change between them; \<open>first\<close> is the pool that
  the first one saw.
\<close>

definition removalCandidates :: "(NodeEntry \<Rightarrow> bool) \<Rightarrow> GlobalNodePool \<Rightarrow> ManagedNodes \<Rightarrow> Hash list" where
  "removalCandidates shouldRemove p managed =
     map fst (filter (\<lambda>(h, m). \<not> mn_Evicted m \<and> (case GetEntry h p of None \<Rightarrow> False | Some e \<Rightarrow> shouldRemove e)) managed)"

definition CleanupSubscriptionNodes :: "(NodeEntry \<Rightarrow> bool) \<Rightarrow> GlobalNodePool \<Rightarrow> Lookups \<Rightarrow> int \<Rightarrow> string \<Rightarrow> topology \<Rightarrow> Hash list \<times> topology" where
  "CleanupSubscriptionNodes shouldRemove first lk now i t =
     (case map_of (tp_subs t) i of
        None \<Rightarrow> ([], t)
      | Some sub \<Rightarrow>
          let current = sb_managedNodes sub;
              confirmed = filter (\<lambda>h. h \<in> set (removalCandidates shouldRemove (tp_pool t) current)) (removalCandidates shouldRemove first current);
              next = map (\<lambda>(h, m). (h, if h \<in> set confirmed then m\<lparr>mn_Evicted := True\<rparr> else m)) current;
              subs1 = AList.update i (sub\<lparr>sb_managedNodes := next\<rparr>) (tp_subs t)
          in if confirmed = [] then ([], t)
             else (confirmed, t\<lparr>tp_pool := fold (\<lambda>h. RemoveNodeFromSub (subLookups lk subs1) now h i) confirmed (tp_pool t), tp_subs := subs1\<rparr>))"

definition sweepOneSubscription :: "GlobalNodePool \<Rightarrow> Lookups \<Rightarrow> int \<Rightarrow> string \<Rightarrow> topology \<Rightarrow> Hash list \<times> topology" where
  "sweepOneSubscription first lk now i t =
     (case map_of (tp_subs t) i of
        None \<Rightarrow> ([], t)
      | Some sub \<Rightarrow> CleanupSubscriptionNodes (shouldEvictEntry now (sb_ephemeralNodeEvictDelayNs sub)) first lk now i t)"

definition sweep :: "(string \<Rightarrow> GlobalNodePool) \<Rightarrow> Lookups \<Rightarrow> int \<Rightarrow> topology \<Rightarrow> topology" where
  "sweep first lk now t =
     fold (\<lambda>i t. snd (sweepOneSubscription (first i) lk now i t)) (map fst (filter (\<lambda>(i, sub). sb_ephemeral sub) (tp_subs t))) t"

definition DeleteSubscription :: "Lookups \<Rightarrow> int \<Rightarrow> string \<Rightarrow> topology \<Rightarrow> topology" where
  "DeleteSubscription lk now i t =
     (case map_of (tp_subs t) i of
        None \<Rightarrow> t
      | Some sub \<Rightarrow>
          t\<lparr>tp_pool := fold (\<lambda>h. RemoveNodeFromSub (subLookups lk (tp_subs t)) now h i) (map fst (sb_managedNodes sub)) (tp_pool t),
            tp_subs := AList.delete i (tp_subs t), tp_gone := AList.update i sub (tp_gone t)\<rparr>)"

text \<open>The operator's cleanup of one subscription removes what the incremental mode would drop.\<close>

definition shouldCleanupSubscriptionNode :: "NodeEntry \<Rightarrow> bool" where
  "shouldCleanupSubscriptionNode e \<longleftrightarrow> IsCircuitOpen e \<or> \<not> HasOutbound e \<and> ne_LastError e \<noteq> ''''"

definition CleanupSubscriptionCircuitOpenNodes :: "GlobalNodePool \<Rightarrow> Lookups \<Rightarrow> int \<Rightarrow> string \<Rightarrow> topology \<Rightarrow> Hash list \<times> topology" where
  "CleanupSubscriptionCircuitOpenNodes first lk now i t = CleanupSubscriptionNodes shouldCleanupSubscriptionNode first lk now i t"

text \<open>The console creates a subscription and changes one; the values are the validated ones of the request.\<close>

record SubscriptionSettings =
  ss_Name :: string
  ss_SourceType :: string
  ss_URL :: string
  ss_Content :: string
  ss_UpdateIntervalNs :: int
  ss_Enabled :: bool
  ss_Ephemeral :: bool
  ss_IncrementalAliveNodes :: bool
  ss_EphemeralNodeEvictDelayNs :: int

definition CreateSubscription :: "string \<Rightarrow> int \<Rightarrow> SubscriptionSettings \<Rightarrow> topology \<Rightarrow> topology" where
  "CreateSubscription i now ss t =
     (let s0 = NewSubscription i (ss_Name ss) (ss_URL ss) (ss_Enabled ss) (ss_Ephemeral ss);
          s1 = SetContent (ss_Content ss) (SetSourceType (ss_SourceType ss) (SetFetchConfig (ss_URL ss) (ss_UpdateIntervalNs ss) s0))
      in Register (s1\<lparr>sb_incrementalAliveNodes := ss_IncrementalAliveNodes ss,
           sb_ephemeralNodeEvictDelayNs := ss_EphemeralNodeEvictDelayNs ss, sb_CreatedAtNs := now\<rparr>) t)"

definition UpdateSubscription :: "PoolConfig \<Rightarrow> Lookups \<Rightarrow> int \<Rightarrow> string \<Rightarrow> SubscriptionSettings \<Rightarrow> topology \<Rightarrow> topology" where
  "UpdateSubscription cfg lk now i ss t =
     (case map_of (tp_subs t) i of
        None \<Rightarrow> t
      | Some sub \<Rightarrow>
          let s1 = (SetContent (ss_Content ss) (SetFetchConfig (ss_URL ss) (ss_UpdateIntervalNs ss) sub))
                \<lparr>sb_ephemeral := ss_Ephemeral ss, sb_incrementalAliveNodes := ss_IncrementalAliveNodes ss,
                 sb_ephemeralNodeEvictDelayNs := ss_EphemeralNodeEvictDelayNs ss\<rparr>;
              t1 = t\<lparr>tp_subs := AList.update i s1 (tp_subs t)\<rparr>;
              t2 = (if sb_name sub \<noteq> ss_Name ss then RenameSubscription cfg lk now i (ss_Name ss) t1 else t1)
          in if sb_enabled sub \<noteq> ss_Enabled ss then SetSubscriptionEnabled cfg lk now i (ss_Enabled ss) t2 else t2)"

section \<open>Assessments\<close>

text \<open>A new assessment of an address, in the projection that the platforms read.\<close>

definition SetAssessment :: "Addr \<Rightarrow> AssessmentLite \<Rightarrow> QualitySnapshotReader \<Rightarrow> QualitySnapshotReader" where
  "SetAssessment ip lite sn =
     (if \<not> IsValid ip then sn
      else sn\<lparr>qs_Assessment := (\<lambda>a. if IsValid a \<and> Unmap a = Unmap ip then Some lite else qs_Assessment sn a)\<rparr>)"

text \<open>
  A batch: \<open>assess\<close> is the outcome for one address, where \<open>None\<close> is an error that is logged and skipped.
  The pool hears about all addresses of the batch once one of them was assessed.
\<close>

definition AssessMany ::
  "(Addr \<Rightarrow> AssessmentLite option) \<Rightarrow> Lookups \<Rightarrow> int \<Rightarrow> Addr list \<Rightarrow> QualitySnapshotReader \<Rightarrow> GlobalNodePool \<Rightarrow> GlobalNodePool" where
  "AssessMany assess lk now ips sn p =
     (let good = filter (\<lambda>ip. IsValid ip \<and> assess ip \<noteq> None) ips;
          p1 = p\<lparr>gp_qualitySnapshot := Some (fold (\<lambda>ip. SetAssessment ip (the (assess ip))) good sn)\<rparr>
      in if good = [] then p else fold (\<lambda>ip p. snd (NotifyEgressIPDirty lk now ip p)) ips p1)"

end
