(* ===== verification/Topology_Inv.thy ===== *)
theory Topology_Inv
  imports Topology
begin

text \<open>
  The invariant of the topology and that every operation keeps it: an entry of the pool lists exactly the
  subscriptions that hold its node, and the view of every platform is what a rebuild over the pool would
  give. \<open>sound cfg lk D p\<close> is the part of it that a loop over nodes keeps, with \<open>D\<close> the nodes the loop still
  has to notify the platforms about.
\<close>

section \<open>A node is in the pool while a subscription holds it\<close>

definition entry_ok :: "PoolConfig \<Rightarrow> Hash \<Rightarrow> NodeEntry \<Rightarrow> bool" where
  "entry_ok cfg h e \<longleftrightarrow> ne_Hash e = h \<and> ne_RawOptions e \<noteq> '''' \<and> (ne_Outbound e \<or> pc_build cfg (ne_RawOptions e) \<noteq> None) \<and>
     table_ok e \<and> distinct (ne_subscriptionIDs e) \<and> ne_subscriptionIDs e \<noteq> []"

definition pool_ok :: "PoolConfig \<Rightarrow> GlobalNodePool \<Rightarrow> bool" where
  "pool_ok cfg p \<longleftrightarrow> gm_wf (gp_nodes p) \<and> (\<forall>h e. GetEntry h p = Some e \<longrightarrow> entry_ok cfg h e)"

definition ids_of :: "GlobalNodePool \<Rightarrow> Hash \<Rightarrow> string set" where
  "ids_of p h = (case GetEntry h p of None \<Rightarrow> {} | Some e \<Rightarrow> set (ne_subscriptionIDs e))"

lemma pool_okD: "pool_ok cfg p \<Longrightarrow> GetEntry h p = Some e \<Longrightarrow> entry_ok cfg h e"
  by (simp add: pool_ok_def)

lemma ids_empty: "pool_ok cfg p \<Longrightarrow> ids_of p h = {} \<longleftrightarrow> GetEntry h p = None"
  by (auto simp: ids_of_def entry_ok_def dest: pool_okD split: option.splits)

lemma pool_ok_cong: "gp_nodes p' = gp_nodes p \<Longrightarrow> pool_ok cfg p' = pool_ok cfg p"
  by (simp add: pool_ok_def GetEntry_def)

lemma ids_cong: "gp_nodes p' = gp_nodes p \<Longrightarrow> ids_of p' = ids_of p"
  by (simp add: ids_of_def GetEntry_def fun_eq_iff)

lemma pool_ok_notify [simp]: "pool_ok cfg (notifyAllPlatformsDirty lk now h p) = pool_ok cfg p" "ids_of (notifyAllPlatformsDirty lk now h p) = ids_of p"
  by (rule pool_ok_cong ids_cong; simp)+

lemma pool_ok_rebuild [simp]: "pool_ok cfg (RebuildAllPlatforms lk now p) = pool_ok cfg p" "ids_of (RebuildAllPlatforms lk now p) = ids_of p"
  by (rule pool_ok_cong ids_cong; simp)+

lemma pool_ok_setEntry: "pool_ok cfg p \<Longrightarrow> entry_ok cfg h e \<Longrightarrow> pool_ok cfg (setEntry h e p)"
  by (auto simp: pool_ok_def GetEntry_setEntry)

lemma ids_setEntry: "ids_of (setEntry h e p) k = (if k = h then set (ne_subscriptionIDs e) else ids_of p k)"
  by (simp add: ids_of_def GetEntry_setEntry)

lemma set_AddSubscriptionID: "set (ne_subscriptionIDs (AddSubscriptionID i e)) = insert i (set (ne_subscriptionIDs e))"
  by (auto simp: AddSubscriptionID_def)

lemma entry_ok_Add: "entry_ok cfg h e \<Longrightarrow> entry_ok cfg h (AddSubscriptionID i e)"
  by (auto simp: entry_ok_def AddSubscriptionID_def table_ok_def)

lemma entry_ok_ensure: "entry_ok cfg h e \<Longrightarrow> entry_ok cfg h (ensureOutbound cfg e) \<and> gates_equal e (ensureOutbound cfg e)"
  by (auto simp: entry_ok_def ensureOutbound_def SetLastError_def table_ok_def gates_equal_def IsCircuitOpen_def GetEgressIP_def
      GetEgressRegion_def HasLatency_def split: option.splits)

lemma entry_ok_New:
  assumes "raw \<noteq> ''''"
  shows "entry_ok cfg h (ensureOutbound cfg (AddSubscriptionID i ((NewNodeEntry cfg h raw)\<lparr>ne_CircuitOpenSince := now\<rparr>)))"
proof -
  have "table_ok (NewNodeEntry cfg h raw)"
    by (auto simp: table_ok_def NewNodeEntry_def NewLatencyTable_def lat_inv_def live_def zeroSlot_def split: option.splits)
  then show ?thesis
    using assms by (auto simp: entry_ok_def ensureOutbound_def SetLastError_def AddSubscriptionID_def NewNodeEntry_def table_ok_def split: option.splits)
qed

lemma subscriptionIDs_ensure [simp]: "ne_subscriptionIDs (ensureOutbound cfg e) = ne_subscriptionIDs e"
  by (auto simp: ensureOutbound_def SetLastError_def split: option.splits)

lemma AddNodeFromSub_ok:
  assumes "pool_ok cfg p" "raw \<noteq> ''''"
  shows "pool_ok cfg (AddNodeFromSub cfg lk now h raw i p)"
    "ids_of (AddNodeFromSub cfg lk now h raw i p) k = (if k = h then insert i (ids_of p h) else ids_of p k)"
proof -
  show "pool_ok cfg (AddNodeFromSub cfg lk now h raw i p)"
  proof (cases "GetEntry h p")
    case None
    let ?e = "AddSubscriptionID i ((NewNodeEntry cfg h raw)\<lparr>ne_CircuitOpenSince := now\<rparr>)"
    have "EnsureNodeOutbound cfg h (setEntry h ?e p) = setEntry h (ensureOutbound cfg ?e) (setEntry h ?e p)"
      by (simp add: EnsureNodeOutbound_def GetEntry_setEntry)
    moreover have "pool_ok cfg (setEntry h (ensureOutbound cfg ?e) (setEntry h ?e p))"
      using assms(1) entry_ok_New [OF assms(2)] by (auto simp: pool_ok_def GetEntry_setEntry)
    ultimately show ?thesis
      by (simp add: AddNodeFromSub_def None)
  next
    case (Some e)
    then show ?thesis
      using assms(1) by (simp add: AddNodeFromSub_def pool_ok_setEntry entry_ok_Add pool_okD)
  qed
  show "ids_of (AddNodeFromSub cfg lk now h raw i p) k = (if k = h then insert i (ids_of p h) else ids_of p k)"
    by (cases "GetEntry h p")
      (auto simp: AddNodeFromSub_def EnsureNodeOutbound_def GetEntry_setEntry ids_setEntry set_AddSubscriptionID NewNodeEntry_def, auto simp: ids_of_def)
qed

lemma RemoveNodeFromSub_ok:
  assumes "pool_ok cfg p"
  shows "pool_ok cfg (RemoveNodeFromSub lk now h i p)"
    "ids_of (RemoveNodeFromSub lk now h i p) k = (if k = h then ids_of p h - {i} else ids_of p k)"
proof -
  let ?p = "RemoveNodeFromSub lk now h i p"
  have get: "GetEntry k ?p = (if k \<noteq> h then GetEntry k p else
     (case GetEntry h p of None \<Rightarrow> None | Some e \<Rightarrow> let ids = remove1 i (ne_subscriptionIDs e) in if ids = [] then None else Some (e\<lparr>ne_subscriptionIDs := ids\<rparr>)))" for k
    by (auto simp: RemoveNodeFromSub_def RemoveSubscriptionID_def Let_def GetEntry_setEntry split: option.splits)
      (auto simp: GetEntry_def gomap_simps)
  have "gm_wf (gp_nodes ?p)"
    using assms by (auto simp: pool_ok_def RemoveNodeFromSub_def RemoveSubscriptionID_def Let_def split: option.splits bool.splits)
  then show "pool_ok cfg ?p"
    using assms by (auto simp: pool_ok_def get entry_ok_def table_ok_def Let_def split: option.splits if_splits)
  show "ids_of ?p k = (if k = h then ids_of p h - {i} else ids_of p k)"
  proof (cases "GetEntry h p")
    case (Some e)
    then have "set (remove1 i (ne_subscriptionIDs e)) = set (ne_subscriptionIDs e) - {i}"
      using pool_okD [OF assms Some] by (simp add: entry_ok_def set_remove1_eq)
    moreover have "ids_of ?p h = set (remove1 i (ne_subscriptionIDs e))"
      by (simp add: ids_of_def get Some Let_def)
    moreover have "k \<noteq> h \<Longrightarrow> ids_of ?p k = ids_of p k" "ids_of p h = set (ne_subscriptionIDs e)"
      by (simp_all add: ids_of_def get Some)
    ultimately show ?thesis
      by simp
  qed (simp add: ids_of_def get)
qed

section \<open>The views follow\<close>

text \<open>A platform asks only about subscriptions that hold the node.\<close>

lemma evaluateNode_subs:
  assumes "\<And>i. i \<in> set (ne_subscriptionIDs e) \<Longrightarrow> look i (ne_Hash e) = look' i (ne_Hash e)"
  shows "evaluateNode plat e (lk\<lparr>lk_sub := Some look, lk_snap := sn\<rparr>) now = evaluateNode plat e (lk\<lparr>lk_sub := Some look', lk_snap := sn\<rparr>) now"
proof -
  have ex: "list_ex (\<lambda>i. Q i (look i (ne_Hash e))) (ne_subscriptionIDs e) = list_ex (\<lambda>i. Q i (look' i (ne_Hash e))) (ne_subscriptionIDs e)" for Q
    using assms by (auto simp: list_ex_iff)
  have "IsDisabledBySubscriptions (Some look) e = IsDisabledBySubscriptions (Some look') e"
    unfolding IsDisabledBySubscriptions_def HasEnabledSubscription_def
    using ex [of "\<lambda>_ r. case r of Some (_, enabled, _) \<Rightarrow> enabled | None \<Rightarrow> False"] by simp
  moreover have "referencedBySubscription e w (Some look) = referencedBySubscription e w (Some look')" for w
    unfolding referencedBySubscription_def
    using ex [of "\<lambda>i r. containsFold w i \<and> (case r of Some (_, enabled, _) \<Rightarrow> enabled | None \<Rightarrow> False)"] by simp
  moreover have "matchSubs f look (ne_Hash e) is en m = matchSubs f look' (ne_Hash e) is en m"
    if "\<And>i. i \<in> set is \<Longrightarrow> look i (ne_Hash e) = look' i (ne_Hash e)" for f "is" en m
    using that by (induction "is" arbitrary: en m) (simp_all split: option.splits prod.splits bool.splits)
  then have "MatchTagFilter f (Some look) e = MatchTagFilter f (Some look') e" for f
    using assms by (simp add: MatchTagFilter_def)
  moreover have "qualityVerdict c e (lk\<lparr>lk_sub := s, lk_snap := sn\<rparr>) now = qualityVerdict c e (lk\<lparr>lk_snap := sn\<rparr>) now" for c s
    by (simp add: qualityVerdict_def split: option.split)
  ultimately show ?thesis
    unfolding evaluateNode_def MatchNodeCriteria_def matchSelection_def by simp
qed

definition relabelled :: "(string, Subscription) gomap \<Rightarrow> (string, Subscription) gomap \<Rightarrow> GlobalNodePool \<Rightarrow> Hash set" where
  "relabelled subs subs' p = {h. \<exists>i\<in>ids_of p h. MakeSubLookup subs i h \<noteq> MakeSubLookup subs' i h}"

lemma behind_subs:
  assumes "behind (subLookups lk subs) D p" "pool_ok cfg p" "D \<union> relabelled subs subs' p \<subseteq> D'"
  shows "behind (subLookups lk subs') D' p"
proof (rule behind_change [OF assms(1) refl])
  show "routable (subLookups lk subs') p plat h = routable (subLookups lk subs) p plat h" if "h \<notin> D'" for plat h
  proof (cases "GetEntry h p")
    case (Some e)
    have h: "ne_Hash e = h"
      using pool_okD [OF assms(2) Some] by (simp add: entry_ok_def)
    have "ids_of p h = set (ne_subscriptionIDs e)" "h \<notin> relabelled subs subs' p"
      using Some assms(3) that by (auto simp: ids_of_def)
    then have same: "MakeSubLookup subs i h = MakeSubLookup subs' i h" if "i \<in> set (ne_subscriptionIDs e)" for i
      using that by (auto simp: relabelled_def)
    show ?thesis
      unfolding routable_def Some option.case poolLookups_def subLookups_def
      using evaluateNode_subs [of e "MakeSubLookup subs'" "MakeSubLookup subs" plat "gp_qualitySnapshot p" lk 0] same h by simp
  qed (simp add: routable_def)
qed (use assms(3) in auto)

definition sound :: "PoolConfig \<Rightarrow> Lookups \<Rightarrow> Hash set \<Rightarrow> GlobalNodePool \<Rightarrow> bool" where
  "sound cfg lk D p \<longleftrightarrow> pool_ok cfg p \<and> index_inv p \<and> behind lk D p"

lemma sound_mono: "sound cfg lk D p \<Longrightarrow> D \<subseteq> D' \<Longrightarrow> sound cfg lk D' p"
  by (auto simp: sound_def intro: behind_mono)

lemma sound_subs:
  "sound cfg (subLookups lk subs) D p \<Longrightarrow> D \<union> relabelled subs subs' p \<subseteq> D' \<Longrightarrow> sound cfg (subLookups lk subs') D' p"
  by (auto simp: sound_def intro: behind_subs)

lemma sound_Add:
  "sound cfg lk D p \<Longrightarrow> raw \<noteq> '''' \<Longrightarrow> sound cfg lk (D - {h}) (AddNodeFromSub cfg lk now h raw i p)"
  by (simp add: sound_def AddNodeFromSub_ok index_inv_Add behind_Add)

lemma sound_Remove: "sound cfg lk D p \<Longrightarrow> sound cfg lk (D - {h}) (RemoveNodeFromSub lk now h i p)"
  by (simp add: sound_def RemoveNodeFromSub_ok index_inv_Remove behind_Remove)

lemma sound_removals:
  "sound cfg lk D p \<Longrightarrow> sound cfg lk (D - set hs) (fold (\<lambda>h. RemoveNodeFromSub lk now h i) hs p) \<and>
     ids_of (fold (\<lambda>h. RemoveNodeFromSub lk now h i) hs p) k = (if k \<in> set hs then ids_of p k - {i} else ids_of p k)"
proof (induction hs arbitrary: D p)
  case (Cons h hs)
  have "pool_ok cfg p"
    using Cons.prems by (simp add: sound_def)
  note ids = RemoveNodeFromSub_ok(2) [OF this, of lk now h i k]
  have D: "D - {h} - set hs = D - set (h # hs)"
    by auto
  show ?case
    using Cons.IH [OF sound_Remove [OF Cons.prems, of h now i]] unfolding D ids by auto
qed simp

lemma sound_additions:
  assumes "sound cfg lk D p" "\<forall>h\<in>set hs. wasEvicted merged h \<or> gm_get raws h '''' \<noteq> '''' \<or> GetEntry h p \<noteq> None"
  shows "sound cfg lk (D - {h \<in> set hs. \<not> wasEvicted merged h}) (fold (addRefreshed cfg lk now i merged raws) hs p) \<and>
     ids_of (fold (addRefreshed cfg lk now i merged raws) hs p) k =
       (if k \<in> set hs \<and> \<not> wasEvicted merged k then insert i (ids_of p k) else ids_of p k)"
  using assms
proof (induction hs arbitrary: D p)
  case (Cons h hs)
  have ok: "pool_ok cfg p"
    using Cons.prems by (simp add: sound_def)
  show ?case
  proof (cases "wasEvicted merged h")
    case True
    have "addRefreshed cfg lk now i merged raws h p = p"
      using True by (simp add: addRefreshed_def)
    moreover have "{g \<in> set (h # hs). \<not> wasEvicted merged g} = {g \<in> set hs. \<not> wasEvicted merged g}"
      using True by auto
    moreover have "k \<in> set (h # hs) \<and> \<not> wasEvicted merged k \<longleftrightarrow> k \<in> set hs \<and> \<not> wasEvicted merged k"
      using True by auto
    moreover have "\<forall>g\<in>set hs. wasEvicted merged g \<or> gm_get raws g '''' \<noteq> '''' \<or> GetEntry g p \<noteq> None"
      using Cons.prems(2) by simp
    ultimately show ?thesis
      using Cons.IH [OF Cons.prems(1)] by (simp only: fold_simps)
  next
    case False
    let ?raw = "if gm_get raws h '''' = '''' then (case GetEntry h p of None \<Rightarrow> '''' | Some e \<Rightarrow> ne_RawOptions e) else gm_get raws h ''''"
    have "?raw \<noteq> ''''"
      using False Cons.prems(2) pool_okD [OF ok, of h] by (cases "GetEntry h p") (auto simp: entry_ok_def)
    then obtain raw where raw: "raw \<noteq> ''''" and p: "addRefreshed cfg lk now i merged raws h p = AddNodeFromSub cfg lk now h raw i p"
      using False by (simp only: addRefreshed_def Let_def if_False)
    note ids = AddNodeFromSub_ok(2) [OF ok raw, of lk now h i]
    let ?p = "AddNodeFromSub cfg lk now h raw i p"
    have ok': "pool_ok cfg ?p"
      by (rule AddNodeFromSub_ok(1) [OF ok raw])
    have "GetEntry g ?p \<noteq> None" if "GetEntry g p \<noteq> None" for g
      using that ids_empty [OF ok, of g] ids_empty [OF ok', of g] by (auto simp: ids split: if_splits)
    then have "\<forall>g\<in>set hs. wasEvicted merged g \<or> gm_get raws g '''' \<noteq> '''' \<or> GetEntry g ?p \<noteq> None"
      using Cons.prems(2) by (meson list.set_intros(2))
    note IH = Cons.IH [OF sound_Add [OF Cons.prems(1) raw, of h now i] this]
    have D: "D - {h} - {g \<in> set hs. \<not> wasEvicted merged g} = D - {g \<in> set (h # hs). \<not> wasEvicted merged g}"
      using False by auto
    show ?thesis
      using IH False unfolding D ids by (simp add: p)
  qed
qed simp

section \<open>The invariant of the topology\<close>

definition live_in :: "ManagedNodes \<Rightarrow> Hash \<Rightarrow> bool" where
  "live_in m h \<longleftrightarrow> map_of m h \<noteq> None \<and> \<not> wasEvicted m h"

definition holds :: "(string, Subscription) gomap \<Rightarrow> string \<Rightarrow> Hash \<Rightarrow> bool" where
  "holds subs i h = (case map_of subs i of None \<Rightarrow> False | Some sub \<Rightarrow> live_in (sb_managedNodes sub) h)"

definition subs_ok :: "(string, Subscription) gomap \<Rightarrow> bool" where
  "subs_ok subs \<longleftrightarrow> gm_wf subs \<and> (\<forall>i sub. map_of subs i = Some sub \<longrightarrow> sb_ID sub = i \<and> gm_wf (sb_managedNodes sub))"

definition topo_inv :: "PoolConfig \<Rightarrow> Lookups \<Rightarrow> topology \<Rightarrow> bool" where
  "topo_inv cfg lk t \<longleftrightarrow> sound cfg (subLookups lk (tp_subs t)) {} (tp_pool t) \<and> subs_ok (tp_subs t) \<and>
     (\<forall>i h. i \<in> ids_of (tp_pool t) h \<longleftrightarrow> holds (tp_subs t) i h)"

lemma MakeSubLookup_holds: "MakeSubLookup subs i h = None \<longleftrightarrow> \<not> holds subs i h"
  by (auto simp: MakeSubLookup_def holds_def live_in_def wasEvicted_def split: option.splits)

lemma holds_update: "holds (AList.update i sub subs) j h = (if j = i then live_in (sb_managedNodes sub) h else holds subs j h)"
  by (simp add: holds_def gomap_simps)

lemma relabelled_update: "relabelled subs (AList.update i sub subs) p \<subseteq> {h. i \<in> ids_of p h}"
  by (auto simp: relabelled_def MakeSubLookup_def gomap_simps split: if_splits)

lemma MakeSubLookup_same:
  "sb_name s = sb_name s' \<Longrightarrow> sb_enabled s = sb_enabled s' \<Longrightarrow> sb_managedNodes s = sb_managedNodes s' \<Longrightarrow>
   MakeSubLookup (AList.update i s subs) = MakeSubLookup (AList.update i s' subs)"
  by (auto simp: MakeSubLookup_def gomap_simps fun_eq_iff split: option.splits)

lemma subs_ok_update: "subs_ok subs \<Longrightarrow> sb_ID sub = i \<Longrightarrow> gm_wf (sb_managedNodes sub) \<Longrightarrow> subs_ok (AList.update i sub subs)"
  by (auto simp: subs_ok_def gomap_simps)

text \<open>A subscription is replaced: what is left to show is how the pool followed.\<close>

lemma topo_inv_update:
  assumes "topo_inv cfg lk t" "sb_ID sub = i" "gm_wf (sb_managedNodes sub)"
    and "sound cfg (subLookups lk (AList.update i sub (tp_subs t))) {} p"
    and "\<And>k. ids_of p k = (if live_in (sb_managedNodes sub) k then insert i (ids_of (tp_pool t) k) else ids_of (tp_pool t) k - {i})"
  shows "topo_inv cfg lk (t\<lparr>tp_pool := p, tp_subs := AList.update i sub (tp_subs t)\<rparr>)"
  using assms(1-4) by (auto simp: topo_inv_def subs_ok_update holds_update assms(5))

text \<open>A change that neither the nodes nor the tags of a subscription show leaves the pool as it is.\<close>

lemma topo_inv_fields:
  assumes "topo_inv cfg lk t" "map_of (tp_subs t) i = Some s"
    and "sb_ID s' = sb_ID s" "sb_name s' = sb_name s" "sb_enabled s' = sb_enabled s" "sb_managedNodes s' = sb_managedNodes s"
  shows "topo_inv cfg lk (t\<lparr>tp_subs := AList.update i s' (tp_subs t)\<rparr>)"
proof -
  have s: "sb_ID s' = i" "gm_wf (sb_managedNodes s')"
    using assms by (auto simp: topo_inv_def subs_ok_def)
  have "MakeSubLookup (AList.update i s' (tp_subs t)) = MakeSubLookup (tp_subs t)"
    using assms(2-6) by (auto simp: MakeSubLookup_def gomap_simps fun_eq_iff split: option.splits)
  then have snd: "sound cfg (subLookups lk (AList.update i s' (tp_subs t))) {} (tp_pool t)"
    using assms(1) by (simp add: topo_inv_def subLookups_def)
  have "i \<in> ids_of (tp_pool t) k \<longleftrightarrow> live_in (sb_managedNodes s') k" for k
    using assms(1,2,6) by (simp add: topo_inv_def holds_def)
  then have "ids_of (tp_pool t) k = (if live_in (sb_managedNodes s') k then insert i (ids_of (tp_pool t) k) else ids_of (tp_pool t) k - {i})" for k
    by auto
  from topo_inv_update [OF assms(1) s snd this] show ?thesis
    by (cases t) simp
qed

section \<open>Refreshes keep it\<close>

lemma refreshedNodes_raws:
  "gm_wf (refreshedNodes hashOf parsed) \<and> (\<forall>h. \<not> wasEvicted (refreshedNodes hashOf parsed) h) \<and>
   (\<forall>h. map_of (refreshedNodes hashOf parsed) h = None \<longleftrightarrow> map_of (rawByHash hashOf parsed) h = None) \<and>
   (\<forall>h raw. map_of (rawByHash hashOf parsed) h = Some raw \<longrightarrow> raw \<in> fst ` set parsed)"
proof (induction parsed rule: rev_induct)
  case Nil
  then show ?case
    by (simp add: refreshedNodes_def rawByHash_def wasEvicted_def)
next
  case (snoc x xs)
  obtain raw tag where x: "x = (raw, tag)"
    by fastforce
  let ?old = "gm_get (refreshedNodes hashOf xs) (hashOf raw) \<lparr>mn_Tags = [], mn_Evicted = False\<rparr>"
  have nodes: "refreshedNodes hashOf (xs @ [x]) = AList.update (hashOf raw) (?old\<lparr>mn_Tags := mn_Tags ?old @ [tag]\<rparr>) (refreshedNodes hashOf xs)"
    by (simp add: refreshedNodes_def x Let_def)
  have raws: "rawByHash hashOf (xs @ [x]) =
     (if map_of (rawByHash hashOf xs) (hashOf raw) = None then AList.update (hashOf raw) raw (rawByHash hashOf xs) else rawByHash hashOf xs)"
    by (simp add: rawByHash_def x)
  have old: "\<not> mn_Evicted ?old"
    using snoc.IH by (auto simp: wasEvicted_def gm_get_def split: option.splits)
  show ?case
    unfolding nodes raws using snoc.IH old by (auto simp: wasEvicted_def gomap_simps x split: if_splits)
qed

lemma fold_update:
  "gm_wf m \<Longrightarrow> gm_wf (fold (\<lambda>(k, v). AList.update k v) xs m)"
  "gm_wf xs \<Longrightarrow> map_of (fold (\<lambda>(k, v). AList.update k v) xs m) h = (case map_of xs h of None \<Rightarrow> map_of m h | Some v \<Rightarrow> Some v)"
proof -
  show "gm_wf m \<Longrightarrow> gm_wf (fold (\<lambda>(k, v). AList.update k v) xs m)"
    by (induction xs arbitrary: m) auto
  show "gm_wf xs \<Longrightarrow> map_of (fold (\<lambda>(k, v). AList.update k v) xs m) h = (case map_of xs h of None \<Rightarrow> map_of m h | Some v \<Rightarrow> Some v)"
  proof (induction xs arbitrary: m)
    case (Cons x xs)
    have wf: "gm_wf xs" "map_of xs (fst x) = None"
      using Cons.prems by (auto simp: map_of_eq_None_iff)
    show ?case
      using Cons.IH [OF wf(1), of "AList.update (fst x) (snd x) m"] wf(2)
      by (cases x) (auto simp: gomap_simps split: option.splits)
  qed simp
qed

lemma map_of_inherit: "map_of (inheritEvicted old m) h = map_option (\<lambda>managed. if wasEvicted old h then managed\<lparr>mn_Evicted := True\<rparr> else managed) (map_of m h)"
  by (induction m) (auto simp: inheritEvicted_def)

lemma inheritEvicted_wf: "gm_wf m \<Longrightarrow> gm_wf (inheritEvicted old m)"
  by (simp add: inheritEvicted_def comp_def split_beta)

text \<open>The nodes after a refresh: an old eviction stays, and whatever is live has options somewhere.\<close>

lemma merged_nodes:
  fixes inc p old hashOf parsed
  defines "refreshed \<equiv> refreshedNodes hashOf parsed"
  defines "merged \<equiv> inheritEvicted old (mergeRefresh inc p old refreshed)"
  assumes "gm_wf old"
  shows "gm_wf merged" "wasEvicted merged h \<longleftrightarrow> wasEvicted old h \<and> map_of merged h \<noteq> None"
    "live_in merged h \<Longrightarrow> map_of refreshed h \<noteq> None \<or> GetEntry h p \<noteq> None"
proof -
  let ?keep = "\<lambda>h managed. mn_Evicted managed \<or> (case GetEntry h p of None \<Rightarrow> False | Some e \<Rightarrow> \<not> shouldRemoveUnhealthyNodeForIncrementalMode e)"
  have ref: "gm_wf refreshed" "\<not> wasEvicted refreshed h" for h
    using refreshedNodes_raws [of hashOf parsed] by (auto simp: refreshed_def)
  have kept: "gm_wf (keptAlive p old)" "map_of (keptAlive p old) h = (case map_of old h of None \<Rightarrow> None | Some m \<Rightarrow> if ?keep h m then Some m else None)" for h
    using assms(3) unfolding keptAlive_def by (simp_all add: map_of_gm_filter)
  have get: "map_of (mergeRefresh inc p old refreshed) h =
     (if inc then case map_of refreshed h of None \<Rightarrow> map_of (keptAlive p old) h | Some m \<Rightarrow> Some m else map_of refreshed h)"
    by (simp add: mergeRefresh_def fold_update(2) ref(1))
  show "gm_wf merged"
    using ref(1) kept(1) by (simp add: merged_def inheritEvicted_wf mergeRefresh_def fold_update(1))
  have ev: "mn_Evicted m \<Longrightarrow> wasEvicted old h" if "map_of (mergeRefresh inc p old refreshed) h = Some m" for m
    using that ref(2) [of h] kept(2) [of h] by (auto simp: get wasEvicted_def split: option.splits if_splits)
  then show "wasEvicted merged h \<longleftrightarrow> wasEvicted old h \<and> map_of merged h \<noteq> None"
    unfolding merged_def wasEvicted_def [of "inheritEvicted _ _"] map_of_inherit by (auto split: option.splits)
  show "map_of refreshed h \<noteq> None \<or> GetEntry h p \<noteq> None" if "live_in merged h"
    using that kept(2) [of h]
    by (auto simp: merged_def live_in_def wasEvicted_def map_of_inherit get split: option.splits if_splits)
qed

lemma DiffHashes_sets:
  assumes "DiffHashes old new = (added, kept, removed)"
  shows "set (added @ kept) = {h. map_of new h \<noteq> None}" "set removed = {h. map_of old h \<noteq> None \<and> map_of new h = None}"
proof -
  have keys: "set (map fst m) = {h. map_of m h \<noteq> None}" for m :: ManagedNodes
    by (auto simp only: map_of_eq_None_iff set_map)
  have sets: "added = filter (\<lambda>h. map_of old h = None) (map fst new)" "kept = filter (\<lambda>h. map_of old h \<noteq> None) (map fst new)"
    "removed = filter (\<lambda>h. map_of new h = None) (map fst old)"
    using assms by (simp_all only: DiffHashes_def prod.inject)
  show "set (added @ kept) = {h. map_of new h \<noteq> None}" "set removed = {h. map_of old h \<noteq> None \<and> map_of new h = None}"
    unfolding sets set_append set_filter keys by blast+
qed

definition readable :: "parsed \<Rightarrow> bool" where
  "readable parsed \<longleftrightarrow> (\<forall>(raw, tag)\<in>set parsed. raw \<noteq> '''')"

lemma rawByHash_readable:
  assumes "readable parsed" "map_of (refreshedNodes hashOf parsed) h \<noteq> None"
  shows "gm_get (rawByHash hashOf parsed) h '''' \<noteq> ''''"
proof -
  obtain raw where raw: "map_of (rawByHash hashOf parsed) h = Some raw" "raw \<in> fst ` set parsed"
    using refreshedNodes_raws [of hashOf parsed] assms(2) by (cases "map_of (rawByHash hashOf parsed) h") simp_all
  obtain tag where "(raw, tag) \<in> set parsed"
    using raw(2) by auto
  then have "raw \<noteq> ''''"
    using bspec [OF assms(1) [unfolded readable_def]] by auto
  then show ?thesis
    by (simp add: gm_get_def raw(1))
qed

text \<open>The new nodes of a subscription are brought into the pool, the ones it dropped are taken out.\<close>

lemma replace_nodes:
  assumes inv: "topo_inv cfg lk t" and sub: "map_of (tp_subs t) i = Some sub" and wf: "gm_wf merged"
    and ev: "\<And>h. wasEvicted merged h \<longleftrightarrow> wasEvicted (sb_managedNodes sub) h \<and> map_of merged h \<noteq> None"
    and raws: "\<And>h. live_in merged h \<Longrightarrow> gm_get raws h '''' \<noteq> '''' \<or> GetEntry h (tp_pool t) \<noteq> None"
    and diff: "DiffHashes (sb_managedNodes sub) merged = (added, kept, removed)"
    and lk1: "lk1 = subLookups lk (AList.update i (sub\<lparr>sb_managedNodes := merged\<rparr>) (tp_subs t))"
    and p2: "p2 = fold (\<lambda>h. RemoveNodeFromSub lk1 now h i) removed (fold (addRefreshed cfg lk1 now i merged raws) (added @ kept) (tp_pool t))"
  shows "sound cfg lk1 {} p2" "ids_of p2 k = (if live_in merged k then insert i (ids_of (tp_pool t) k) else ids_of (tp_pool t) k - {i})"
proof -
  let ?old = "sb_managedNodes sub" and ?p1 = "fold (addRefreshed cfg lk1 now i merged raws) (added @ kept) (tp_pool t)"
  have old: "i \<in> ids_of (tp_pool t) h \<longleftrightarrow> live_in ?old h" for h
    using inv sub by (simp add: topo_inv_def holds_def)
  note keys = DiffHashes_sets [OF diff]
  have new: "{h \<in> set (added @ kept). \<not> wasEvicted merged h} = {h. live_in merged h}"
    unfolding keys live_in_def by auto
  let ?D = "{h. live_in ?old h}"
  have "relabelled (tp_subs t) (AList.update i (sub\<lparr>sb_managedNodes := merged\<rparr>) (tp_subs t)) (tp_pool t) \<subseteq> ?D"
    using relabelled_update old by blast
  then have s0: "sound cfg lk1 ?D (tp_pool t)"
    using inv unfolding lk1 topo_inv_def by (blast intro: sound_subs)
  have "\<forall>h\<in>set (added @ kept). wasEvicted merged h \<or> gm_get raws h '''' \<noteq> '''' \<or> GetEntry h (tp_pool t) \<noteq> None"
    using raws unfolding keys live_in_def by auto
  note adds = sound_additions [OF s0 this, of now i]
  have s1: "sound cfg lk1 (?D - {h. live_in merged h}) ?p1"
    using adds unfolding new by blast
  have ids1: "ids_of ?p1 k = (if live_in merged k then insert i (ids_of (tp_pool t) k) else ids_of (tp_pool t) k)"
    using adds unfolding keys live_in_def by auto
  note rems = sound_removals [OF s1, of removed now i]
  have "?D - {h. live_in merged h} - set removed = {}"
    unfolding keys using ev by (auto simp: live_in_def)
  then show "sound cfg lk1 {} p2"
    using rems unfolding p2 by metis
  have "ids_of p2 k = (if k \<in> set removed then ids_of ?p1 k - {i} else ids_of ?p1 k)"
    using rems unfolding p2 by blast
  moreover have "i \<notin> ids_of (tp_pool t) k" if "k \<notin> set removed" "\<not> live_in merged k"
    using that ev [of k] unfolding keys old live_in_def by auto
  moreover have "\<not> live_in merged k" if "k \<in> set removed"
    using that unfolding keys live_in_def by simp
  ultimately show "ids_of p2 k = (if live_in merged k then insert i (ids_of (tp_pool t) k) else ids_of (tp_pool t) k - {i})"
    unfolding ids1 by auto
qed

lemma applyRefresh_inv:
  assumes inv: "topo_inv cfg lk t" and sub: "map_of (tp_subs t) i = Some sub" and raws: "readable parsed"
  shows "topo_inv cfg lk (applyRefresh cfg lk now hashOf a parsed sub t)"
proof (cases "stale a sub")
  case False
  let ?merged = "inheritEvicted (sb_managedNodes sub) (mergeRefresh (sb_incrementalAliveNodes sub) (tp_pool t) (sb_managedNodes sub) (refreshedNodes hashOf parsed))"
  let ?final = "sub\<lparr>sb_managedNodes := ?merged, sb_LastCheckedNs := now, sb_LastUpdatedNs := now, sb_lastAppliedSeq := at_seq a, sb_LastError := ''''\<rparr>"
  have ok: "sb_ID sub = i" "gm_wf (sb_managedNodes sub)"
    using inv sub by (auto simp: topo_inv_def subs_ok_def)
  note merged = merged_nodes [OF ok(2), where hashOf = hashOf and parsed = parsed and inc = "sb_incrementalAliveNodes sub" and p = "tp_pool t"]
  obtain added kept removed where diff: "DiffHashes (sb_managedNodes sub) ?merged = (added, kept, removed)"
    by (metis prod_cases3)
  have "gm_get (rawByHash hashOf parsed) h '''' \<noteq> '''' \<or> GetEntry h (tp_pool t) \<noteq> None" if "live_in ?merged h" for h
    using merged(3) [OF that] rawByHash_readable [OF raws] by blast
  note new = replace_nodes [OF inv sub merged(1,2) this diff refl refl, of now]
  let ?subs1 = "AList.update i (sub\<lparr>sb_managedNodes := ?merged\<rparr>) (tp_subs t)"
  have subs: "storeObject i ?final ((storeObject i (sub\<lparr>sb_managedNodes := ?merged\<rparr>) t)\<lparr>tp_pool := p\<rparr>) =
      t\<lparr>tp_pool := p, tp_subs := AList.update i ?final (tp_subs t)\<rparr>" "tp_subs (storeObject i (sub\<lparr>sb_managedNodes := ?merged\<rparr>) t) = ?subs1" for p
    using sub by (simp_all add: storeObject_def gomap_simps)
  have "subLookups lk (AList.update i ?final (tp_subs t)) = subLookups lk ?subs1"
    unfolding subLookups_def by (subst MakeSubLookup_same [of ?final "sub\<lparr>sb_managedNodes := ?merged\<rparr>"]) simp_all
  then show ?thesis
    unfolding applyRefresh_def Let_def diff prod.case ok(1) subs if_not_P [OF False]
    by (intro topo_inv_update [OF inv]) (use new ok merged(1) in simp_all)
qed (simp add: applyRefresh_def inv)

lemma storeObject_registered: "map_of (tp_subs t) i = Some s \<Longrightarrow> storeObject i sub t = t\<lparr>tp_subs := AList.update i sub (tp_subs t)\<rparr>"
  by (simp add: storeObject_def)

lemma finishRefresh_inv:
  assumes inv: "topo_inv cfg lk t" and "map_of (tp_gone t) i = None \<or> map_of (tp_subs t) i \<noteq> None"
    and "\<And>parsed. result = Parsed parsed \<Longrightarrow> readable parsed"
  shows "topo_inv cfg lk (finishRefresh cfg lk now hashOf i a result t)"
proof (cases "map_of (tp_subs t) i")
  case None
  then show ?thesis
    using assms by (simp add: finishRefresh_def objectOf_def)
next
  case (Some sub)
  have "topo_inv cfg lk (storeObject i (handleUpdateFailure now a err sub) t)" for err
    unfolding storeObject_registered [OF Some] by (rule topo_inv_fields [OF inv Some]) (simp_all add: handleUpdateFailure_def)
  then show ?thesis
    using applyRefresh_inv [OF inv Some] assms(3) by (auto simp: finishRefresh_def objectOf_def Some Let_def split: fetched.splits)
qed

lemma beginRefresh_inv: "topo_inv cfg lk t \<Longrightarrow> topo_inv cfg lk (snd (beginRefresh i t))"
  by (auto simp: beginRefresh_def Let_def intro: topo_inv_fields split: option.splits)

section \<open>The other operations keep it\<close>

lemma topo_inv_new:
  assumes inv: "topo_inv cfg lk t" and new: "map_of (tp_subs t) (sb_ID sub) = None" and "sb_managedNodes sub = []"
  shows "topo_inv cfg lk (Register sub t)"
proof -
  have none: "\<not> live_in (sb_managedNodes sub) k" "sb_ID sub \<notin> ids_of (tp_pool t) k" for k
    using inv new assms(3) by (simp_all add: topo_inv_def holds_def live_in_def)
  have "relabelled (tp_subs t) (AList.update (sb_ID sub) sub (tp_subs t)) (tp_pool t) = {}"
    using relabelled_update [of "tp_subs t" "sb_ID sub" sub "tp_pool t"] none(2) by blast
  then have "sound cfg (subLookups lk (AList.update (sb_ID sub) sub (tp_subs t))) {} (tp_pool t)"
    using inv by (auto simp: topo_inv_def intro: sound_subs)
  from topo_inv_update [OF inv refl _ this] show ?thesis
    using none assms(3) by (cases t) (simp add: Register_def)
qed

lemma SetFields_same:
  "sb_ID (SetFetchConfig u n s) = sb_ID s" "sb_name (SetFetchConfig u n s) = sb_name s" "sb_enabled (SetFetchConfig u n s) = sb_enabled s"
  "sb_managedNodes (SetFetchConfig u n s) = sb_managedNodes s" "sb_ID (SetContent c s) = sb_ID s" "sb_name (SetContent c s) = sb_name s"
  "sb_enabled (SetContent c s) = sb_enabled s" "sb_managedNodes (SetContent c s) = sb_managedNodes s"
  "sb_ID (SetSourceType y s) = sb_ID s" "sb_managedNodes (SetSourceType y s) = sb_managedNodes s"
  by (simp_all add: SetFetchConfig_def SetContent_def SetSourceType_def Let_def)

lemma CreateSubscription_inv:
  "topo_inv cfg lk t \<Longrightarrow> map_of (tp_subs t) i = None \<Longrightarrow> topo_inv cfg lk (CreateSubscription i now ss t)"
  unfolding CreateSubscription_def Let_def by (rule topo_inv_new) (simp_all add: SetFields_same NewSubscription_def)

lemma ensure_inv:
  assumes "sound cfg lk D p"
  shows "sound cfg lk D (EnsureNodeOutbound cfg h p)" "ids_of (EnsureNodeOutbound cfg h p) = ids_of p"
proof -
  show "ids_of (EnsureNodeOutbound cfg h p) = ids_of p"
    by (auto simp: ids_of_def fun_eq_iff split: option.splits)
  show "sound cfg lk D (EnsureNodeOutbound cfg h p)"
  proof (cases "GetEntry h p")
    case (Some e)
    note ok = entry_ok_ensure [OF pool_okD [OF _ Some]]
    have "pool_ok cfg (setEntry h (ensureOutbound cfg e) p)" "index_inv (setEntry h (ensureOutbound cfg e) p)"
      using assms ok by (auto simp: sound_def Some intro!: pool_ok_setEntry index_inv_setEntry)
    moreover have "behind lk D (setEntry h (ensureOutbound cfg e) p)"
      using assms ok by (auto simp: sound_def GetEntry_setEntry intro!: behind_gates [OF _ _ _ _ Some])
    ultimately show ?thesis
      by (simp add: EnsureNodeOutbound_def Some sound_def)
  qed (use assms in \<open>simp add: EnsureNodeOutbound_def\<close>)
qed

lemma ensures_inv:
  "sound cfg lk D p \<Longrightarrow> sound cfg lk D (fold (\<lambda>h p. if P h p then p else EnsureNodeOutbound cfg h p) hs p) \<and>
     ids_of (fold (\<lambda>h p. if P h p then p else EnsureNodeOutbound cfg h p) hs p) = ids_of p"
  by (induction hs arbitrary: p) (simp_all add: ensure_inv)

lemma topo_ids: "topo_inv cfg lk t \<Longrightarrow> map_of (tp_subs t) i = Some sub \<Longrightarrow> i \<in> ids_of (tp_pool t) k \<longleftrightarrow> live_in (sb_managedNodes sub) k"
  by (simp add: topo_inv_def holds_def)

lemma topo_sub: "topo_inv cfg lk t \<Longrightarrow> map_of (tp_subs t) i = Some sub \<Longrightarrow> sb_ID sub = i \<and> gm_wf (sb_managedNodes sub)"
  by (simp add: topo_inv_def subs_ok_def)

lemma SetSubscriptionEnabled_inv:
  assumes inv: "topo_inv cfg lk t"
  shows "topo_inv cfg lk (SetSubscriptionEnabled cfg lk now i enabled t)"
proof (cases "map_of (tp_subs t) i")
  case (Some sub)
  let ?subs = "AList.update i (sub\<lparr>sb_enabled := enabled\<rparr>) (tp_subs t)"
  let ?p1 = "RebuildAllPlatforms (subLookups lk ?subs) now (tp_pool t)"
  have ok: "pool_ok cfg (tp_pool t)" "index_inv (tp_pool t)" "behind (subLookups lk (tp_subs t)) {} (tp_pool t)"
    using inv by (simp_all add: topo_inv_def sound_def)
  have "\<forall>(j, plat)\<in>set (gp_platformByID (tp_pool t)). timeless plat"
    using behindD(1) [OF ok(3)] by blast
  moreover have "gm_wf (gp_nodes (tp_pool t))"
    using ok(1) by (simp add: pool_ok_def)
  ultimately have "sound cfg (subLookups lk ?subs) {} ?p1"
    using ok(1,2) by (simp add: sound_def behind_rebuild)
  note ens = ensures_inv [OF this, of "IsNodeDisabled (subLookups lk ?subs)"]
  show ?thesis
    unfolding SetSubscriptionEnabled_def Some option.case Let_def
    by (rule topo_inv_update [OF inv]) (use ens topo_sub [OF inv Some] topo_ids [OF inv Some] in auto)
qed (simp add: SetSubscriptionEnabled_def inv)

lemma again_additions:
  assumes "pool_ok cfg p" "\<forall>(h, m)\<in>set ms. wasEvicted merged h = mn_Evicted m"
  shows "fold (\<lambda>(h, managed) p. if mn_Evicted managed then p
      else case GetEntry h p of None \<Rightarrow> p | Some e \<Rightarrow> AddNodeFromSub cfg lk now h (ne_RawOptions e) i p) ms p =
    fold (addRefreshed cfg lk now i merged []) (map fst ms) p"
  using assms
proof (induction ms arbitrary: p)
  case (Cons x ms)
  obtain h m where x: "x = (h, m)"
    by fastforce
  show ?case
  proof (cases "mn_Evicted m \<or> GetEntry h p = None")
    case True
    then show ?thesis
      using Cons by (auto simp: x addRefreshed_def Let_def gm_get_def)
  next
    case False
    then obtain e where e: "GetEntry h p = Some e" "\<not> mn_Evicted m"
      by auto
    then have raw: "ne_RawOptions e \<noteq> ''''"
      using pool_okD [OF Cons.prems(1)] by (simp add: entry_ok_def)
    have "addRefreshed cfg lk now i merged [] h p = AddNodeFromSub cfg lk now h (ne_RawOptions e) i p"
      using Cons.prems(2) e raw by (simp add: addRefreshed_def gm_get_def x)
    then show ?thesis
      using Cons.IH [OF AddNodeFromSub_ok(1) [OF Cons.prems(1) raw]] Cons.prems(2) e by (simp add: x)
  qed
qed simp

lemma RenameSubscription_inv:
  assumes inv: "topo_inv cfg lk t"
  shows "topo_inv cfg lk (RenameSubscription cfg lk now i newName t)"
proof (cases "map_of (tp_subs t) i")
  case (Some sub)
  let ?subs = "AList.update i (sub\<lparr>sb_name := newName\<rparr>) (tp_subs t)" and ?m = "sb_managedNodes sub"
  note ids = topo_ids [OF inv Some]
  have ok: "pool_ok cfg (tp_pool t)" "gm_wf ?m"
    using inv topo_sub [OF inv Some] by (simp_all add: topo_inv_def sound_def)
  have ev: "\<forall>(h, m)\<in>set ?m. wasEvicted ?m h = mn_Evicted m"
    using ok(2) by (auto simp: wasEvicted_def)
  have keys: "set (map fst ?m) = {h. map_of ?m h \<noteq> None}"
    by (auto simp only: map_of_eq_None_iff set_map)
  have "relabelled (tp_subs t) ?subs (tp_pool t) \<subseteq> {h. live_in ?m h}"
    using relabelled_update ids by blast
  then have s0: "sound cfg (subLookups lk ?subs) {h. live_in ?m h} (tp_pool t)"
    using inv unfolding topo_inv_def by (blast intro: sound_subs)
  have "\<forall>h\<in>set (map fst ?m). wasEvicted ?m h \<or> gm_get [] h '''' \<noteq> '''' \<or> GetEntry h (tp_pool t) \<noteq> None"
    using ids ids_empty [OF ok(1)] unfolding keys live_in_def by blast
  note adds = sound_additions [OF s0 this, of now i]
  have "{h \<in> set (map fst ?m). \<not> wasEvicted ?m h} = {h. live_in ?m h}"
    unfolding keys live_in_def by auto
  then show ?thesis
    unfolding RenameSubscription_def Some option.case Let_def again_additions [OF ok(1) ev]
    by (intro topo_inv_update [OF inv]) (use adds topo_sub [OF inv Some] ids in \<open>auto simp: live_in_def\<close>)
qed (simp add: RenameSubscription_def inv)

lemma evicted_nodes:
  fixes hs :: "Hash list" and m :: ManagedNodes
  defines "m' \<equiv> map (\<lambda>(h, managed). (h, if h \<in> set hs then managed\<lparr>mn_Evicted := True\<rparr> else managed)) m"
  shows "gm_wf m' \<longleftrightarrow> gm_wf m" "live_in m' h \<longleftrightarrow> live_in m h \<and> h \<notin> set hs" "h \<notin> set hs \<Longrightarrow> map_of m' h = map_of m h"
proof -
  have get: "map_of m' h = map_option (\<lambda>managed. if h \<in> set hs then managed\<lparr>mn_Evicted := True\<rparr> else managed) (map_of m h)"
    unfolding m'_def by (induction m) auto
  show "live_in m' h \<longleftrightarrow> live_in m h \<and> h \<notin> set hs"
    by (auto simp: live_in_def wasEvicted_def get split: option.splits)
  show "h \<notin> set hs \<Longrightarrow> map_of m' h = map_of m h"
    by (cases "map_of m h") (simp_all add: get)
qed (simp add: m'_def comp_def split_beta)

lemma Cleanup_inv:
  assumes inv: "topo_inv cfg lk t"
  shows "topo_inv cfg lk (snd (CleanupSubscriptionNodes shouldRemove first lk now i t))"
proof (cases "map_of (tp_subs t) i")
  case (Some sub)
  define hs where "hs = filter (\<lambda>h. h \<in> set (removalCandidates shouldRemove (tp_pool t) (sb_managedNodes sub)))
    (removalCandidates shouldRemove first (sb_managedNodes sub))"
  let ?m = "map (\<lambda>(h, managed). (h, if h \<in> set hs then managed\<lparr>mn_Evicted := True\<rparr> else managed)) (sb_managedNodes sub)"
  let ?subs = "AList.update i (sub\<lparr>sb_managedNodes := ?m\<rparr>) (tp_subs t)"
  note m = evicted_nodes [where hs = hs and m = "sb_managedNodes sub"]
  have "MakeSubLookup (tp_subs t) j h = MakeSubLookup ?subs j h" if "h \<notin> set hs" for j h
    using m(3) [OF that] Some by (simp add: MakeSubLookup_def gomap_simps split: option.split)
  then have "relabelled (tp_subs t) ?subs (tp_pool t) \<subseteq> set hs"
    by (auto simp: relabelled_def)
  then have "sound cfg (subLookups lk ?subs) (set hs) (tp_pool t)"
    using inv unfolding topo_inv_def by (blast intro: sound_subs)
  note rems = sound_removals [OF this, of hs now i]
  have "topo_inv cfg lk (t\<lparr>tp_pool := fold (\<lambda>h. RemoveNodeFromSub (subLookups lk ?subs) now h i) hs (tp_pool t), tp_subs := ?subs\<rparr>)"
    by (rule topo_inv_update [OF inv]) (use rems m(1,2) topo_sub [OF inv Some] topo_ids [OF inv Some] in auto)
  then show ?thesis
    using inv unfolding CleanupSubscriptionNodes_def Some option.case Let_def hs_def [symmetric] by simp
qed (simp add: CleanupSubscriptionNodes_def inv)

lemma sweep_inv:
  assumes "topo_inv cfg lk t"
  shows "topo_inv cfg lk (sweep first lk now t)"
proof -
  have "topo_inv cfg lk (fold (\<lambda>i t. snd (sweepOneSubscription (first i) lk now i t)) is t)" for "is"
    using assms by (induction "is" arbitrary: t) (simp_all add: sweepOneSubscription_def Cleanup_inv split: option.splits)
  then show ?thesis
    by (simp add: sweep_def)
qed

lemma Delete_inv:
  assumes inv: "topo_inv cfg lk t"
  shows "topo_inv cfg lk (DeleteSubscription lk now i t)"
proof (cases "map_of (tp_subs t) i")
  case (Some sub)
  let ?hs = "map fst (sb_managedNodes sub)" and ?subs = "AList.delete i (tp_subs t)"
  let ?p = "fold (\<lambda>h. RemoveNodeFromSub (subLookups lk (tp_subs t)) now h i) ?hs (tp_pool t)"
  have "sound cfg (subLookups lk (tp_subs t)) {} (tp_pool t)"
    using inv by (simp add: topo_inv_def)
  note rems = sound_removals [OF this, of ?hs now i]
  have "i \<notin> ids_of (tp_pool t) k" if "k \<notin> set ?hs" for k
    using that topo_ids [OF inv Some, of k] unfolding live_in_def by (auto simp: map_of_eq_None_iff)
  then have ids: "ids_of ?p k = ids_of (tp_pool t) k - {i}" for k
    using rems [of k] by (cases "k \<in> set ?hs") simp_all
  have "relabelled (tp_subs t) ?subs ?p = {}"
    by (auto simp: relabelled_def ids MakeSubLookup_def gomap_simps)
  moreover have "sound cfg (subLookups lk (tp_subs t)) {} ?p"
    using rems by simp
  ultimately have "sound cfg (subLookups lk ?subs) {} ?p"
    by (blast intro: sound_subs)
  then show ?thesis
    using inv by (auto simp: DeleteSubscription_def Some topo_inv_def ids holds_def subs_ok_def gomap_simps split: if_splits)
qed (simp add: DeleteSubscription_def inv)

lemma UpdateSubscription_inv:
  assumes inv: "topo_inv cfg lk t"
  shows "topo_inv cfg lk (UpdateSubscription cfg lk now i ss t)"
proof (cases "map_of (tp_subs t) i")
  case (Some sub)
  let ?s1 = "(SetContent (ss_Content ss) (SetFetchConfig (ss_URL ss) (ss_UpdateIntervalNs ss) sub))
    \<lparr>sb_ephemeral := ss_Ephemeral ss, sb_incrementalAliveNodes := ss_IncrementalAliveNodes ss,
     sb_ephemeralNodeEvictDelayNs := ss_EphemeralNodeEvictDelayNs ss\<rparr>"
  have "topo_inv cfg lk (t\<lparr>tp_subs := AList.update i ?s1 (tp_subs t)\<rparr>)"
    by (rule topo_inv_fields [OF inv Some]) (simp_all add: SetFields_same)
  then show ?thesis
    by (simp add: UpdateSubscription_def Some Let_def RenameSubscription_inv SetSubscriptionEnabled_inv)
qed (simp add: UpdateSubscription_def inv)

section \<open>Health, egress, platforms and assessments keep it\<close>

text \<open>What an operation on one node may do to its entry.\<close>

definition kept_entry :: "NodeEntry \<Rightarrow> NodeEntry \<Rightarrow> bool" where
  "kept_entry e e' \<longleftrightarrow> ne_Hash e' = ne_Hash e \<and> ne_RawOptions e' = ne_RawOptions e \<and> ne_Outbound e' = ne_Outbound e \<and>
     ne_subscriptionIDs e' = ne_subscriptionIDs e \<and> (table_ok e \<longrightarrow> table_ok e')"

lemma kept_pool:
  assumes "pool_ok cfg p" "GetEntry h p = Some e" "kept_entry e e'" "gp_nodes p' = AList.update h e' (gp_nodes p)"
  shows "pool_ok cfg p' \<and> ids_of p' = ids_of p"
proof -
  have "entry_ok cfg h e'"
    using pool_okD [OF assms(1,2)] assms(3) by (auto simp: entry_ok_def kept_entry_def)
  then have "pool_ok cfg (setEntry h e' p)"
    by (rule pool_ok_setEntry [OF assms(1)])
  moreover have "ids_of p h = set (ne_subscriptionIDs e')"
    using assms(2,3) by (simp add: kept_entry_def ids_of_def)
  then have "ids_of (setEntry h e' p) = ids_of p"
    by (simp add: ids_setEntry fun_eq_iff)
  moreover have "gp_nodes p' = gp_nodes (setEntry h e' p)"
    by (simp add: assms(4))
  ultimately show ?thesis
    using pool_ok_cong ids_cong by metis
qed

lemma record_kept: "kept_entry e (fst (recordSuccess e))" "kept_entry e (fst (recordFailure m cls d now e))"
  by (auto simp: kept_entry_def recordSuccess_def recordFailure_def SetProbeFailure_def ClearProbeFailure_def Let_def table_ok_def)

lemma Outcome_ok:
  assumes "pool_ok cfg p"
  shows "pool_ok cfg (RecordOutcome cfg lk now h success cls detail p) \<and> ids_of (RecordOutcome cfg lk now h success cls detail p) = ids_of p"
proof (cases "GetEntry h p")
  case (Some e)
  let ?r = "if success then recordSuccess e else recordFailure (pc_maxConsecutiveFailures cfg) cls detail now e"
  have "kept_entry e (fst ?r)"
    using record_kept by simp
  then show ?thesis
    by (rule kept_pool [OF assms Some]) (cases ?r, simp add: RecordOutcome_def Some Let_def)
qed (simp add: RecordOutcome_def assms)

lemma update_kept:
  "updateIP now ip e = (e', c) \<Longrightarrow> kept_entry e e'" "updateRegion ip loc ch e = (e', c) \<Longrightarrow> kept_entry e e'"
  by (auto simp: updateIP_def updateRegion_def kept_entry_def SetEgressIP_def SetEgressRegion_def Let_def table_ok_def split: option.splits if_splits)

lemma Egress_ok:
  assumes "pool_ok cfg p"
  shows "pool_ok cfg (UpdateNodeEgressIP lk now h ip loc p) \<and> ids_of (UpdateNodeEgressIP lk now h ip loc p) = ids_of p"
proof (cases "GetEntry h p")
  case (Some e)
  obtain e1 e2 ipChanged regionChanged where
    1: "updateIP now ip (e\<lparr>ne_LastEgressUpdateAttempt := now\<rparr>) = (e1, ipChanged)" and 2: "updateRegion ip loc ipChanged e1 = (e2, regionChanged)"
    and eq: "UpdateNodeEgressIP lk now h ip loc p =
      (let p1 = (if ipChanged then (setEntry h e2 p)\<lparr>gp_egressIndex := indexEgressIP h (GetEgressIP e) (GetEgressIP e1) (gp_egressIndex p)\<rparr>
                 else setEntry h e2 p)
       in if ipChanged \<or> regionChanged then notifyAllPlatformsDirty lk now h p1 else p1)"
    by (rule UpdateNodeEgressIP_cases [OF Some])
  have "kept_entry e e2"
    using update_kept(1) [OF 1] update_kept(2) [OF 2] by (auto simp: kept_entry_def table_ok_def)
  then show ?thesis
    by (rule kept_pool [OF assms Some]) (simp add: eq Let_def)
qed (simp add: UpdateNodeEgressIP_def assms)

lemma Latency_ok:
  assumes "pool_ok cfg p"
  shows "pool_ok cfg (RecordLatency cfg lk now h target latency p) \<and> ids_of (RecordLatency cfg lk now h target latency p) = ids_of p"
proof (cases "GetEntry h p")
  case (Some e)
  let ?d = "pc_ExtractDomain cfg target"
  let ?e = "e\<lparr>ne_LastLatencyProbeAttempt := now,
    ne_LastAuthorityLatencyProbeAttempt := (if isAuthorityDomain cfg ?d then now else ne_LastAuthorityLatencyProbeAttempt e)\<rparr>"
  have attempt: "kept_entry e ?e"
    by (simp add: kept_entry_def table_ok_def)
  have "\<exists>e'. kept_entry e e' \<and> gp_nodes (RecordLatency cfg lk now h target latency p) = AList.update h e' (gp_nodes p)"
  proof (cases "\<exists>l t. latency = Some l \<and> 0 < l \<and> ne_LatencyTable e = Some t")
    case True
    then obtain l t where l: "latency = Some l" "0 < l" and t: "ne_LatencyTable e = Some t"
      by blast
    obtain w ev t' where up: "UpdateClassified (pc_mix cfg) (pc_domainKey cfg) ?d l (decayWindowOf cfg) (isAuthorityDomain cfg ?d) now t = ((w, ev), t')"
      by (metis prod.collapse)
    have "kept_entry e (?e\<lparr>ne_LatencyTable := Some t'\<rparr>)"
      using UpdateClassified_size(1) [OF _ _ up] by (auto simp: kept_entry_def table_ok_def t)
    moreover have "gp_nodes (RecordLatency cfg lk now h target latency p) = AList.update h (?e\<lparr>ne_LatencyTable := Some t'\<rparr>) (gp_nodes p)"
      using l(2) by (simp add: RecordLatency_def Some l(1) t up Let_def)
    ultimately show ?thesis
      by blast
  next
    case False
    then have "l \<le> 0" if "latency = Some l" "ne_LatencyTable e = Some t" for l t
      using False that linorder_not_le [of l 0] by blast
    then have "RecordLatency cfg lk now h target latency p = setEntry h ?e p"
      by (auto simp: RecordLatency_def Some Let_def split: option.splits)
    then show ?thesis
      using attempt by auto
  qed
  then show ?thesis
    using kept_pool [OF assms Some] by blast
qed (simp add: RecordLatency_def assms)

lemma topo_pool:
  assumes "topo_inv cfg lk t" "sound cfg (subLookups lk (tp_subs t)) {} p" "ids_of p = ids_of (tp_pool t)"
  shows "topo_inv cfg lk (t\<lparr>tp_pool := p\<rparr>)"
  using assms by (simp add: topo_inv_def)

text \<open>Platforms come and go; what is registered was rebuilt just before.\<close>

lemma rebuilt_platform:
  assumes "gm_wf (gp_nodes p)" "timeless plat"
  shows "timeless (RebuildPlatform lk now p plat)" "view_inv (pl_view (RebuildPlatform lk now p plat))"
    "h \<in> set (viewRange (pl_view (RebuildPlatform lk now p plat))) \<longleftrightarrow> routable lk p (RebuildPlatform lk now p plat) h"
proof -
  let ?plat = "RebuildPlatform lk now p plat"
  note view = FullRebuild_view [OF assms(1), of "poolLookups lk p" now plat]
  have same: "timeless ?plat = timeless plat" "routable lk p ?plat = routable lk p plat"
    by (simp_all add: RebuildPlatform_def FullRebuild_def)
  show "timeless ?plat" "view_inv (pl_view ?plat)" "h \<in> set (viewRange (pl_view ?plat)) \<longleftrightarrow> routable lk p ?plat h"
    unfolding same using view routable_loads [OF assms(2), of h p lk now] assms(2) by (simp_all add: RebuildPlatform_def)
qed

lemma sound_platforms:
  assumes "sound cfg lk D p" "gp_nodes p' = gp_nodes p" "gp_egressIndex p' = gp_egressIndex p" "gp_qualitySnapshot p' = gp_qualitySnapshot p"
    and new: "set (gp_platformByID p') \<subseteq> N \<union> set (gp_platformByID p)" "\<And>i plat. (i, plat) \<in> N \<Longrightarrow> \<exists>old. timeless old \<and> plat = RebuildPlatform lk now p old"
  shows "sound cfg lk D p'" "ids_of p' = ids_of p"
proof -
  have wf: "gm_wf (gp_nodes p)" and behind: "behind lk D p"
    using assms(1) by (simp_all add: sound_def pool_ok_def)
  have routable: "routable lk p' = routable lk p"
    by (rule routable_cong [OF assms(2,4)])
  have "timeless plat \<and> view_inv (pl_view plat) \<and> (\<forall>h. h \<notin> D \<longrightarrow> (h \<in> set (viewRange (pl_view plat)) \<longleftrightarrow> routable lk p' plat h))"
    if "(i, plat) \<in> set (gp_platformByID p')" for i plat
  proof (cases "(i, plat) \<in> N")
    case True
    then obtain old where "timeless old" "plat = RebuildPlatform lk now p old"
      using new(2) by blast
    then show ?thesis
      using rebuilt_platform [OF wf, where plat = old and lk = lk and now = now] by (simp add: routable)
  next
    case False
    then have "(i, plat) \<in> set (gp_platformByID p)"
      using new(1) that by blast
    then show ?thesis
      using behindD [OF behind] by (simp add: routable)
  qed
  then have "behind lk D p'"
    unfolding behind_def by blast
  then show "sound cfg lk D p'" "ids_of p' = ids_of p"
    using assms(1) pool_ok_cong [OF assms(2)] index_inv_cong [OF assms(2,3)] ids_cong [OF assms(2)] by (simp_all add: sound_def)
qed

lemma RebuildPlatform_name [simp]: "pl_ID (RebuildPlatform lk now p plat) = pl_ID plat" "pl_Name (RebuildPlatform lk now p plat) = pl_Name plat"
  by (simp_all add: RebuildPlatform_def FullRebuild_def)

lemma platforms_inv:
  fixes now
  assumes "sound cfg lk D p" "timeless plat"
  defines "r \<equiv> RegisterPlatform (RebuildPlatform lk now p plat) p" and "s \<equiv> snd (ReplacePlatform lk now plat p)"
  shows "sound cfg lk D r" "ids_of r = ids_of p" "sound cfg lk D s" "ids_of s = ids_of p"
proof -
  let ?N = "{(pl_ID plat, RebuildPlatform lk now p plat)}"
  note up = set_gm_update_subset [of "pl_ID plat" "RebuildPlatform lk now p plat" "gp_platformByID p"]
  have N: "\<exists>old. timeless old \<and> x = RebuildPlatform lk now p old" if "(i, x) \<in> ?N" for i x
    using that assms(2) by auto
  have r: "gp_nodes r = gp_nodes p" "gp_egressIndex r = gp_egressIndex p" "gp_qualitySnapshot r = gp_qualitySnapshot p"
    "set (gp_platformByID r) \<subseteq> ?N \<union> set (gp_platformByID p)"
    using up by (auto simp: r_def RegisterPlatform_def)
  have s: "gp_nodes s = gp_nodes p" "gp_egressIndex s = gp_egressIndex p" "gp_qualitySnapshot s = gp_qualitySnapshot p"
    "set (gp_platformByID s) \<subseteq> ?N \<union> set (gp_platformByID p)"
    using up unfolding s_def ReplacePlatform_def Let_def by (auto split: option.splits)
  show "sound cfg lk D r" "ids_of r = ids_of p"
    by (rule sound_platforms [OF assms(1) r N]; assumption)+
  show "sound cfg lk D s" "ids_of s = ids_of p"
    by (rule sound_platforms [OF assms(1) s N]; assumption)+
qed

lemma Unregister_inv:
  assumes "sound cfg lk D p"
  shows "sound cfg lk D (UnregisterPlatform i p)" "ids_of (UnregisterPlatform i p) = ids_of p"
proof -
  let ?u = "UnregisterPlatform i p"
  have u: "gp_nodes ?u = gp_nodes p" "gp_egressIndex ?u = gp_egressIndex p" "gp_qualitySnapshot ?u = gp_qualitySnapshot p"
    "set (gp_platformByID ?u) \<subseteq> {} \<union> set (gp_platformByID p)"
    by (auto simp: UnregisterPlatform_def AList.delete_eq split: option.splits)
  show "sound cfg lk D ?u" "ids_of ?u = ids_of p"
    by (rule sound_platforms [OF assms u]; simp)+
qed

lemma Snapshot_inv:
  assumes "sound cfg lk D p"
  shows "sound cfg lk {} (SetQualitySnapshot lk now (Some sn) p)" "ids_of (SetQualitySnapshot lk now (Some sn) p) = ids_of p"
proof -
  let ?p = "p\<lparr>gp_qualitySnapshot := Some sn\<rparr>"
  have ok: "pool_ok cfg ?p" "index_inv ?p" "ids_of ?p = ids_of p"
    using assms pool_ok_cong [of ?p p] index_inv_cong [of ?p p] ids_cong [of ?p p] by (simp_all add: sound_def)
  have "\<forall>(j, plat)\<in>set (gp_platformByID ?p). timeless plat"
    using assms behindD(1) unfolding sound_def by fastforce
  moreover have "gm_wf (gp_nodes ?p)"
    using ok(1) by (simp add: pool_ok_def)
  ultimately show "sound cfg lk {} (SetQualitySnapshot lk now (Some sn) p)" "ids_of (SetQualitySnapshot lk now (Some sn) p) = ids_of p"
    using ok behind_rebuild [of ?p] by (simp_all add: sound_def SetQualitySnapshot_def)
qed

text \<open>
  After an assessment only the nodes with that egress address can be behind, and the index names exactly these.
\<close>

lemma SetAssessments_same:
  "a \<notin> Unmap ` set ips \<Longrightarrow> Unmap ip = a \<Longrightarrow> qs_Assessment (fold (\<lambda>ip. SetAssessment ip (f ip)) ips sn) ip = qs_Assessment sn ip"
  by (induction ips arbitrary: sn) (auto simp: SetAssessment_def)

lemma behind_assess:
  assumes "behind lk D p" "\<And>ip. Unmap ip \<notin> A \<Longrightarrow> qs_Assessment sn' ip = qs_Assessment sn ip" "gp_qualitySnapshot p = Some sn"
  shows "behind lk (D \<union> {h. \<exists>a\<in>A. owns p a h}) (p\<lparr>gp_qualitySnapshot := Some sn'\<rparr>)"
proof (rule behind_change [OF assms(1)])
  fix plat h
  assume plat: "timeless plat" and h: "h \<notin> D \<union> {h. \<exists>a\<in>A. owns p a h}"
  show "routable lk (p\<lparr>gp_qualitySnapshot := Some sn'\<rparr>) plat h = routable lk p plat h"
  proof (cases "GetEntry h p")
    case (Some e)
    have "Unmap (GetEgressIP e) \<notin> A" if "IsValid (GetEgressIP e)"
      using h Some that by (auto simp: owns_def)
    then have "assessmentOf e (Some sn') = assessmentOf e (Some sn)"
      using assms(2) by (simp add: assessmentOf_def)
    moreover have "qualityVerdict (pl_Criteria plat) e l now = None" for l now
      using plat by (simp add: timeless_def qualityVerdict_def)
    moreover have "GetEntry h (p\<lparr>gp_qualitySnapshot := Some sn'\<rparr>) = Some e"
      using Some by (simp add: GetEntry_def)
    ultimately show ?thesis
      unfolding routable_def Some option.case evaluateNode_def MatchNodeCriteria_def matchSelection_def poolLookups_def
      by (simp add: assms(3))
  qed (simp add: routable_def GetEntry_def)
qed auto

lemma notifications:
  "sound cfg lk D p \<Longrightarrow> sound cfg lk (D - set hs) (fold (notifyAllPlatformsDirty lk now) hs p)"
proof (induction hs arbitrary: D p)
  case (Cons h hs)
  have "sound cfg lk (D - {h}) (notifyAllPlatformsDirty lk now h p)"
    using Cons.prems by (simp add: sound_def behind_notify)
  from Cons.IH [OF this] show ?case
    by (simp add: Diff_insert2 [symmetric])
qed simp

lemma notifications_same:
  "gp_nodes (fold (notifyAllPlatformsDirty lk now) hs p) = gp_nodes p"
  by (induction hs arbitrary: p) simp_all

lemma EgressIPOwners_owns: "index_inv p \<Longrightarrow> set (EgressIPOwners ip p) = {h. IsValid ip \<and> owns p (Unmap ip) h}"
  by (auto simp: EgressIPOwners_def index_inv_def indexed_def)

lemma NotifyEgressIPs_inv:
  "sound cfg lk D p \<Longrightarrow> sound cfg lk (D - {h. \<exists>ip\<in>set ips. IsValid ip \<and> owns p (Unmap ip) h}) (fold (\<lambda>ip p. snd (NotifyEgressIPDirty lk now ip p)) ips p) \<and>
     ids_of (fold (\<lambda>ip p. snd (NotifyEgressIPDirty lk now ip p)) ips p) = ids_of p"
proof (induction ips arbitrary: D p)
  case (Cons ip ips)
  let ?p = "snd (NotifyEgressIPDirty lk now ip p)"
  have inv: "index_inv p"
    using Cons.prems by (simp add: sound_def)
  have nodes: "gp_nodes ?p = gp_nodes p"
    by (simp add: NotifyEgressIPDirty_def notifications_same Let_def)
  then have owns: "owns ?p = owns p"
    by (simp add: owns_def GetEntry_def fun_eq_iff)
  have "sound cfg lk (D - {h. IsValid ip \<and> owns p (Unmap ip) h}) ?p"
    using notifications [OF Cons.prems, where hs = "EgressIPOwners ip p"] by (simp add: NotifyEgressIPDirty_def EgressIPOwners_owns [OF inv] Let_def)
  note IH = Cons.IH [OF this, unfolded owns]
  have D: "D - {h. IsValid ip \<and> owns p (Unmap ip) h} - {h. \<exists>ip\<in>set ips. IsValid ip \<and> owns p (Unmap ip) h} =
      D - {h. \<exists>ip\<in>set (ip # ips). IsValid ip \<and> owns p (Unmap ip) h}"
    by auto
  show ?case
    using IH ids_cong [OF nodes] unfolding D by simp
qed simp

lemma AssessMany_inv:
  assumes s: "sound cfg lk {} p" and sn: "gp_qualitySnapshot p = Some sn"
  shows "sound cfg lk {} (AssessMany assess lk now ips sn p)" "ids_of (AssessMany assess lk now ips sn p) = ids_of p"
proof -
  let ?good = "filter (\<lambda>ip. IsValid ip \<and> assess ip \<noteq> None) ips"
  let ?sn = "fold (\<lambda>ip. SetAssessment ip (the (assess ip))) ?good sn" and ?D = "{h. \<exists>a\<in>Unmap ` set ?good. owns p a h}"
  let ?p = "p\<lparr>gp_qualitySnapshot := Some ?sn\<rparr>"
  have "behind lk ({} \<union> ?D) ?p"
    by (rule behind_assess [OF _ SetAssessments_same [OF _ refl] sn]) (use s in \<open>simp_all add: sound_def\<close>)
  then have "sound cfg lk ?D ?p"
    using s pool_ok_cong [of ?p p] index_inv_cong [of ?p p] by (simp add: sound_def)
  note notified = NotifyEgressIPs_inv [OF this, of ips now]
  have "owns ?p = owns p"
    by (simp add: owns_def GetEntry_def fun_eq_iff)
  then have none: "?D - {h. \<exists>ip\<in>set ips. IsValid ip \<and> owns ?p (Unmap ip) h} = {}"
    by auto
  have ids: "ids_of ?p = ids_of p"
    by (rule ids_cong) simp
  show "sound cfg lk {} (AssessMany assess lk now ips sn p)" "ids_of (AssessMany assess lk now ips sn p) = ids_of p"
    using notified s unfolding AssessMany_def Let_def none ids by (simp_all only: split: if_split) simp_all
qed

end
