(* ===== verification/Topology_Runs.thy ===== *)
theory Topology_Runs
  imports Topology_Inv
begin

text \<open>
  Runs of the topology: every operation on subscriptions, nodes and platforms as a step, the invariant over
  runs, and refreshes that were overtaken by a newer one or by a change of what they had read.
\<close>

section \<open>A running topology\<close>

text \<open>
  Everything that happens to subscriptions, nodes and platforms while the program runs. A refresh that began
  before its subscription was deleted must not finish after it; \<open>late_refresh_leaves_orphans\<close> shows why.
\<close>

datatype topo_op =
    TCreate string SubscriptionSettings
  | TUpdate string SubscriptionSettings
  | TDelete string
  | TBegin string
  | TFinish string attempt fetched
  | TCleanup GlobalNodePool string
  | TSweep "string \<Rightarrow> GlobalNodePool"
  | TOutcome Hash bool string string
  | TPassive string Hash bool
  | TLatency Hash string "int option"
  | TEgress Hash "Addr option" "string option"
  | TRegisterPlatform Platform
  | TReplacePlatform Platform
  | TUnregisterPlatform string
  | TSnapshot QualitySnapshotReader
  | TAssess "Addr \<Rightarrow> AssessmentLite option" "Addr list"

definition onPool :: "(GlobalNodePool \<Rightarrow> GlobalNodePool) \<Rightarrow> topology \<Rightarrow> topology" where
  "onPool f t = t\<lparr>tp_pool := f (tp_pool t)\<rparr>"

fun topo_step :: "PoolConfig \<Rightarrow> Lookups \<Rightarrow> (string \<Rightarrow> Hash) \<Rightarrow> int \<times> topo_op \<Rightarrow> topology \<Rightarrow> topology" where
  "topo_step cfg lk hashOf (now, TCreate i ss) t = CreateSubscription i now ss t"
| "topo_step cfg lk hashOf (now, TUpdate i ss) t = UpdateSubscription cfg lk now i ss t"
| "topo_step cfg lk hashOf (now, TDelete i) t = DeleteSubscription lk now i t"
| "topo_step cfg lk hashOf (now, TBegin i) t = snd (beginRefresh i t)"
| "topo_step cfg lk hashOf (now, TFinish i a result) t = finishRefresh cfg lk now hashOf i a result t"
| "topo_step cfg lk hashOf (now, TCleanup first i) t = snd (CleanupSubscriptionCircuitOpenNodes first lk now i t)"
| "topo_step cfg lk hashOf (now, TSweep first) t = sweep first lk now t"
| "topo_step cfg lk hashOf (now, TOutcome h success cls detail) t =
     onPool (RecordOutcome cfg (subLookups lk (tp_subs t)) now h success cls detail) t"
| "topo_step cfg lk hashOf (now, TPassive i h success) t = onPool (RecordPassiveResult cfg (subLookups lk (tp_subs t)) now i h success) t"
| "topo_step cfg lk hashOf (now, TLatency h target latency) t = onPool (RecordLatency cfg (subLookups lk (tp_subs t)) now h target latency) t"
| "topo_step cfg lk hashOf (now, TEgress h ip loc) t = onPool (UpdateNodeEgressIP (subLookups lk (tp_subs t)) now h ip loc) t"
| "topo_step cfg lk hashOf (now, TRegisterPlatform plat) t =
     onPool (\<lambda>p. RegisterPlatform (RebuildPlatform (subLookups lk (tp_subs t)) now p plat) p) t"
| "topo_step cfg lk hashOf (now, TReplacePlatform plat) t = onPool (\<lambda>p. snd (ReplacePlatform (subLookups lk (tp_subs t)) now plat p)) t"
| "topo_step cfg lk hashOf (now, TUnregisterPlatform i) t = onPool (UnregisterPlatform i) t"
| "topo_step cfg lk hashOf (now, TSnapshot sn) t = onPool (SetQualitySnapshot (subLookups lk (tp_subs t)) now (Some sn)) t"
| "topo_step cfg lk hashOf (now, TAssess assess ips) t =
     onPool (\<lambda>p. case gp_qualitySnapshot p of None \<Rightarrow> p | Some sn \<Rightarrow> AssessMany assess (subLookups lk (tp_subs t)) now ips sn p) t"

fun topo_enabled :: "int \<times> topo_op \<Rightarrow> topology \<Rightarrow> bool" where
  "topo_enabled (now, TCreate i ss) t \<longleftrightarrow> objectOf i t = None"
| "topo_enabled (now, TFinish i a result) t \<longleftrightarrow> (map_of (tp_gone t) i = None \<or> map_of (tp_subs t) i \<noteq> None) \<and>
     (case result of Failed _ \<Rightarrow> True | Parsed parsed \<Rightarrow> list_all (\<lambda>(raw, tag). raw \<noteq> '''') parsed)"
| "topo_enabled (now, TOutcome h success cls detail) t \<longleftrightarrow> now \<noteq> 0"
| "topo_enabled (now, TPassive i h success) t \<longleftrightarrow> now \<noteq> 0"
| "topo_enabled (now, TRegisterPlatform plat) t \<longleftrightarrow> timeless plat"
| "topo_enabled (now, TReplacePlatform plat) t \<longleftrightarrow> timeless plat"
| "topo_enabled _ t \<longleftrightarrow> True"

lemma Outcome_inv:
  "sound cfg lk D p \<Longrightarrow> now \<noteq> 0 \<Longrightarrow> sound cfg lk D (RecordOutcome cfg lk now h success cls detail p) \<and>
     ids_of (RecordOutcome cfg lk now h success cls detail p) = ids_of p"
  by (simp add: sound_def Outcome_ok index_inv_Outcome behind_Outcome)

lemma Latency_inv:
  "sound cfg lk D p \<Longrightarrow> sound cfg lk D (RecordLatency cfg lk now h target latency p) \<and> ids_of (RecordLatency cfg lk now h target latency p) = ids_of p"
  by (simp add: sound_def Latency_ok index_inv_Latency) (auto simp: entry_ok_def dest: pool_okD intro!: behind_Latency)

lemma Egress_inv:
  "sound cfg lk D p \<Longrightarrow> sound cfg lk D (UpdateNodeEgressIP lk now h ip loc p) \<and> ids_of (UpdateNodeEgressIP lk now h ip loc p) = ids_of p"
  using Egress_ok [of cfg p lk now h ip loc] by (simp add: sound_def index_inv_Egress behind_Egress)

interpretation running: enabled_machine "topo_step cfg lk hashOf" "topo_inv cfg lk" topo_enabled for cfg lk hashOf
proof (unfold_locales, goal_cases)
  case (1 op t)
  obtain now act where op: "op = (now, act)"
    by (cases op)
  have s: "sound cfg (subLookups lk (tp_subs t)) {} (tp_pool t)"
    using 1(2) by (simp add: topo_inv_def)
  note keep = topo_pool [OF 1(2)]
  show ?case
  proof (cases act)
    case (TFinish i a result)
    then show ?thesis
      using 1 by (auto simp: op readable_def list_all_iff intro!: finishRefresh_inv)
  next
    case (TPassive i h success)
    then show ?thesis
      using 1 keep Outcome_inv [OF s] by (simp add: op onPool_def RecordPassiveResult_def RecordResult_def)
  next
    case (TAssess assess ips)
    then show ?thesis
      using 1(2) keep AssessMany_inv [OF s]
      by (cases "gp_qualitySnapshot (tp_pool t)") (simp_all add: op onPool_def)
  next
    case (TCreate i ss)
    then show ?thesis
      using 1 by (auto simp: op objectOf_def intro!: CreateSubscription_inv split: option.splits)
  qed (use 1 keep Outcome_inv [OF s] Latency_inv [OF s] Egress_inv [OF s] platforms_inv [OF s] Unregister_inv [OF s] Snapshot_inv [OF s] in
      \<open>simp_all add: op onPool_def CleanupSubscriptionCircuitOpenNodes_def UpdateSubscription_inv Delete_inv beginRefresh_inv Cleanup_inv sweep_inv\<close>)
qed

lemma NewTopology_inv: "topo_inv cfg lk NewTopology"
  by (simp add: topo_inv_def NewTopology_def NewGlobalNodePool_def sound_def pool_ok_def index_inv_def behind_def subs_ok_def holds_def
      ids_of_def GetEntry_def indexed_def owns_def)

section \<open>Refreshes that were overtaken\<close>

text \<open>An attempt is superseded once a newer one was applied or the input it read has changed.\<close>

definition superseded :: "attempt \<Rightarrow> Subscription \<Rightarrow> bool" where
  "superseded a sub \<longleftrightarrow> at_configVersion a < sb_configVersion sub \<or> at_seq a < sb_lastAppliedSeq sub"

definition grows :: "Subscription \<Rightarrow> Subscription \<Rightarrow> bool" where
  "grows s s' \<longleftrightarrow> sb_ID s' = sb_ID s \<and> sb_configVersion s \<le> sb_configVersion s' \<and> sb_lastAppliedSeq s \<le> sb_lastAppliedSeq s'"

fun evolves :: "string \<Rightarrow> Subscription option \<Rightarrow> Subscription option \<Rightarrow> bool" where
  "evolves i None None \<longleftrightarrow> True"
| "evolves i None (Some s') \<longleftrightarrow> sb_ID s' = i"
| "evolves i (Some s) None \<longleftrightarrow> False"
| "evolves i (Some s) (Some s') \<longleftrightarrow> grows s s'"

definition later :: "topology \<Rightarrow> topology \<Rightarrow> bool" where
  "later t t' \<longleftrightarrow> (\<forall>i. evolves i (objectOf i t) (objectOf i t'))"

definition objects_ok :: "topology \<Rightarrow> bool" where
  "objects_ok t \<longleftrightarrow> (\<forall>i s. objectOf i t = Some s \<longrightarrow> sb_ID s = i)"

lemma grows_refl [simp]: "grows s s"
  by (simp add: grows_def)

lemma grows_fields [simp]:
  "grows s (s\<lparr>sb_name := n\<rparr>)" "grows s (s\<lparr>sb_enabled := e\<rparr>)" "grows s (s\<lparr>sb_managedNodes := m\<rparr>)" "grows s (s\<lparr>sb_attemptSeq := q\<rparr>)"
  "grows s (handleUpdateFailure now a err s)"
  "grows s ((SetContent c (SetFetchConfig u v s))\<lparr>sb_ephemeral := x, sb_incrementalAliveNodes := y, sb_ephemeralNodeEvictDelayNs := z\<rparr>)"
  by (simp_all add: grows_def handleUpdateFailure_def SetContent_def SetFetchConfig_def)

lemma evolves_refl [simp]: "evolves i x x"
  by (cases x) auto

lemma evolves_trans: "evolves i x y \<Longrightarrow> evolves i y z \<Longrightarrow> evolves i x z"
  by (cases x; cases y; cases z) (auto simp: grows_def)

lemma later_refl [simp]: "later t t"
  by (simp add: later_def)

lemma later_trans: "later t u \<Longrightarrow> later u v \<Longrightarrow> later t v"
  unfolding later_def using evolves_trans by blast

lemma later_ok: "objects_ok t \<Longrightarrow> later t t' \<Longrightarrow> objects_ok t'"
proof -
  have "evolves i x y \<Longrightarrow> (\<And>s. x = Some s \<Longrightarrow> sb_ID s = i) \<Longrightarrow> y = Some s' \<Longrightarrow> sb_ID s' = i" for i x y s'
    by (cases x) (auto simp: grows_def)
  then show "objects_ok t \<Longrightarrow> later t t' \<Longrightarrow> objects_ok t'"
    unfolding objects_ok_def later_def by blast
qed

lemma objectOf_pool [simp]: "objectOf i (t\<lparr>tp_pool := p\<rparr>) = objectOf i t"
  by (simp add: objectOf_def split: option.split)

lemma objectOf_store: "objectOf j (storeObject i s t) = (if j = i then Some s else objectOf j t)"
  by (auto simp: objectOf_def storeObject_def gomap_simps split: option.splits)

lemma later_store: "objectOf i t = Some s \<Longrightarrow> grows s s' \<Longrightarrow> later t (storeObject i s' t)"
  by (simp add: later_def objectOf_store)

lemma later_update:
  assumes "map_of (tp_subs t) i = Some s" "grows s s'"
  shows "later t (t\<lparr>tp_pool := p, tp_subs := AList.update i s' (tp_subs t)\<rparr>)" "later t (t\<lparr>tp_subs := AList.update i s' (tp_subs t)\<rparr>)"
proof -
  have "objectOf j (t\<lparr>tp_pool := p, tp_subs := AList.update i s' (tp_subs t)\<rparr>) = (if j = i then Some s' else objectOf j t)"
    "objectOf j (t\<lparr>tp_subs := AList.update i s' (tp_subs t)\<rparr>) = (if j = i then Some s' else objectOf j t)" for j
    by (auto simp: objectOf_def gomap_simps split: option.splits)
  moreover have "objectOf i t = Some s"
    by (simp add: objectOf_def assms(1))
  ultimately show "later t (t\<lparr>tp_pool := p, tp_subs := AList.update i s' (tp_subs t)\<rparr>)" "later t (t\<lparr>tp_subs := AList.update i s' (tp_subs t)\<rparr>)"
    using assms(2) by (simp_all add: later_def)
qed

lemma later_Rename: "later t (RenameSubscription cfg lk now i name t)"
  unfolding RenameSubscription_def Let_def by (cases "map_of (tp_subs t) i") (simp_all add: later_update)

lemma later_Enabled: "later t (SetSubscriptionEnabled cfg lk now i enabled t)"
  unfolding SetSubscriptionEnabled_def Let_def by (cases "map_of (tp_subs t) i") (simp_all add: later_update)

lemma later_Update: "later t (UpdateSubscription cfg lk now i ss t)"
proof (cases "map_of (tp_subs t) i")
  case (Some s)
  let ?t1 = "t\<lparr>tp_subs := AList.update i ((SetContent (ss_Content ss) (SetFetchConfig (ss_URL ss) (ss_UpdateIntervalNs ss) s))
    \<lparr>sb_ephemeral := ss_Ephemeral ss, sb_incrementalAliveNodes := ss_IncrementalAliveNodes ss,
     sb_ephemeralNodeEvictDelayNs := ss_EphemeralNodeEvictDelayNs ss\<rparr>) (tp_subs t)\<rparr>"
  let ?t2 = "if sb_name s \<noteq> ss_Name ss then RenameSubscription cfg lk now i (ss_Name ss) ?t1 else ?t1"
  have "later t ?t1"
    by (rule later_update(2) [OF Some]) simp
  moreover have "later ?t1 ?t2"
    by (simp add: later_Rename)
  moreover have "later ?t2 (UpdateSubscription cfg lk now i ss t)"
    by (simp add: UpdateSubscription_def Some Let_def later_Enabled)
  ultimately show ?thesis
    by (blast intro: later_trans)
qed (simp add: UpdateSubscription_def)

lemma later_Cleanup: "later t (snd (CleanupSubscriptionNodes shouldRemove first lk now i t))"
  unfolding CleanupSubscriptionNodes_def Let_def by (cases "map_of (tp_subs t) i") (simp_all add: later_update)

lemma later_sweep: "later t (sweep first lk now t)"
proof -
  have "later t (fold (\<lambda>i t. snd (sweepOneSubscription (first i) lk now i t)) is t)" for "is"
  proof (induction "is" arbitrary: t)
    case (Cons i "is")
    have "later t (snd (sweepOneSubscription (first i) lk now i t))"
      by (simp add: sweepOneSubscription_def later_Cleanup split: option.split)
    then show ?case
      using Cons.IH later_trans by simp
  qed simp
  then show ?thesis
    by (simp add: sweep_def)
qed

lemma later_Delete: "later t (DeleteSubscription lk now i t)"
proof (cases "map_of (tp_subs t) i")
  case (Some s)
  then have "objectOf j (DeleteSubscription lk now i t) = objectOf j t" for j
    by (auto simp: DeleteSubscription_def objectOf_def gomap_simps split: option.splits)
  then show ?thesis
    by (simp add: later_def)
qed (simp add: DeleteSubscription_def)

lemma later_Register:
  assumes "objectOf (sb_ID s) t = None"
  shows "later t (Register s t)"
proof -
  have "objectOf j (Register s t) = (if j = sb_ID s then Some s else objectOf j t)" for j
    by (auto simp: Register_def objectOf_def gomap_simps split: option.splits)
  then show ?thesis
    using assms by (simp add: later_def)
qed

lemma later_Create: "objectOf i t = None \<Longrightarrow> later t (CreateSubscription i now ss t)"
  unfolding CreateSubscription_def Let_def by (rule later_Register) (simp add: SetFields_same NewSubscription_def)

lemma later_apply:
  assumes "objectOf (sb_ID sub) t = Some sub"
  shows "later t (applyRefresh cfg lk now hashOf a parsed sub t)"
proof (cases "stale a sub")
  case False
  let ?i = "sb_ID sub"
  let ?m = "inheritEvicted (sb_managedNodes sub) (mergeRefresh (sb_incrementalAliveNodes sub) (tp_pool t) (sb_managedNodes sub) (refreshedNodes hashOf parsed))"
  obtain added kept removed where diff: "DiffHashes (sb_managedNodes sub) ?m = (added, kept, removed)"
    by (metis prod_cases3)
  have "\<exists>p m. applyRefresh cfg lk now hashOf a parsed sub t =
      storeObject ?i (sub\<lparr>sb_managedNodes := m, sb_LastCheckedNs := now, sb_LastUpdatedNs := now, sb_lastAppliedSeq := at_seq a, sb_LastError := ''''\<rparr>)
        ((storeObject ?i (sub\<lparr>sb_managedNodes := m\<rparr>) t)\<lparr>tp_pool := p\<rparr>)"
    unfolding applyRefresh_def Let_def diff prod.case if_not_P [OF False] by (intro exI) (rule refl)
  then obtain p m where eq: "applyRefresh cfg lk now hashOf a parsed sub t =
      storeObject ?i (sub\<lparr>sb_managedNodes := m, sb_LastCheckedNs := now, sb_LastUpdatedNs := now, sb_lastAppliedSeq := at_seq a, sb_LastError := ''''\<rparr>)
        ((storeObject ?i (sub\<lparr>sb_managedNodes := m\<rparr>) t)\<lparr>tp_pool := p\<rparr>)"
    by blast
  have "grows sub (sub\<lparr>sb_managedNodes := m, sb_LastCheckedNs := now, sb_LastUpdatedNs := now, sb_lastAppliedSeq := at_seq a, sb_LastError := ''''\<rparr>)"
    using False by (simp add: grows_def stale_def)
  then show ?thesis
    using assms by (simp add: eq later_def objectOf_store)
qed (simp add: applyRefresh_def)

lemma later_finish:
  assumes "objects_ok t"
  shows "later t (finishRefresh cfg lk now hashOf i a result t)"
proof (cases "objectOf i t")
  case (Some s)
  then have "sb_ID s = i"
    using assms by (simp add: objects_ok_def)
  then show ?thesis
    using later_apply [of s t] later_store [OF Some] by (simp add: finishRefresh_def Some Let_def split: fetched.splits)
qed (simp add: finishRefresh_def)

lemma later_begin: "later t (snd (beginRefresh i t))"
  by (auto simp: beginRefresh_def Let_def later_update split: option.splits)

lemma later_step:
  assumes "objects_ok t" "topo_enabled op t"
  shows "later t (topo_step cfg lk hashOf op t)"
proof -
  obtain now act where op: "op = (now, act)"
    by (cases op)
  have pool: "later t (onPool f t)" for f
    by (simp add: later_def onPool_def)
  show ?thesis
    using assms by (cases act) (simp_all add: op pool later_Create later_Update later_Delete later_begin later_finish later_sweep
        CleanupSubscriptionCircuitOpenNodes_def later_Cleanup)
qed

interpretation objects: enabled_machine "topo_step cfg lk hashOf" "\<lambda>t. objects_ok t \<and> later t0 t" topo_enabled for cfg lk hashOf t0
  using later_step later_ok later_trans by unfold_locales blast

lemma enabled_run_append: "enabled_run step en (xs @ ys) s \<longleftrightarrow> enabled_run step en xs s \<and> enabled_run step en ys (fold step xs s)"
  by (induction xs arbitrary: s) auto

lemma superseded_refresh:
  assumes "objectOf i t = Some sub" "superseded a sub"
  shows "finishRefresh cfg lk now hashOf i a result t = t"
proof -
  have "stale a sub"
    using assms(2) by (auto simp: superseded_def stale_def)
  moreover have "storeObject i sub t = t"
    using assms(1) by (cases t) (auto simp: objectOf_def storeObject_def update_triv split: option.splits)
  ultimately show ?thesis
    by (simp add: finishRefresh_def assms(1) handleUpdateFailure_def applyRefresh_def Let_def split: fetched.splits)
qed

section \<open>The properties\<close>

definition exampleSettings :: SubscriptionSettings where
  "exampleSettings = \<lparr>ss_Name = ''sub'', ss_SourceType = ''remote'', ss_URL = ''https://a'', ss_Content = '''', ss_UpdateIntervalNs = 300000000000,
     ss_Enabled = True, ss_Ephemeral = True, ss_IncrementalAliveNodes = False, ss_EphemeralNodeEvictDelayNs = 10\<rparr>"

definition exampleAttempt :: attempt where
  "exampleAttempt = \<lparr>at_seq = 1, at_configVersion = 2\<rparr>"

text \<open>A platform, a subscription and a first refresh; then the node is probed until it can be routed to.\<close>

definition exampleRefresh :: "(int \<times> topo_op) list" where
  "exampleRefresh = [(1, TRegisterPlatform (examplePlatform NewRoutableView)), (2, TCreate ''s'' exampleSettings), (3, TBegin ''s''),
     (4, TFinish ''s'' exampleAttempt (Parsed [(''{}'', ''tag'')]))]"

definition exampleProbes :: "(int \<times> topo_op) list" where
  "exampleProbes = [(5, TEgress exampleHash (Some (IPv4 1)) (Some ''jp'')), (6, TLatency exampleHash ''a'' (Some 20)), (7, TOutcome exampleHash True '''' '''')]"

abbreviation example_step :: "int \<times> topo_op \<Rightarrow> topology \<Rightarrow> topology" where
  "example_step \<equiv> topo_step exampleConfig exampleLookups (\<lambda>_. exampleHash)"






text \<open>The console changes the address while the first refresh is fetching; its nodes never arrive.\<close>

definition exampleMoved :: "(int \<times> topo_op) list" where
  "exampleMoved = [(2, TCreate ''s'' exampleSettings), (3, TBegin ''s''), (4, TUpdate ''s'' (exampleSettings\<lparr>ss_URL := ''https://b''\<rparr>))]"


lemma refreshedNodes_complete: "(raw, tag) \<in> set parsed \<Longrightarrow> map_of (refreshedNodes hashOf parsed) (hashOf raw) \<noteq> None"
proof (induction parsed rule: rev_induct)
  case (snoc x xs)
  then show ?case
    by (cases x) (auto simp: refreshedNodes_def Let_def gomap_simps)
qed simp

lemma refreshed_in_merged:
  assumes "gm_wf old" "(raw, tag) \<in> set parsed"
  shows "map_of (inheritEvicted old (mergeRefresh inc p old (refreshedNodes hashOf parsed))) (hashOf raw) \<noteq> None"
proof -
  have "gm_wf (refreshedNodes hashOf parsed)"
    using refreshedNodes_raws by blast
  then show ?thesis
    using refreshedNodes_complete [OF assms(2), of hashOf] by (auto simp: map_of_inherit mergeRefresh_def fold_update(2) split: option.splits)
qed

text \<open>
  C40. Why a refresh must not end after its subscription was deleted: no guard asks whether the subscription is
  still registered. If the attempt is not out of date, every node it read that the subscription had not
  evicted is in the pool afterwards under the identifier of a subscription that no longer exists, so
  no later operation on subscriptions takes it out.
\<close>
theorem late_refresh_leaves_orphans:
  assumes inv: "topo_inv cfg lk t" and gone: "map_of (tp_subs t) i = None" "map_of (tp_gone t) i = Some sub"
    and sub: "sb_ID sub = i" "gm_wf (sb_managedNodes sub)" "\<not> stale a sub" and parsed: "readable parsed" "parsed \<noteq> []"
    and raw: "(raw, tag) \<in> set parsed" "\<not> wasEvicted (sb_managedNodes sub) (hashOf raw)"
    and t': "t' = finishRefresh cfg lk now hashOf i a (Parsed parsed) t"
  shows "\<exists>e. GetEntry (hashOf raw) (tp_pool t') = Some e \<and> i \<in> set (ne_subscriptionIDs e) \<and> map_of (tp_subs t') i = None"
proof -
  let ?m = "inheritEvicted (sb_managedNodes sub) (mergeRefresh (sb_incrementalAliveNodes sub) (tp_pool t) (sb_managedNodes sub) (refreshedNodes hashOf parsed))"
  obtain added kept removed where diff: "DiffHashes (sb_managedNodes sub) ?m = (added, kept, removed)"
    by (metis prod_cases3)
  note merged = merged_nodes [OF sub(2), where hashOf = hashOf and parsed = parsed and inc = "sb_incrementalAliveNodes sub" and p = "tp_pool t"]
  let ?lk = "subLookups lk (tp_subs t)" and ?h = "hashOf raw"
  let ?p1 = "fold (addRefreshed cfg ?lk now i ?m (rawByHash hashOf parsed)) (added @ kept) (tp_pool t)"
  let ?p2 = "fold (\<lambda>h. RemoveNodeFromSub ?lk now h i) removed ?p1"
  have pool: "tp_pool t' = ?p2" "tp_subs t' = tp_subs t"
    using parsed(2) unfolding t' finishRefresh_def objectOf_def gone option.case fetched.case Let_def applyRefresh_def diff prod.case sub(1)
    by (simp_all add: sub(3) storeObject_def gone)
  have s: "sound cfg ?lk {} (tp_pool t)"
    using inv by (simp add: topo_inv_def)
  have "\<forall>h\<in>set (added @ kept). wasEvicted ?m h \<or> gm_get (rawByHash hashOf parsed) h '''' \<noteq> '''' \<or> GetEntry h (tp_pool t) \<noteq> None"
    using merged(3) rawByHash_readable [OF parsed(1)] unfolding DiffHashes_sets [OF diff] live_in_def by blast
  note adds = sound_additions [OF s this, of now i]
  have live: "?h \<in> set (added @ kept)" "\<not> wasEvicted ?m ?h"
    unfolding DiffHashes_sets [OF diff] merged(2) using refreshed_in_merged [OF sub(2) raw(1)] raw(2) by simp_all
  have "?h \<notin> set removed"
    using live(1) unfolding DiffHashes_sets [OF diff] by blast
  moreover have "sound cfg ?lk {} ?p1" "i \<in> ids_of ?p1 ?h"
    using adds live by simp_all
  ultimately have "i \<in> ids_of ?p2 ?h"
    using sound_removals [where hs = removed and now = now and i = i] by simp
  then show ?thesis
    using gone(1) unfolding pool ids_of_def by (auto split: option.splits)
qed

text \<open>The subscription is deleted while its first refresh is fetching; the node that the refresh brings stays.\<close>

definition exampleDeleted :: "(int \<times> topo_op) list" where
  "exampleDeleted = [(2, TCreate ''s'' exampleSettings), (3, TBegin ''s''), (4, TDelete ''s'')]"

theorem late_refresh_leaves_orphans_witness:
  "let t = example_step (5, TFinish ''s'' exampleAttempt (Parsed [(''{}'', ''tag'')])) (fold example_step exampleDeleted NewTopology)
   in tp_subs t = [] \<and> (\<exists>e. GetEntry exampleHash (tp_pool t) = Some e \<and> ''s'' \<in> set (ne_subscriptionIDs e))"
proof -
  let ?t = "fold example_step exampleDeleted NewTopology"
  have "enabled_run example_step topo_enabled exampleDeleted NewTopology"
    by code_simp
  then have inv: "topo_inv exampleConfig exampleLookups ?t"
    by (rule running.inv_enabled_run [OF _ NewTopology_inv])
  have "tp_subs ?t = []"
    by code_simp
  then have none: "map_of (tp_subs ?t) ''s'' = None"
    by simp
  have "map_option (\<lambda>s. sb_ID s = ''s'' \<and> sb_managedNodes s = [] \<and> \<not> stale exampleAttempt s) (map_of (tp_gone ?t) ''s'') = Some True"
    by code_simp
  then obtain sub where sub: "map_of (tp_gone ?t) ''s'' = Some sub" "sb_ID sub = ''s''" "sb_managedNodes sub = []" "\<not> stale exampleAttempt sub"
    by auto
  have "tp_subs (example_step (5, TFinish ''s'' exampleAttempt (Parsed [(''{}'', ''tag'')])) ?t) = []"
    by code_simp
  moreover note late_refresh_leaves_orphans [OF inv none sub(1,2) _ sub(4), of "[(''{}'', ''tag'')]" "''{}''" "''tag''" "\<lambda>_. exampleHash" _ 5]
  ultimately show ?thesis
    unfolding Let_def using sub(3) by (simp add: readable_def wasEvicted_def)
qed

end
