(* ===== verification/Spec2Isabelle.thy ===== *)
theory Spec2Isabelle
  imports Period Lease_Maintenance Deposits Enforcement Topology_Runs
begin

text \<open>
  Prism: a verification development of the accounting and routing core.
\<close>

section \<open>From the console to the open connection\<close>



end
